(* ===== verification/Prelude.thy ===== *)
theory Prelude
  imports Main "HOL-Library.Multiset"
begin

text \<open>
  What the components share: the results of Go code that may panic, Go's checked slice
  operations, reachable states of a transition system with the rule for invariants, and
  facts on lists that several components use.

  A Go panic that nobody recovers ends the process, so a function that may panic returns
  a value of \<open>'a go\<close>: \<open>Inl e\<close> is the panic (or a \<open>log.Fatal\<close>), \<open>Inr x\<close> the normal result.
\<close>

section \<open>Results of Go code\<close>

datatype go_error =
    IndexOutOfRange
  | NilDereference
  | DivideByZero
  | Panic string
  | Fatal string

type_synonym 'a go = "go_error + 'a"

definition go_bind :: "'a go \<Rightarrow> ('a \<Rightarrow> 'b go) \<Rightarrow> 'b go" where
  "go_bind m f = (case m of Inl e \<Rightarrow> Inl e | Inr x \<Rightarrow> f x)"

named_theorems go_simps \<open>symbolic execution of checked Go operations\<close>

lemma go_bind_simps [simp]:
  "go_bind (Inl e) f = Inl e"
  "go_bind (Inr x) f = f x"
  by (simp_all add: go_bind_def)

lemma go_bind_eq_Inr: "go_bind m f = Inr y \<longleftrightarrow> (\<exists>x. m = Inr x \<and> f x = Inr y)"
  by (cases m) auto

lemma go_bind_cong [fundef_cong]:
  "m = m' \<Longrightarrow> (\<And>x. m' = Inr x \<Longrightarrow> f x = f' x) \<Longrightarrow> go_bind m f = go_bind m' f'"
  by (cases m') auto

section \<open>Slices\<close>

text \<open>
  Indices are Go's \<open>int\<close>. \<open>idx xs i\<close> is \<open>xs[i]\<close>, \<open>set_idx xs i v\<close> is \<open>xs[i] = v\<close>,
  \<open>slice_to xs i\<close> is \<open>xs[:i]\<close> and \<open>slice_from xs i\<close> is \<open>xs[i:]\<close>. Each panics out of range.
\<close>

definition slen :: "'a list \<Rightarrow> int" where
  "slen xs = int (length xs)"

definition idx :: "'a list \<Rightarrow> int \<Rightarrow> 'a go" where
  "idx xs i = (if 0 \<le> i \<and> i < slen xs then Inr (xs ! nat i) else Inl IndexOutOfRange)"

definition set_idx :: "'a list \<Rightarrow> int \<Rightarrow> 'a \<Rightarrow> 'a list go" where
  "set_idx xs i v = (if 0 \<le> i \<and> i < slen xs then Inr (xs[nat i := v]) else Inl IndexOutOfRange)"

definition slice_to :: "'a list \<Rightarrow> int \<Rightarrow> 'a list go" where
  "slice_to xs i = (if 0 \<le> i \<and> i \<le> slen xs then Inr (take (nat i) xs) else Inl IndexOutOfRange)"

definition slice_from :: "'a list \<Rightarrow> int \<Rightarrow> 'a list go" where
  "slice_from xs i = (if 0 \<le> i \<and> i \<le> slen xs then Inr (drop (nat i) xs) else Inl IndexOutOfRange)"

lemma slen_simps [simp]:
  "slen [] = 0"
  "slen (x # xs) = 1 + slen xs"
  "slen (xs @ ys) = slen xs + slen ys"
  "slen (xs[i := v]) = slen xs"
  "slen (map f xs) = slen xs"
  "slen (replicate n v) = int n"
  by (simp_all add: slen_def)

lemma slen_nonneg [simp]: "0 \<le> slen xs"
  by (simp add: slen_def)

lemma slen_pos [simp]: "0 < slen xs \<longleftrightarrow> xs \<noteq> []"
  by (simp add: slen_def)

lemma nat_slen_minus_1 [simp]: "nat (slen xs - 1) = length xs - 1"
  by (cases xs) (auto simp: slen_def)

lemma idx_ok [go_simps]: "0 \<le> i \<Longrightarrow> i < slen xs \<Longrightarrow> idx xs i = Inr (xs ! nat i)"
  by (simp add: idx_def)

lemma set_idx_ok [go_simps]: "0 \<le> i \<Longrightarrow> i < slen xs \<Longrightarrow> set_idx xs i v = Inr (xs[nat i := v])"
  by (simp add: set_idx_def)

lemma slice_to_ok [go_simps]: "0 \<le> i \<Longrightarrow> i \<le> slen xs \<Longrightarrow> slice_to xs i = Inr (take (nat i) xs)"
  by (simp add: slice_to_def)

lemma slice_from_ok [go_simps]: "0 \<le> i \<Longrightarrow> i \<le> slen xs \<Longrightarrow> slice_from xs i = Inr (drop (nat i) xs)"
  by (simp add: slice_from_def)

lemma idx_eq_Inr: "idx xs i = Inr x \<longleftrightarrow> 0 \<le> i \<and> i < slen xs \<and> x = xs ! nat i"
  by (auto simp: idx_def)

lemma set_idx_eq_Inr: "set_idx xs i v = Inr ys \<longleftrightarrow> 0 \<le> i \<and> i < slen xs \<and> ys = xs[nat i := v]"
  by (auto simp: set_idx_def)

lemma slice_to_eq_Inr: "slice_to xs i = Inr ys \<longleftrightarrow> 0 \<le> i \<and> i \<le> slen xs \<and> ys = take (nat i) xs"
  by (auto simp: slice_to_def)

lemma slice_from_eq_Inr: "slice_from xs i = Inr ys \<longleftrightarrow> 0 \<le> i \<and> i \<le> slen xs \<and> ys = drop (nat i) xs"
  by (auto simp: slice_from_def)

lemmas go_inrs = go_bind_eq_Inr idx_eq_Inr set_idx_eq_Inr slice_to_eq_Inr slice_from_eq_Inr

section \<open>Reachable states\<close>

text \<open>
  A component that runs concurrently is a set of start states and a labelled step
  function or relation; \<open>reachable\<close> is the least set of states closed under its steps.
\<close>

inductive reachable :: "('s \<Rightarrow> bool) \<Rightarrow> ('s \<Rightarrow> 'l \<Rightarrow> 's \<Rightarrow> bool) \<Rightarrow> 's \<Rightarrow> bool"
  for init and step where
  reachable_init: "init s \<Longrightarrow> reachable init step s"
| reachable_step: "reachable init step s \<Longrightarrow> step s l t \<Longrightarrow> reachable init step t"

lemma reachable_invariant [consumes 1, case_names init step]:
  assumes "reachable init step s"
    and "\<And>s. init s \<Longrightarrow> I s"
    and "\<And>s l t. reachable init step s \<Longrightarrow> I s \<Longrightarrow> step s l t \<Longrightarrow> I t"
  shows "I s"
  using assms(1) by (induction rule: reachable.induct) (auto intro: assms(2,3))

section \<open>Lists\<close>

lemma filter_upd_length:
  assumes "i < length xs" "P (xs ! i)" "\<not> P v"
  shows "length (filter P xs) = Suc (length (filter P (xs[i := v])))"
  using assms by (induction xs arbitrary: i) (auto split: nat.splits)

lemma filter_upd_same:
  assumes "i < length xs" "P (xs ! i) \<longleftrightarrow> P v"
  shows "length (filter P (xs[i := v])) = length (filter P xs)"
  using assms by (induction xs arbitrary: i) (auto split: nat.splits)

lemma ball_set_upd: "\<forall>x\<in>set xs. P x \<Longrightarrow> P v \<Longrightarrow> x \<in> set (xs[i := v]) \<Longrightarrow> P x"
  using set_update_subset_insert [of xs i v] by auto

lemma take_take_eq: "take n xs = take n ys \<Longrightarrow> m \<le> n \<Longrightarrow> take m xs = take m ys"
  by (metis min.absorb1 take_take)

lemma nth_eq_of_take_eq: "take n xs = take n ys \<Longrightarrow> k < n \<Longrightarrow> k < length xs \<Longrightarrow> xs ! k = ys ! k"
  by (metis nth_take)

lemma map_upt_nth: "map (\<lambda>i. g (xs ! i)) [0..<length xs] = map g xs"
  by (rule nth_equalityI) auto

text \<open>A list without its element at a position.\<close>

definition dropNth :: "nat \<Rightarrow> 'a list \<Rightarrow> 'a list" where
  "dropNth k xs = take k xs @ drop (Suc k) xs"

lemma set_dropNth: "k < length xs \<Longrightarrow> set xs \<subseteq> insert (xs ! k) (set (dropNth k xs))" "set (dropNth k xs) \<subseteq> set xs"
proof -
  show "set (dropNth k xs) \<subseteq> set xs" using set_take_subset set_drop_subset by (fastforce simp: dropNth_def)
  assume "k < length xs"
  then have "set xs = set (take k xs @ xs ! k # drop (Suc k) xs)" by (simp add: id_take_nth_drop [symmetric])
  then show "set xs \<subseteq> insert (xs ! k) (set (dropNth k xs))" by (auto simp: dropNth_def)
qed

section \<open>Steps of a system\<close>

text \<open>What a step of a system of processes can do: it is not possible now, it panics, or it leads to a state.\<close>

datatype 's outcome = Disabled | Panicked go_error | Next 's

definition out_bind :: "'a go \<Rightarrow> ('a \<Rightarrow> 's outcome) \<Rightarrow> 's outcome" where
  "out_bind m f = (case m of Inl e \<Rightarrow> Panicked e | Inr x \<Rightarrow> f x)"

lemma out_bind_simps [simp]:
  "out_bind (Inl e) f = Panicked e"
  "out_bind (Inr x) f = f x"
  by (simp_all add: out_bind_def)

lemma out_bind_eq_Next: "out_bind m f = Next t \<longleftrightarrow> (\<exists>x. m = Inr x \<and> f x = Next t)"
  by (cases m) auto

lemma out_bind_eq_Panicked: "out_bind m f = Panicked e \<longleftrightarrow> m = Inl e \<or> (\<exists>x. m = Inr x \<and> f x = Panicked e)"
  by (cases m) auto

end
