(* ===== verification/Persister.thy ===== *)
theory Persister
  imports Prelude
begin

text \<open>
  \<open>src/raft/persister.go\<close>: the object that keeps a Raft peer's persistent state across a
  crash. The mutex makes every method atomic, so each method is one function on the record.
  Bytes are kept as lists of an arbitrary element type; a nil slice and an empty slice have
  the same length and the same contents, and the code only looks at those.

  The interface Raft relies on is the locale \<open>stable_storage\<close>; the record implements it.
\<close>

section \<open>The Persister\<close>

record 'b Persister =
  raftstate :: "'b list"
  snapshot :: "'b list"

definition MakePersister :: "'b Persister" where
  "MakePersister = \<lparr>raftstate = [], snapshot = []\<rparr>"

text \<open>\<open>make\<close> a zeroed slice of the same length, then \<open>copy\<close> into it.\<close>

fun copy_into :: "'b list \<Rightarrow> 'b list \<Rightarrow> 'b list" where
  "copy_into (x # xs) (y # ys) = y # copy_into xs ys"
| "copy_into xs ys = xs"

definition clone :: "'b \<Rightarrow> 'b list \<Rightarrow> 'b list" where
  "clone zero orig = copy_into (replicate (length orig) zero) orig"

definition CopyPersister :: "'b Persister \<Rightarrow> 'b Persister" where
  "CopyPersister ps = MakePersister\<lparr>raftstate := raftstate ps, snapshot := snapshot ps\<rparr>"

definition SaveRaftState :: "'b \<Rightarrow> 'b Persister \<Rightarrow> 'b list \<Rightarrow> 'b Persister" where
  "SaveRaftState zero ps st = ps\<lparr>raftstate := clone zero st\<rparr>"

definition ReadRaftState :: "'b \<Rightarrow> 'b Persister \<Rightarrow> 'b list" where
  "ReadRaftState zero ps = clone zero (raftstate ps)"

definition RaftStateSize :: "'b Persister \<Rightarrow> int" where
  "RaftStateSize ps = slen (raftstate ps)"

definition SaveStateAndSnapshot :: "'b \<Rightarrow> 'b Persister \<Rightarrow> 'b list \<Rightarrow> 'b list \<Rightarrow> 'b Persister" where
  "SaveStateAndSnapshot zero ps st snap =
     ps\<lparr>raftstate := clone zero st, snapshot := clone zero snap\<rparr>"

definition ReadSnapshot :: "'b \<Rightarrow> 'b Persister \<Rightarrow> 'b list" where
  "ReadSnapshot zero ps = clone zero (snapshot ps)"

definition SnapshotSize :: "'b Persister \<Rightarrow> int" where
  "SnapshotSize ps = slen (snapshot ps)"

section \<open>Cloning\<close>

lemma copy_into_same_length: "length xs = length ys \<Longrightarrow> copy_into xs ys = ys"
  by (induction xs ys rule: copy_into.induct) auto

lemma clone_id [simp]: "clone zero xs = xs"
  by (simp add: clone_def copy_into_same_length)

lemmas persister_defs =
  MakePersister_def CopyPersister_def SaveRaftState_def ReadRaftState_def RaftStateSize_def
  SaveStateAndSnapshot_def ReadSnapshot_def SnapshotSize_def

section \<open>The interface\<close>

text \<open>
  Stable storage: a read returns what was last saved, nothing before the first save, and a
  copy of the storage is as good as the original.
\<close>

locale stable_storage =
  fixes fresh :: 'p
    and save :: "'p \<Rightarrow> 'b list \<Rightarrow> 'p"
    and read :: "'p \<Rightarrow> 'b list"
    and copy :: "'p \<Rightarrow> 'p"
  assumes read_fresh: "read fresh = []"
    and read_save: "read (save p bs) = bs"
    and read_copy: "read (copy p) = read p"
begin

lemma read_last_save: "read (foldl save p (bss @ [bs])) = bs"
  by (simp add: read_save)

lemma read_copies: "read ((copy ^^ n) p) = read p"
  by (induction n) (simp_all add: read_copy)

end

interpretation raft_storage: stable_storage MakePersister "SaveRaftState zero" "ReadRaftState zero" CopyPersister
  for zero
  by unfold_locales (simp_all add: persister_defs)

text \<open>Saving the Raft state leaves the snapshot alone; saving both is one atomic update.\<close>

lemma SaveRaftState_snapshot: "ReadSnapshot zero (SaveRaftState zero ps bs) = ReadSnapshot zero ps"
  by (simp add: persister_defs)

end
