(* ===== verification/Raft_Node.thy ===== *)
theory Raft_Node
  imports Persister
begin

text \<open>
  \<open>src/raft/raft.go\<close>: one Raft peer. The record \<open>raft\<close> is the struct \<open>Raft\<close>; every method
  that runs under \<open>rf.mu\<close> is one function on it. A goroutine that waits for an RPC
  (\<open>sendRequestVote\<close>, \<open>sendAppendEntries\<close>) is split at the \<open>Call\<close>: the spawning method
  returns the calls it starts, and the function here is what runs after the \<open>Call\<close> returned,
  with \<open>None\<close> for a call that failed.

  Go's \<open>int\<close> is \<open>int\<close>: terms, indices and counters start at 0 and each step adds one, so the
  64-bit range is not left in practice. A \<open>Command\<close> of type \<open>interface{}\<close> is an \<open>option\<close>, \<open>None\<close>
  for nil. \<open>peers\<close> is the length of the slice of end points. The channel \<open>applyCh\<close> is the list of
  the messages sent on it so far. The two signal channels of the ticker carry no data; the
  cluster model accounts for the blocking sends on them.
\<close>

section \<open>Data\<close>

datatype State = Leader | Follower | Candidate

record 'c LogEntry =
  Term :: int
  Command :: "'c option"

record 'c ApplyMsg =
  CommandValid :: bool
  msgCommand :: "'c option"
  CommandIndex :: int

text \<open>
  What the encoder writes: \<open>labgob\<close> hands every value to \<open>encoding/gob\<close>, whose stream is a
  sequence of self-delimiting values. The persisted bytes are kept as that sequence.
\<close>

datatype 'c gobval = GobLog "'c LogEntry list" | GobInt int

record 'c raft =
  peers :: nat
  persister :: "'c gobval Persister"
  me :: int
  dead :: int
  state :: State
  votes :: int
  currentTerm :: int
  votedFor :: int
  log :: "'c LogEntry list"
  commitIndex :: int
  lastApplied :: int
  nextIndex :: "int list"
  matchIndex :: "int list"
  applyCh :: "'c ApplyMsg list"

record RequestVoteArgs =
  rv_Term :: int
  rv_CandidateId :: int
  rv_LastLogIndex :: int
  rv_LastLogTerm :: int

record RequestVoteReply =
  rvr_Term :: int
  rvr_VoteGranted :: bool

record 'c AppendEntriesArgs =
  ae_Term :: int
  ae_LeaderId :: int
  ae_PrevLogIndex :: int
  ae_PrevLogTerm :: int
  ae_Entries :: "'c LogEntry list"
  ae_LeaderCommit :: int

record AppendEntriesReply =
  aer_Term :: int
  aer_Success :: bool

text \<open>The zero values that \<open>RequestVoteReply{}\<close>, \<open>AppendEntriesArgs{}\<close> and so on denote.\<close>

definition zeroRequestVoteReply :: RequestVoteReply where
  "zeroRequestVoteReply = \<lparr>rvr_Term = 0, rvr_VoteGranted = False\<rparr>"

definition zeroAppendEntriesReply :: AppendEntriesReply where
  "zeroAppendEntriesReply = \<lparr>aer_Term = 0, aer_Success = False\<rparr>"

definition zeroAppendEntriesArgs :: "'c AppendEntriesArgs" where
  "zeroAppendEntriesArgs = \<lparr>ae_Term = 0, ae_LeaderId = 0, ae_PrevLogIndex = 0,
     ae_PrevLogTerm = 0, ae_Entries = [], ae_LeaderCommit = 0\<rparr>"

section \<open>Operations\<close>

subsection \<open>State, persistence, Start, Kill\<close>

definition GetState :: "'c raft \<Rightarrow> int \<times> bool" where
  "GetState rf = (currentTerm rf, state rf = Leader)"

definition persist :: "'c raft \<Rightarrow> 'c raft" where
  "persist rf = (let data = [GobLog (log rf), GobInt (currentTerm rf), GobInt (votedFor rf)]
     in rf\<lparr>persister := SaveRaftState (GobInt 0) (persister rf) data\<rparr>)"

text \<open>The decoder reads the next value and fails when it has another type or is missing.\<close>

definition decodeLog :: "'c gobval list \<Rightarrow> ('c LogEntry list \<times> 'c gobval list) option" where
  "decodeLog bs = (case bs of GobLog es # rest \<Rightarrow> Some (es, rest) | _ \<Rightarrow> None)"

definition decodeInt :: "'c gobval list \<Rightarrow> (int \<times> 'c gobval list) option" where
  "decodeInt bs = (case bs of GobInt i # rest \<Rightarrow> Some (i, rest) | _ \<Rightarrow> None)"

definition readPersist :: "'c raft \<Rightarrow> 'c gobval list \<Rightarrow> 'c raft go" where
  "readPersist rf data =
     (if slen data < 1 then Inr rf
      else case decodeLog data of
        None \<Rightarrow> Inl (Panic ''error reading persisted state'')
      | Some (es, r1) \<Rightarrow>
          (case decodeInt r1 of
            None \<Rightarrow> Inl (Panic ''error reading persisted state'')
          | Some (t, r2) \<Rightarrow>
              (case decodeInt r2 of
                None \<Rightarrow> Inl (Panic ''error reading persisted state'')
              | Some (v, _) \<Rightarrow> Inr (rf\<lparr>log := es, currentTerm := t, votedFor := v\<rparr>))))"

definition Start :: "'c raft \<Rightarrow> 'c option \<Rightarrow> ('c raft \<times> int \<times> int \<times> bool) go" where
  "Start rf command =
     (let term = currentTerm rf in
      if state rf \<noteq> Leader then Inr (rf, -1, term, False)
      else
        let rf1 = rf\<lparr>log := log rf @ [\<lparr>Term = term, Command = command\<rparr>]\<rparr>;
            index = slen (log rf1) - 1
        in go_bind (set_idx (matchIndex rf1) (me rf1) index) (\<lambda>mi.
           go_bind (set_idx (nextIndex rf1) (me rf1) (index + 1)) (\<lambda>ni.
           Inr (rf1\<lparr>matchIndex := mi, nextIndex := ni\<rparr>, index, term, True))))"

definition Kill :: "'c raft \<Rightarrow> 'c raft" where
  "Kill rf = rf\<lparr>dead := 1\<rparr>"

definition killed :: "'c raft \<Rightarrow> bool" where
  "killed rf \<longleftrightarrow> dead rf = 1"

subsection \<open>Elections\<close>

text \<open>\<open>range rf.peers\<close> without \<open>rf.me\<close>: the peers a broadcast goes to, in order.\<close>

definition others :: "'c raft \<Rightarrow> nat list" where
  "others rf = filter (\<lambda>peer. int peer \<noteq> me rf) [0..<peers rf]"

definition becomeCandidate :: "'c raft \<Rightarrow> ('c raft \<times> (nat \<times> RequestVoteArgs) list) go" where
  "becomeCandidate rf =
     (let rf1 = rf\<lparr>state := Candidate, currentTerm := currentTerm rf + 1,
                   votedFor := me rf, votes := 1\<rparr>
      in go_bind (idx (log rf1) (slen (log rf1) - 1)) (\<lambda>lastEntry.
         let args = \<lparr>rv_Term = currentTerm rf1, rv_CandidateId = me rf1,
                     rv_LastLogIndex = slen (log rf1) - 1, rv_LastLogTerm = Term lastEntry\<rparr>
         in Inr (rf1, map (\<lambda>peer. (peer, args)) (others rf1))))"

definition candidateUpToDate :: "RequestVoteArgs \<Rightarrow> int \<Rightarrow> int \<Rightarrow> bool" where
  "candidateUpToDate args lastIndex lastTerm =
     (if rv_LastLogTerm args = lastTerm then rv_LastLogIndex args \<ge> lastIndex
      else rv_LastLogTerm args > lastTerm)"

definition RequestVote :: "'c raft \<Rightarrow> RequestVoteArgs \<Rightarrow> ('c raft \<times> RequestVoteReply) go" where
  "RequestVote rf args =
     (if rv_Term args < currentTerm rf
      then Inr (rf, zeroRequestVoteReply\<lparr>rvr_Term := currentTerm rf, rvr_VoteGranted := False\<rparr>)
      else
        let rf1 = (if rv_Term args > currentTerm rf
                   then rf\<lparr>state := Follower, currentTerm := rv_Term args, votedFor := -1\<rparr>
                   else rf);
            lastIndex = slen (log rf1) - 1
        in go_bind (idx (log rf1) lastIndex) (\<lambda>lastEntry.
           if (votedFor rf1 = -1 \<or> votedFor rf1 = rv_CandidateId args)
              \<and> candidateUpToDate args lastIndex (Term lastEntry)
           then Inr (rf1\<lparr>votedFor := rv_CandidateId args\<rparr>,
                     zeroRequestVoteReply\<lparr>rvr_VoteGranted := True\<rparr>)
           else Inr (rf1, zeroRequestVoteReply)))"

text \<open>
  \<open>sendRequestVote\<close> after its \<open>Call\<close>. The second component of the result are the
  \<open>AppendEntries\<close> calls a new leader starts at once, with an empty argument.
\<close>

definition sendRequestVote ::
    "'c raft \<Rightarrow> RequestVoteReply option \<Rightarrow> 'c raft \<times> (nat \<times> 'c AppendEntriesArgs) list" where
  "sendRequestVote rf res =
     (case res of None \<Rightarrow> (rf, [])
      | Some reply \<Rightarrow>
        (if rvr_Term reply > currentTerm rf
         then (rf\<lparr>currentTerm := rvr_Term reply, state := Follower, votedFor := -1\<rparr>, [])
         else if rvr_VoteGranted reply
         then
           let rf1 = rf\<lparr>votes := votes rf + 1\<rparr> in
           (if votes rf1 > int (peers rf1) div 2 \<and> state rf1 = Candidate
            then (rf1\<lparr>state := Leader,
                      nextIndex := replicate (peers rf1) (slen (log rf1)),
                      matchIndex := replicate (peers rf1) 0\<rparr>,
                  map (\<lambda>peer. (peer, zeroAppendEntriesArgs)) (others rf1))
            else (rf1, []))
         else (rf, [])))"

subsection \<open>Log replication\<close>

text \<open>The loop that sends \<open>ApplyMsg\<close>s for the entries from \<open>startIndex\<close> to \<open>commitIndex\<close>.\<close>

function applyLoop :: "int \<Rightarrow> 'c raft \<Rightarrow> 'c raft go" where
  "applyLoop startIndex rf =
     (if startIndex \<le> commitIndex rf
      then go_bind (idx (log rf) startIndex) (\<lambda>e.
             applyLoop (startIndex + 1)
               (rf\<lparr>applyCh := applyCh rf @ [\<lparr>CommandValid = True, msgCommand = Command e,
                                            CommandIndex = startIndex\<rparr>],
                   lastApplied := startIndex\<rparr>))
      else Inr rf)"
  by pat_completeness auto
termination
  by (relation "measure (\<lambda>(i, rf). nat (commitIndex rf + 1 - i))") auto

declare applyLoop.simps [simp del]

definition AppendEntries ::
    "'c raft \<Rightarrow> 'c AppendEntriesArgs \<Rightarrow> ('c raft \<times> AppendEntriesReply) go" where
  "AppendEntries rf args =
     (if ae_Term args < currentTerm rf
      then Inr (rf, \<lparr>aer_Term = currentTerm rf, aer_Success = False\<rparr>)
      else
        let rf1 = (if ae_Term args > currentTerm rf
                   then rf\<lparr>currentTerm := ae_Term args, state := Follower, votedFor := -1\<rparr>
                   else rf);
            reply = \<lparr>aer_Term = currentTerm rf1, aer_Success = False\<rparr>
        in if ae_PrevLogIndex args \<ge> slen (log rf1) then Inr (rf1, reply)
        else go_bind (idx (log rf1) (ae_PrevLogIndex args)) (\<lambda>prev.
          if ae_PrevLogTerm args \<noteq> Term prev
          then go_bind (slice_to (log rf1) (ae_PrevLogIndex args)) (\<lambda>l.
                 Inr (rf1\<lparr>log := l\<rparr>, reply))
          else go_bind (slice_to (log rf1) (ae_PrevLogIndex args + 1)) (\<lambda>l.
            let rf2 = rf1\<lparr>log := l @ ae_Entries args\<rparr>;
                reply2 = reply\<lparr>aer_Success := True\<rparr>
            in if ae_LeaderCommit args > commitIndex rf2
               then let rf3 = rf2\<lparr>commitIndex :=
                                (if ae_LeaderCommit args > slen (log rf2) - 1
                                 then slen (log rf2) - 1 else ae_LeaderCommit args)\<rparr>
                    in go_bind (applyLoop (lastApplied rf3 + 1) rf3) (\<lambda>rf4. Inr (rf4, reply2))
               else Inr (rf2, reply2))))"

text \<open>
  The loop over \<open>N\<close> that looks for the highest index replicated on a majority. It counts the
  peers whose \<open>matchIndex\<close> reaches \<open>N\<close>, but only where the entry is of the current term.
\<close>

definition countMatches :: "int list \<Rightarrow> int \<Rightarrow> int" where
  "countMatches mi N = slen (filter (\<lambda>i. i \<ge> N) mi)"

function commitLoop :: "int \<Rightarrow> 'c raft \<Rightarrow> 'c raft go" where
  "commitLoop N rf =
     (if N \<ge> commitIndex rf
      then go_bind (idx (log rf) N) (\<lambda>e.
             let count = (if Term e = currentTerm rf then countMatches (matchIndex rf) N else 0)
             in if count > int (peers rf) div 2 \<and> state rf = Leader
                then applyLoop (lastApplied rf + 1) (rf\<lparr>commitIndex := N\<rparr>)
                else commitLoop (N - 1) rf)
      else Inr rf)"
  by pat_completeness auto
termination
  by (relation "measure (\<lambda>(N, rf). nat (N + 1 - commitIndex rf))") auto

declare commitLoop.simps [simp del]

definition sendAppendEntries ::
    "'c raft \<Rightarrow> int \<Rightarrow> 'c AppendEntriesArgs \<Rightarrow> AppendEntriesReply option \<Rightarrow> 'c raft go" where
  "sendAppendEntries rf server args res =
     (case res of None \<Rightarrow> Inr rf
      | Some reply \<Rightarrow>
        (if state rf \<noteq> Leader then Inr rf
         else if aer_Term reply > currentTerm rf
         then Inr (rf\<lparr>currentTerm := aer_Term reply, state := Follower, votedFor := -1\<rparr>)
         else go_bind (idx (nextIndex rf) server) (\<lambda>ni.
           if \<not> aer_Success reply \<and> ni > 1
           then go_bind (set_idx (nextIndex rf) server (ni div 2)) (\<lambda>nis.
                  Inr (rf\<lparr>nextIndex := nis\<rparr>))
           else go_bind
             (if aer_Success reply
              then go_bind (set_idx (matchIndex rf) server (slen (ae_Entries args) + ae_PrevLogIndex args)) (\<lambda>mis.
                   go_bind (idx mis server) (\<lambda>m.
                   go_bind (set_idx (nextIndex rf) server (m + 1)) (\<lambda>nis.
                     Inr (rf\<lparr>matchIndex := mis, nextIndex := nis\<rparr>))))
              else Inr rf)
             (\<lambda>rf1. commitLoop (slen (log rf1) - 1) rf1))))"

definition heartBeatArgs :: "'c raft \<Rightarrow> nat \<Rightarrow> 'c AppendEntriesArgs go" where
  "heartBeatArgs rf peer =
     go_bind (idx (nextIndex rf) (int peer)) (\<lambda>ni.
     let args = \<lparr>ae_Term = currentTerm rf, ae_LeaderId = me rf, ae_PrevLogIndex = ni - 1,
                 ae_PrevLogTerm = 0, ae_Entries = [], ae_LeaderCommit = commitIndex rf\<rparr>
     in if ni < slen (log rf)
        then go_bind (idx (log rf) (ni - 1)) (\<lambda>e.
             go_bind (slice_from (log rf) ni) (\<lambda>es.
             Inr (args\<lparr>ae_PrevLogTerm := Term e, ae_Entries := es\<rparr>)))
        else go_bind (idx (log rf) (slen (log rf) - 1)) (\<lambda>e.
             Inr (args\<lparr>ae_PrevLogTerm := Term e, ae_Entries := []\<rparr>)))"

fun heartBeats :: "'c raft \<Rightarrow> nat list \<Rightarrow> (nat \<times> 'c AppendEntriesArgs) list go" where
  "heartBeats rf [] = Inr []"
| "heartBeats rf (peer # ps) =
     go_bind (heartBeatArgs rf peer) (\<lambda>args.
     go_bind (heartBeats rf ps) (\<lambda>rest. Inr ((peer, args) # rest)))"

definition sendHeartBeats :: "'c raft \<Rightarrow> (nat \<times> 'c AppendEntriesArgs) list go" where
  "sendHeartBeats rf = (if state rf \<noteq> Leader then Inr [] else heartBeats rf (others rf))"

subsection \<open>Make\<close>

definition Make :: "nat \<Rightarrow> int \<Rightarrow> 'c gobval Persister \<Rightarrow> 'c raft go" where
  "Make n self ps =
     readPersist
       \<lparr>peers = n, persister = ps, me = self, dead = 0, state = Follower, votes = 0,
        currentTerm = 0, votedFor = -1, log = [\<lparr>Term = 0, Command = None\<rparr>],
        commitIndex = 0, lastApplied = 0, nextIndex = [], matchIndex = [], applyCh = []\<rparr>
       (ReadRaftState (GobInt 0) ps)"

end
