(* ===== verification/Raft_Node_Props.thy ===== *)
theory Raft_Node_Props
  imports Raft_Node
begin

text \<open>
  Properties of one Raft peer: what each handler returns on every branch, the
  well-formedness invariant that keeps the handlers from panicking, and the facts on terms
  and votes that the cluster proofs build on.
\<close>

section \<open>The two loops\<close>

abbreviation entryMsg :: "'c LogEntry list \<Rightarrow> int \<Rightarrow> 'c ApplyMsg" where
  "entryMsg l i \<equiv> \<lparr>CommandValid = True, msgCommand = Command (l ! nat i), CommandIndex = i\<rparr>"

lemma applyLoop_result:
  assumes "0 \<le> i" "commitIndex rf < slen (log rf)"
  shows "applyLoop i rf = Inr (if i \<le> commitIndex rf
      then rf\<lparr>applyCh := applyCh rf @ map (entryMsg (log rf)) [i..commitIndex rf],
              lastApplied := commitIndex rf\<rparr>
      else rf)"
  using assms
proof (induction i rf rule: applyLoop.induct)
  case (1 i rf)
  show ?case
  proof (cases "i \<le> commitIndex rf")
    case True
    let ?rf = "rf\<lparr>applyCh := applyCh rf @ [entryMsg (log rf) i], lastApplied := i\<rparr>"
    have "idx (log rf) i = Inr (log rf ! nat i)"
      using True 1(2,3) by (simp add: go_simps)
    moreover from True 1(2,3) have "applyLoop (i + 1) ?rf = Inr (if i + 1 \<le> commitIndex ?rf
      then ?rf\<lparr>applyCh := applyCh ?rf @ map (entryMsg (log ?rf)) [i + 1..commitIndex ?rf],
              lastApplied := commitIndex ?rf\<rparr> else ?rf)"
      by (intro 1(1)) (auto simp: go_simps)
    ultimately show ?thesis
      using True by (auto simp: applyLoop.simps [of i rf] upto_rec1 [of i])
  next
    case False
    then show ?thesis by (simp add: applyLoop.simps [of i rf])
  qed
qed

text \<open>A leader may commit index \<open>N\<close>: an entry of its own term on a majority of the peers.\<close>

definition committable :: "'c raft \<Rightarrow> int \<Rightarrow> bool" where
  "committable rf N \<longleftrightarrow> Term (log rf ! nat N) = currentTerm rf
     \<and> countMatches (matchIndex rf) N > int (peers rf) div 2 \<and> state rf = Leader"

lemma commitLoop_none:
  assumes "0 \<le> commitIndex rf" "N < slen (log rf)"
    and "\<And>k. commitIndex rf \<le> k \<Longrightarrow> k \<le> N \<Longrightarrow> \<not> committable rf k"
  shows "commitLoop N rf = Inr rf"
  using assms
proof (induction N rf rule: commitLoop.induct)
  case (1 N rf)
  show ?case
  proof (cases "N \<ge> commitIndex rf")
    case True
    with 1(2-4) have "\<not> committable rf N" and i: "idx (log rf) N = Inr (log rf ! nat N)"
      by (auto simp: go_simps)
    moreover have "commitLoop (N - 1) rf = Inr rf"
      using True i 1(2-4) \<open>\<not> committable rf N\<close>
      by (intro 1(1) [OF True i refl]) (auto simp: committable_def)
    moreover have "\<not> 0 > int (peers rf) div 2" by simp
    ultimately show ?thesis
      using True by (auto simp: commitLoop.simps [of N rf] committable_def)
  next
    case False
    then show ?thesis by (simp add: commitLoop.simps [of N rf])
  qed
qed

lemma commitLoop_some:
  assumes "0 \<le> commitIndex rf" "N < slen (log rf)" "commitIndex rf \<le> m" "m \<le> N"
    and "committable rf m"
    and "\<And>k. m < k \<Longrightarrow> k \<le> N \<Longrightarrow> \<not> committable rf k"
  shows "commitLoop N rf = applyLoop (lastApplied rf + 1) (rf\<lparr>commitIndex := m\<rparr>)"
  using assms
proof (induction N rf rule: commitLoop.induct)
  case (1 N rf)
  have ge: "N \<ge> commitIndex rf" and i: "idx (log rf) N = Inr (log rf ! nat N)"
    using 1(2-5) by (auto simp: go_simps)
  show ?case
  proof (cases "m = N")
    case True
    with 1(6) i ge show ?thesis
      by (simp add: commitLoop.simps [of N rf] committable_def)
  next
    case False
    with 1(5,7) have nc: "\<not> committable rf N" by auto
    moreover have "commitLoop (N - 1) rf = applyLoop (lastApplied rf + 1) (rf\<lparr>commitIndex := m\<rparr>)"
      using ge i 1(2-7) nc False
      by (intro 1(1) [OF ge i refl]) (auto simp: committable_def)
    moreover have "\<not> 0 > int (peers rf) div 2" by simp
    ultimately show ?thesis
      using ge i by (auto simp: commitLoop.simps [of N rf] committable_def)
  qed
qed

section \<open>Well-formed peers and messages\<close>

text \<open>
  A log starts with the placeholder of term 0, its terms never decrease and none is above the
  peer's current term.
\<close>

definition wf_log :: "int \<Rightarrow> 'c LogEntry list \<Rightarrow> bool" where
  "wf_log t l \<longleftrightarrow> l \<noteq> [] \<and> Term (l ! 0) = 0 \<and> sorted (map Term l) \<and> (\<forall>e\<in>set l. Term e \<le> t)"

definition wf_saved :: "'c gobval list \<Rightarrow> bool" where
  "wf_saved bs \<longleftrightarrow> bs = [] \<or> (\<exists>l t v. bs = [GobLog l, GobInt t, GobInt v] \<and> wf_log t l)"

definition wf_leader :: "'c raft \<Rightarrow> bool" where
  "wf_leader rf \<longleftrightarrow> length (nextIndex rf) = peers rf \<and> length (matchIndex rf) = peers rf
     \<and> (\<forall>x\<in>set (nextIndex rf). 1 \<le> x)"

definition wf_raft :: "'c raft \<Rightarrow> bool" where
  "wf_raft rf \<longleftrightarrow> wf_log (currentTerm rf) (log rf) \<and> 0 \<le> me rf \<and> me rf < int (peers rf)
     \<and> 0 \<le> commitIndex rf \<and> 0 \<le> lastApplied rf \<and> (state rf = Leader \<longrightarrow> wf_leader rf)
     \<and> map CommandIndex (applyCh rf) = [1..lastApplied rf]
     \<and> wf_saved (raftstate (persister rf))"

definition wf_ae :: "'c AppendEntriesArgs \<Rightarrow> bool" where
  "wf_ae args \<longleftrightarrow> 0 \<le> ae_PrevLogIndex args \<and> (ae_PrevLogIndex args = 0 \<longrightarrow> ae_PrevLogTerm args = 0)
     \<and> sorted (ae_PrevLogTerm args # map Term (ae_Entries args))
     \<and> (\<forall>e\<in>set (ae_Entries args). Term e \<le> ae_Term args)"

lemma wf_log_mono: "wf_log t l \<Longrightarrow> t \<le> t' \<Longrightarrow> wf_log t' l"
  by (force simp: wf_log_def)

lemma wf_log_term_nonneg: "wf_log t l \<Longrightarrow> 0 \<le> t"
  by (force simp: wf_log_def neq_Nil_conv)

lemma wf_log_init [simp]: "0 \<le> t \<Longrightarrow> wf_log t [\<lparr>Term = 0, Command = None\<rparr>]"
  by (simp add: wf_log_def)

lemma wf_log_snoc: "wf_log t l \<Longrightarrow> Term e = t \<Longrightarrow> wf_log t (l @ [e])"
  by (auto simp: wf_log_def nth_append sorted_append)

lemma wf_log_take:
  assumes "wf_log t l" "0 < n" shows "wf_log t (take n l)"
proof -
  have "sorted (map Term (take n l))"
    using assms by (simp add: wf_log_def sorted_wrt_take flip: take_map)
  with assms show ?thesis by (auto simp: wf_log_def dest: in_set_takeD)
qed

lemma wf_log_splice:
  assumes "wf_log t l" "p < length l"
    and "sorted (Term (l ! p) # map Term es)" "\<forall>e\<in>set es. Term e \<le> t"
  shows "wf_log t (take (Suc p) l @ es)"
proof -
  have "Term x \<le> Term (l ! p)" if "x \<in> set (take (Suc p) l)" for x
  proof -
    from that obtain k where "k \<le> p" "x = l ! k"
      by (auto simp: in_set_conv_nth less_Suc_eq_le)
    moreover have "sorted (map Term l)" using assms(1) by (simp add: wf_log_def)
    ultimately show ?thesis
      using sorted_nth_mono [of "map Term l" k p] assms(2) by simp
  qed
  moreover have "wf_log t (take (Suc p) l)" using assms(1) by (rule wf_log_take) simp
  ultimately show ?thesis
    using assms(3,4) by (fastforce simp: wf_log_def sorted_append nth_append)
qed

lemma wf_log_last:
  assumes "wf_log t l" shows "idx l (slen l - 1) = Inr (last l)"
  using assms by (simp add: wf_log_def idx_def last_conv_nth)

lemma wf_raft_idle [simp]:
  "wf_raft rf \<Longrightarrow> currentTerm rf \<le> t \<Longrightarrow> wf_raft (rf\<lparr>currentTerm := t, state := Follower\<rparr>)"
  "wf_raft (rf\<lparr>votedFor := v\<rparr>) = wf_raft rf"
  "wf_raft (rf\<lparr>votes := w\<rparr>) = wf_raft rf"
  "wf_raft (rf\<lparr>dead := d\<rparr>) = wf_raft rf"
  by (auto simp: wf_raft_def wf_leader_def intro: wf_log_mono)

section \<open>Every handler returns and keeps the invariant\<close>

lemma applyLoop_wf:
  assumes "wf_raft rf" "commitIndex rf < slen (log rf)"
  obtains rf' where "applyLoop (lastApplied rf + 1) rf = Inr rf'" "wf_raft rf'"
    "rf' = rf\<lparr>applyCh := applyCh rf', lastApplied := max (lastApplied rf) (commitIndex rf)\<rparr>"
    "applyCh rf' = applyCh rf @ map (entryMsg (log rf)) [lastApplied rf + 1..commitIndex rf]"
proof -
  have *: "[1..lastApplied rf] @ [lastApplied rf + 1..commitIndex rf] = [1..commitIndex rf]"
    if "lastApplied rf + 1 \<le> commitIndex rf"
    using that assms by (subst upto_split1 [of 1 "lastApplied rf + 1"]) (auto simp: wf_raft_def)
  show thesis
  proof (cases "lastApplied rf + 1 \<le> commitIndex rf")
    case True
    let ?rf' = "rf\<lparr>applyCh := applyCh rf @ map (entryMsg (log rf)) [lastApplied rf + 1..commitIndex rf],
                  lastApplied := commitIndex rf\<rparr>"
    have "map CommandIndex (applyCh ?rf') = [1..commitIndex rf]"
      using assms * True by (simp add: wf_raft_def comp_def)
    then have "wf_raft ?rf'" using assms by (simp add: wf_raft_def wf_leader_def)
    moreover have "applyLoop (lastApplied rf + 1) rf = Inr ?rf'"
      using True assms by (subst applyLoop_result) (auto simp: wf_raft_def)
    ultimately show thesis using True by (intro that [of ?rf']) auto
  next
    case False
    then have "applyLoop (lastApplied rf + 1) rf = Inr rf"
      using assms by (subst applyLoop_result) (auto simp: wf_raft_def)
    then show thesis using False assms by (intro that [of rf]) auto
  qed
qed

text \<open>
  What a handler may change of a peer's identity, term and vote. Within one term the vote is
  only ever set from \<open>-1\<close>, and the log of saved state and the identity stay.
\<close>

definition same_id :: "'c raft \<Rightarrow> 'c raft \<Rightarrow> bool" where
  "same_id rf rf' \<longleftrightarrow> peers rf' = peers rf \<and> me rf' = me rf \<and> persister rf' = persister rf \<and> dead rf' = dead rf"

definition vote_step :: "'c raft \<Rightarrow> 'c raft \<Rightarrow> bool" where
  "vote_step rf rf' \<longleftrightarrow> same_id rf rf'
     \<and> (currentTerm rf' = currentTerm rf \<and> (votedFor rf' = votedFor rf \<or> votedFor rf = -1)
        \<or> currentTerm rf < currentTerm rf')"

text \<open>The record a handler continues with when it has seen the term \<open>t\<close> of a message.\<close>

definition adopt :: "int \<Rightarrow> 'c raft \<Rightarrow> 'c raft" where
  "adopt t rf = (if t > currentTerm rf then rf\<lparr>currentTerm := t, state := Follower, votedFor := -1\<rparr> else rf)"

lemma adopt_simps [simp]:
  "currentTerm (adopt t rf) = max t (currentTerm rf)"
  "log (adopt t rf) = log rf" "peers (adopt t rf) = peers rf" "me (adopt t rf) = me rf"
  "persister (adopt t rf) = persister rf" "dead (adopt t rf) = dead rf"
  "votes (adopt t rf) = votes rf" "commitIndex (adopt t rf) = commitIndex rf"
  "lastApplied (adopt t rf) = lastApplied rf" "nextIndex (adopt t rf) = nextIndex rf"
  "matchIndex (adopt t rf) = matchIndex rf" "applyCh (adopt t rf) = applyCh rf"
  "state (adopt t rf) = (if t > currentTerm rf then Follower else state rf)"
  "votedFor (adopt t rf) = (if t > currentTerm rf then -1 else votedFor rf)"
  by (auto simp: adopt_def)

lemma adopt_wf: "wf_raft rf \<Longrightarrow> wf_raft (adopt t rf)"
  by (simp add: adopt_def)

lemma becomeCandidate_result:
  assumes "wf_raft rf"
  shows "becomeCandidate rf = Inr
     (rf\<lparr>state := Candidate, currentTerm := currentTerm rf + 1, votedFor := me rf, votes := 1\<rparr>,
      map (\<lambda>p. (p, \<lparr>rv_Term = currentTerm rf + 1, rv_CandidateId = me rf,
                    rv_LastLogIndex = slen (log rf) - 1, rv_LastLogTerm = Term (last (log rf))\<rparr>)) (others rf))"
  using assms by (auto simp: becomeCandidate_def wf_raft_def wf_log_last others_def Let_def)

lemma becomeCandidate_wf:
  assumes "wf_raft rf"
  shows "wf_raft (rf\<lparr>state := Candidate, currentTerm := currentTerm rf + 1, votedFor := v, votes := 1\<rparr>)"
  using assms by (auto simp: wf_raft_def intro: wf_log_mono)

lemma RequestVote_result:
  assumes "wf_raft rf"
  shows "RequestVote rf args =
    (if rv_Term args < currentTerm rf then Inr (rf, \<lparr>rvr_Term = currentTerm rf, rvr_VoteGranted = False\<rparr>)
     else let rf1 = adopt (rv_Term args) rf;
              grant = (votedFor rf1 = -1 \<or> votedFor rf1 = rv_CandidateId args)
                \<and> candidateUpToDate args (slen (log rf) - 1) (Term (last (log rf)))
          in Inr (if grant then rf1\<lparr>votedFor := rv_CandidateId args\<rparr> else rf1,
                  \<lparr>rvr_Term = 0, rvr_VoteGranted = grant\<rparr>))"
  using assms
  by (auto simp: RequestVote_def adopt_def wf_raft_def wf_log_last zeroRequestVoteReply_def Let_def)

lemma RequestVote_wf:
  assumes "wf_raft rf" "RequestVote rf args = Inr (rf', reply)"
  shows "wf_raft rf'"
  using assms by (auto simp: RequestVote_result Let_def adopt_wf split: if_splits)

lemma sendRequestVote_wf:
  assumes "wf_raft rf" "sendRequestVote rf res = (rf', calls)"
  shows "wf_raft rf'"
proof -
  have "1 \<le> slen (log rf)" using assms(1) by (auto simp: wf_raft_def wf_log_def neq_Nil_conv)
  with assms show ?thesis
    by (auto simp: sendRequestVote_def Let_def split: option.splits if_splits)
       (auto simp: wf_raft_def wf_leader_def intro: wf_log_mono)
qed

text \<open>
  The result of \<open>AppendEntries\<close> with the checks on slice indices resolved: the four outcomes are
  a stale term, a log too short, a conflict that truncates, and success.
\<close>

definition spliced :: "'c raft \<Rightarrow> 'c AppendEntriesArgs \<Rightarrow> 'c LogEntry list" where
  "spliced rf args = take (Suc (nat (ae_PrevLogIndex args))) (log rf) @ ae_Entries args"

lemma AppendEntries_result:
  assumes "0 \<le> ae_PrevLogIndex args" "currentTerm rf \<le> ae_Term args"
  shows "AppendEntries rf args =
     (let rf1 = adopt (ae_Term args) rf; rf2 = rf1\<lparr>log := spliced rf args\<rparr>;
          no = \<lparr>aer_Term = ae_Term args, aer_Success = False\<rparr>;
          yes = \<lparr>aer_Term = ae_Term args, aer_Success = True\<rparr>
      in if ae_PrevLogIndex args \<ge> slen (log rf) then Inr (rf1, no)
      else if ae_PrevLogTerm args \<noteq> Term (log rf ! nat (ae_PrevLogIndex args))
      then Inr (rf1\<lparr>log := take (nat (ae_PrevLogIndex args)) (log rf)\<rparr>, no)
      else if ae_LeaderCommit args > commitIndex rf
      then go_bind (applyLoop (lastApplied rf + 1)
             (rf2\<lparr>commitIndex := min (ae_LeaderCommit args) (slen (spliced rf args) - 1)\<rparr>))
             (\<lambda>rf4. Inr (rf4, yes))
      else Inr (rf2, yes))"
  using assms
  by (auto simp: AppendEntries_def adopt_def Let_def spliced_def go_simps min_def nat_add_distrib)

lemma AppendEntries_stale:
  assumes "ae_Term args < currentTerm rf"
  shows "AppendEntries rf args = Inr (rf, \<lparr>aer_Term = currentTerm rf, aer_Success = False\<rparr>)"
  using assms by (simp add: AppendEntries_def)

lemma wf_log_spliced:
  assumes "wf_log (currentTerm rf) (log rf)" "wf_ae args" "currentTerm rf \<le> ae_Term args"
    and "ae_PrevLogIndex args < slen (log rf)"
    and "ae_PrevLogTerm args = Term (log rf ! nat (ae_PrevLogIndex args))"
  shows "wf_log (ae_Term args) (spliced rf args)"
  unfolding spliced_def using assms
  by (intro wf_log_splice) (auto simp: wf_ae_def slen_def intro: wf_log_mono)

lemma AppendEntries_wf:
  assumes wf: "wf_raft rf" and ae: "wf_ae args"
  obtains rf' reply where "AppendEntries rf args = Inr (rf', reply)" "wf_raft rf'"
proof -
  let ?p = "ae_PrevLogIndex args" and ?rf1 = "adopt (ae_Term args) rf"
  let ?c = "min (ae_LeaderCommit args) (slen (spliced rf args) - 1)"
  have p0: "0 \<le> ?p" using ae by (simp add: wf_ae_def)
  consider "ae_Term args < currentTerm rf"
    | "currentTerm rf \<le> ae_Term args" "?p \<ge> slen (log rf)"
    | "currentTerm rf \<le> ae_Term args" "?p < slen (log rf)" "ae_PrevLogTerm args \<noteq> Term (log rf ! nat ?p)"
    | "currentTerm rf \<le> ae_Term args" "?p < slen (log rf)" "ae_PrevLogTerm args = Term (log rf ! nat ?p)"
    by linarith
  then show thesis
  proof cases
    case 1
    with wf show thesis by (intro that [of rf]) (simp_all add: AppendEntries_stale)
  next
    case 2
    have "wf_raft ?rf1" using wf by (rule adopt_wf)
    with 2 show thesis by (intro that [of ?rf1]) (simp_all add: AppendEntries_result p0 Let_def)
  next
    case 3
    then have "?p \<noteq> 0" using ae wf by (auto simp: wf_ae_def wf_raft_def wf_log_def)
    then have "wf_log (ae_Term args) (take (nat ?p) (log rf))"
      using wf 3(1) p0 by (intro wf_log_take) (auto simp: wf_raft_def intro: wf_log_mono)
    then have "wf_raft (?rf1\<lparr>log := take (nat ?p) (log rf)\<rparr>)"
      using wf 3(1) by (auto simp: wf_raft_def wf_leader_def)
    with 3 show thesis by (intro that) (simp_all add: AppendEntries_result p0 Let_def)
  next
    case 4
    let ?rf2 = "?rf1\<lparr>log := spliced rf args\<rparr>" and ?rf3 = "?rf1\<lparr>log := spliced rf args, commitIndex := ?c\<rparr>"
    have l: "wf_log (ae_Term args) (spliced rf args)"
      using wf ae 4 by (intro wf_log_spliced) (auto simp: wf_raft_def)
    then have "0 \<le> slen (spliced rf args) - 1" by (auto simp: wf_log_def neq_Nil_conv)
    then have 2: "wf_raft ?rf2" and 3: "commitIndex rf < ae_LeaderCommit args \<Longrightarrow> wf_raft ?rf3"
      using wf l 4(1) by (auto simp: wf_raft_def wf_leader_def)
    show thesis
    proof (cases "ae_LeaderCommit args > commitIndex rf")
      case True
      obtain rf4 where "applyLoop (lastApplied ?rf3 + 1) ?rf3 = Inr rf4" "wf_raft rf4"
        by (rule applyLoop_wf [OF 3 [OF True]]) auto
      with 4 True show thesis
        by (intro that [of rf4]) (simp_all add: AppendEntries_result p0 Let_def)
    next
      case False
      with 4 2 show thesis by (intro that) (simp_all add: AppendEntries_result p0 Let_def)
    qed
  qed
qed

lemma commitLoop_cases:
  assumes "0 \<le> commitIndex rf"
  obtains (none) "commitLoop (slen (log rf) - 1) rf = Inr rf"
      "\<And>k. commitIndex rf \<le> k \<Longrightarrow> k < slen (log rf) \<Longrightarrow> \<not> committable rf k"
  | (some) m where "commitIndex rf \<le> m" "m < slen (log rf)" "committable rf m"
      "\<And>k. m < k \<Longrightarrow> k < slen (log rf) \<Longrightarrow> \<not> committable rf k"
      "commitLoop (slen (log rf) - 1) rf = applyLoop (lastApplied rf + 1) (rf\<lparr>commitIndex := m\<rparr>)"
proof -
  let ?S = "{k \<in> {commitIndex rf..slen (log rf) - 1}. committable rf k}"
  have fin: "finite ?S" by (rule finite_subset [of _ "{commitIndex rf..slen (log rf) - 1}"]) auto
  show thesis
  proof (cases "?S = {}")
    case True
    then have "\<not> committable rf k" if "commitIndex rf \<le> k" "k < slen (log rf)" for k
      using that by auto
    then show thesis using assms by (intro none commitLoop_none) auto
  next
    case False
    define m where "m = Max ?S"
    have "m \<in> ?S" unfolding m_def using False fin by (rule Max_in [rotated])
    then have m: "commitIndex rf \<le> m" "m < slen (log rf)" "committable rf m" by auto
    have top: "\<not> committable rf k" if "m < k" "k < slen (log rf)" for k
      using Max_ge [OF fin, of k] that m by (auto simp: m_def)
    have "commitLoop (slen (log rf) - 1) rf = applyLoop (lastApplied rf + 1) (rf\<lparr>commitIndex := m\<rparr>)"
      using assms m top by (intro commitLoop_some) simp_all
    with m top show thesis by (rule some)
  qed
qed

lemma commitLoop_wf:
  assumes "wf_raft rf"
  obtains rf' where "commitLoop (slen (log rf) - 1) rf = Inr rf'" "wf_raft rf'"
proof -
  have "0 \<le> commitIndex rf" using assms by (simp add: wf_raft_def)
  then show thesis
  proof (cases rule: commitLoop_cases)
    case none
    with assms show thesis by (intro that)
  next
    case (some m)
    let ?rf = "rf\<lparr>commitIndex := m\<rparr>"
    have "wf_raft ?rf" "commitIndex ?rf < slen (log ?rf)"
      using assms some by (auto simp: wf_raft_def wf_leader_def)
    then obtain rf' where "applyLoop (lastApplied ?rf + 1) ?rf = Inr rf'" "wf_raft rf'"
      by (rule applyLoop_wf)
    with some show thesis by (intro that) auto
  qed
qed

text \<open>
  \<open>sendAppendEntries\<close> with its index checks resolved.
\<close>

lemma sendAppendEntries_result:
  assumes "wf_raft rf" "0 \<le> server" "server < int (peers rf)"
  shows "sendAppendEntries rf server args (Some reply) =
     (let ni = nextIndex rf ! nat server; m = slen (ae_Entries args) + ae_PrevLogIndex args;
          rf1 = (if aer_Success reply
                 then rf\<lparr>matchIndex := (matchIndex rf)[nat server := m],
                         nextIndex := (nextIndex rf)[nat server := m + 1]\<rparr> else rf)
      in if state rf \<noteq> Leader then Inr rf
         else if aer_Term reply > currentTerm rf then Inr (adopt (aer_Term reply) rf)
         else if \<not> aer_Success reply \<and> ni > 1
         then Inr (rf\<lparr>nextIndex := (nextIndex rf)[nat server := ni div 2]\<rparr>)
         else commitLoop (slen (log rf) - 1) rf1)"
proof (cases "state rf = Leader")
  case True
  with assms have "server < slen (nextIndex rf)" "server < slen (matchIndex rf)"
    "nat server < length (matchIndex rf)"
    by (auto simp: wf_raft_def wf_leader_def slen_def)
  with True assms(2) show ?thesis
    by (auto simp: sendAppendEntries_def adopt_def go_simps Let_def)
next
  case False
  then show ?thesis by (simp add: sendAppendEntries_def)
qed

lemma sendAppendEntries_wf:
  assumes wf: "wf_raft rf" and ae: "wf_ae args" and srv: "0 \<le> server" "server < int (peers rf)"
  obtains rf' where "sendAppendEntries rf server args res = Inr rf'" "wf_raft rf'"
proof (cases res)
  case None
  with wf show thesis by (intro that [of rf]) (simp_all add: sendAppendEntries_def)
next
  case (Some reply)
  let ?ni = "nextIndex rf ! nat server" and ?m = "slen (ae_Entries args) + ae_PrevLogIndex args"
  let ?half = "rf\<lparr>nextIndex := (nextIndex rf)[nat server := ?ni div 2]\<rparr>"
  let ?succ = "rf\<lparr>matchIndex := (matchIndex rf)[nat server := ?m], nextIndex := (nextIndex rf)[nat server := ?m + 1]\<rparr>"
  have wfn: "wf_raft (rf\<lparr>matchIndex := mis, nextIndex := (nextIndex rf)[nat server := v]\<rparr>)"
    if "1 \<le> v" "length mis = length (matchIndex rf)" for v mis
    using wf that by (auto simp: wf_raft_def wf_leader_def elim: ball_set_upd)
  have "0 \<le> ?m" using ae by (simp add: wf_ae_def)
  then have succ: "wf_raft ?succ" by (intro wfn) auto
  have half: "wf_raft ?half" if "?ni > 1" using wfn [of "?ni div 2" "matchIndex rf"] that by simp
  define rf1 where "rf1 = (if aer_Success reply then ?succ else rf)"
  have "wf_raft rf1" "log rf1 = log rf" using wf succ by (simp_all add: rf1_def)
  then obtain rf2 where rf2: "commitLoop (slen (log rf) - 1) rf1 = Inr rf2" "wf_raft rf2"
    using commitLoop_wf [of rf1] by auto
  consider "state rf \<noteq> Leader" | "state rf = Leader" "aer_Term reply > currentTerm rf"
    | "state rf = Leader" "\<not> aer_Term reply > currentTerm rf" "\<not> aer_Success reply \<and> ?ni > 1"
    | "state rf = Leader" "\<not> aer_Term reply > currentTerm rf" "\<not> (\<not> aer_Success reply \<and> ?ni > 1)"
    by blast
  then show thesis
  proof cases
    case 1
    with wf Some show thesis by (intro that [of rf]) (auto simp: sendAppendEntries_result [OF wf srv])
  next
    case 2
    with adopt_wf [OF wf] Some show thesis by (intro that [of "adopt (aer_Term reply) rf"]) (auto simp: sendAppendEntries_result [OF wf srv])
  next
    case 3
    with half Some show thesis by (intro that [of ?half]) (auto simp: sendAppendEntries_result [OF wf srv])
  next
    case 4
    then have "sendAppendEntries rf server args res = commitLoop (slen (log rf) - 1) rf1"
      unfolding Some sendAppendEntries_result [OF wf srv] Let_def rf1_def by auto
    with rf2 show thesis by (intro that [of rf2]) auto
  qed
qed

lemma heartBeatArgs_wf:
  assumes wf: "wf_raft rf" and lead: "state rf = Leader" and peer: "peer < peers rf"
  obtains args where "heartBeatArgs rf peer = Inr args" "wf_ae args" "ae_Term args = currentTerm rf"
    "ae_PrevLogIndex args = nextIndex rf ! peer - 1" "ae_LeaderCommit args = commitIndex rf"
    "nextIndex rf ! peer < slen (log rf) \<Longrightarrow>
       ae_PrevLogTerm args = Term (log rf ! nat (ae_PrevLogIndex args)) \<and>
       ae_Entries args = drop (nat (nextIndex rf ! peer)) (log rf)"
    "nextIndex rf ! peer \<ge> slen (log rf) \<Longrightarrow>
       ae_PrevLogTerm args = Term (last (log rf)) \<and> ae_Entries args = []"
proof -
  let ?ni = "nextIndex rf ! peer" and ?l = "log rf"
  have len: "int peer < slen (nextIndex rf)" and ni: "1 \<le> ?ni"
    using wf lead peer by (auto simp: wf_raft_def wf_leader_def slen_def)
  have l: "wf_log (currentTerm rf) ?l" using wf by (simp add: wf_raft_def)
  let ?args = "\<lparr>ae_Term = currentTerm rf, ae_LeaderId = me rf, ae_PrevLogIndex = ?ni - 1,
     ae_PrevLogTerm = Term (if ?ni < slen ?l then ?l ! nat (?ni - 1) else last ?l),
     ae_Entries = (if ?ni < slen ?l then drop (nat ?ni) ?l else []), ae_LeaderCommit = commitIndex rf\<rparr>"
  have eq: "heartBeatArgs rf peer = Inr ?args"
    using len ni l by (simp add: heartBeatArgs_def go_simps wf_log_last)
  have drop: "sorted (Term (?l ! nat (?ni - 1)) # map Term (drop (nat ?ni) ?l))" if "?ni < slen ?l"
  proof -
    have "drop (nat (?ni - 1)) ?l = ?l ! nat (?ni - 1) # drop (nat ?ni) ?l"
      using that ni by (subst Cons_nth_drop_Suc [symmetric]) (auto simp: slen_def nat_diff_distrib)
    moreover have "sorted (map Term (drop (nat (?ni - 1)) ?l))"
      using l by (simp add: wf_log_def sorted_wrt_drop flip: drop_map)
    ultimately show ?thesis by simp
  qed
  have zero: "Term (last ?l) = 0" if "?ni = 1" "\<not> ?ni < slen ?l"
    using that l by (auto simp: wf_log_def neq_Nil_conv slen_def)
  have "wf_ae ?args"
    using ni drop zero l by (auto simp: wf_ae_def wf_log_def dest: in_set_dropD)
  then show thesis using eq by (intro that [of ?args]) auto
qed

lemma heartBeats_wf:
  assumes "wf_raft rf" "state rf = Leader" "\<forall>p\<in>set ps. p < peers rf"
  obtains calls where "heartBeats rf ps = Inr calls" "map fst calls = ps"
    "\<And>p args. (p, args) \<in> set calls \<Longrightarrow> heartBeatArgs rf p = Inr args"
  using assms(3)
proof (induction ps arbitrary: thesis)
  case Nil
  then show ?case by auto
next
  case (Cons p ps)
  then obtain calls where "heartBeats rf ps = Inr calls" "map fst calls = ps"
      "\<And>p args. (p, args) \<in> set calls \<Longrightarrow> heartBeatArgs rf p = Inr args"
    by auto
  moreover obtain args where "heartBeatArgs rf p = Inr args"
    by (rule heartBeatArgs_wf [OF assms(1,2), of p]) (use Cons.prems in auto)
  ultimately show ?case by (intro Cons.prems(1) [of "(p, args) # calls"]) auto
qed

lemma Start_result:
  assumes wf: "wf_raft rf"
  shows "Start rf c = Inr
     (if state rf \<noteq> Leader then (rf, -1, currentTerm rf, False)
      else (rf\<lparr>log := log rf @ [\<lparr>Term = currentTerm rf, Command = c\<rparr>],
               matchIndex := (matchIndex rf)[nat (me rf) := slen (log rf)],
               nextIndex := (nextIndex rf)[nat (me rf) := slen (log rf) + 1]\<rparr>,
            slen (log rf), currentTerm rf, True))"
  using assms by (auto simp: Start_def wf_raft_def wf_leader_def Let_def slen_def go_simps add.commute)


lemma Start_wf:
  assumes "wf_raft rf" "Start rf c = Inr (rf', r)"
  shows "wf_raft rf'"
proof (cases "state rf = Leader")
  case True
  let ?n = "slen (log rf)"
  have "wf_log (currentTerm rf) (log rf @ [\<lparr>Term = currentTerm rf, Command = c\<rparr>])"
    using assms(1) by (intro wf_log_snoc) (simp_all add: wf_raft_def)
  moreover have "\<forall>x\<in>set ((nextIndex rf)[nat (me rf) := ?n + 1]). 1 \<le> x"
    using assms(1) True
    by (intro ballI, elim ball_set_upd [rotated 2]) (auto simp: wf_raft_def wf_leader_def)
  ultimately show ?thesis
    using assms True by (auto simp: Start_result wf_raft_def wf_leader_def)
next
  case False
  with assms show ?thesis by (simp add: Start_result)
qed

lemma persist_wf: "wf_raft rf \<Longrightarrow> wf_raft (persist rf)"
  by (auto simp: persist_def wf_raft_def wf_leader_def wf_saved_def SaveRaftState_def)

text \<open>A peer that restarts from stable storage gets the saved log, term and vote back.\<close>

lemma Make_persisted:
  assumes "raftstate ps = [GobLog l, GobInt t, GobInt v]"
  shows "Make n self ps = Inr
     \<lparr>peers = n, persister = ps, me = self, dead = 0, state = Follower, votes = 0,
      currentTerm = t, votedFor = v, log = l, commitIndex = 0, lastApplied = 0,
      nextIndex = [], matchIndex = [], applyCh = []\<rparr>"
  using assms by (simp add: Make_def readPersist_def ReadRaftState_def decodeLog_def decodeInt_def)

lemma Make_fresh:
  assumes "raftstate ps = []"
  shows "Make n self ps = Inr
     \<lparr>peers = n, persister = ps, me = self, dead = 0, state = Follower, votes = 0,
      currentTerm = 0, votedFor = -1, log = [\<lparr>Term = 0, Command = None\<rparr>], commitIndex = 0,
      lastApplied = 0, nextIndex = [], matchIndex = [], applyCh = []\<rparr>"
  using assms by (simp add: Make_def readPersist_def ReadRaftState_def)

lemma Make_wf:
  assumes "wf_saved (raftstate ps)" "0 \<le> self" "self < int n"
  shows "\<exists>rf. Make n self ps = Inr rf \<and> wf_raft rf \<and> state rf = Follower
     \<and> peers rf = n \<and> me rf = self \<and> persister rf = ps"
  using assms(1) unfolding wf_saved_def
proof (elim disjE exE conjE)
  assume "raftstate ps = []"
  with assms show ?thesis by (simp add: Make_fresh wf_raft_def)
next
  fix l :: "'a LogEntry list" and t v
  assume "raftstate ps = [GobLog l, GobInt t, GobInt v]" "wf_log t l"
  with assms show ?thesis by (simp add: Make_persisted wf_raft_def)
qed

section \<open>Terms and votes\<close>

text \<open>
  Each handler either keeps the term, with the vote kept or newly cast, or moves to a later term.
  The candidate and leader roles are only entered by \<open>becomeCandidate\<close> and \<open>sendRequestVote\<close>:
  \<open>quiet_step\<close> is what all other handlers do to the fields of an election.
\<close>

definition quiet_step :: "'c raft \<Rightarrow> 'c raft \<Rightarrow> bool" where
  "quiet_step rf rf' \<longleftrightarrow> same_id rf rf'
     \<and> (currentTerm rf' = currentTerm rf \<and> votedFor rf' = votedFor rf \<and> state rf' = state rf \<and> votes rf' = votes rf
        \<or> currentTerm rf < currentTerm rf' \<and> state rf' = Follower)"

lemma quiet_vote_step: "quiet_step rf rf' \<Longrightarrow> vote_step rf rf'"
  by (auto simp: quiet_step_def vote_step_def)

lemma quiet_refl [simp]: "quiet_step rf rf"
  by (simp add: quiet_step_def same_id_def)

lemma quiet_adopt [simp]: "quiet_step rf (adopt t rf)"
  by (auto simp: quiet_step_def same_id_def adopt_def)

lemma applyLoop_quiet: "applyLoop i rf = Inr rf' \<Longrightarrow>
    \<exists>ms k. rf' = rf\<lparr>applyCh := ms, lastApplied := k\<rparr>"
proof (induction i rf rule: applyLoop.induct)
  case (1 i rf)
  show ?case
  proof (cases "i \<le> commitIndex rf")
    case True
    with 1(2) obtain e where e: "idx (log rf) i = Inr e"
      by (auto simp: applyLoop.simps [of i rf] go_bind_eq_Inr)
    with 1 True show ?thesis by (fastforce simp: applyLoop.simps [of i rf])
  next
    case False
    with 1(2) have "rf' = rf\<lparr>applyCh := applyCh rf, lastApplied := lastApplied rf\<rparr>"
      by (simp add: applyLoop.simps [of i rf])
    then show ?thesis by blast
  qed
qed

lemma AppendEntries_quiet:
  assumes "wf_ae args" "AppendEntries rf args = Inr (rf', reply)"
  shows "quiet_step rf rf'"
proof (cases "ae_Term args < currentTerm rf")
  case True
  with assms show ?thesis by (simp add: AppendEntries_stale)
next
  case False
  have "0 \<le> ae_PrevLogIndex args" using assms(1) by (simp add: wf_ae_def)
  with False assms(2) show ?thesis
    by (auto simp: AppendEntries_result Let_def go_bind_eq_Inr quiet_step_def same_id_def
        split: if_splits dest!: applyLoop_quiet)
qed

lemma commitLoop_quiet: "commitLoop N rf = Inr rf' \<Longrightarrow>
    \<exists>c ms k. rf' = rf\<lparr>commitIndex := c, applyCh := ms, lastApplied := k\<rparr>"
proof (induction N rf rule: commitLoop.induct)
  case (1 N rf)
  have same: "\<exists>c ms k. rf = rf\<lparr>commitIndex := c, applyCh := ms, lastApplied := k\<rparr>"
    by (intro exI [of _ "commitIndex rf"] exI [of _ "applyCh rf"] exI [of _ "lastApplied rf"]) simp
  show ?case
  proof (cases "N \<ge> commitIndex rf")
    case True
    with 1(2) obtain e where e: "idx (log rf) N = Inr e"
      by (auto simp: commitLoop.simps [of N rf] go_bind_eq_Inr)
    let ?c = "if Term e = currentTerm rf then countMatches (matchIndex rf) N else 0"
    show ?thesis
    proof (cases "?c > int (peers rf) div 2 \<and> state rf = Leader")
      case maj: True
      with 1(2) True e have "applyLoop (lastApplied rf + 1) (rf\<lparr>commitIndex := N\<rparr>) = Inr rf'"
        by (simp add: commitLoop.simps [of N rf])
      then show ?thesis by (auto dest!: applyLoop_quiet)
    next
      case False
      with 1(2) True e have "commitLoop (N - 1) rf = Inr rf'"
        by (auto simp: commitLoop.simps [of N rf] split: if_splits)
      with 1(1) [OF True e refl False] show ?thesis by blast
    qed
  next
    case False
    with 1(2) same show ?thesis by (simp add: commitLoop.simps [of N rf])
  qed
qed

lemma sendAppendEntries_quiet:
  assumes "sendAppendEntries rf server args res = Inr rf'"
  shows "quiet_step rf rf'" "log rf' = log rf"
  using assms
  by (auto simp: sendAppendEntries_def quiet_step_def same_id_def go_inrs
      split: option.splits if_splits dest!: commitLoop_quiet)

lemma RequestVote_vote_step:
  assumes "wf_raft rf" "RequestVote rf args = Inr (rf', reply)"
  shows "vote_step rf rf'" "log rf' = log rf"
  using assms by (auto simp: RequestVote_result Let_def vote_step_def same_id_def split: if_splits)

lemma sendRequestVote_vote_step:
  assumes "sendRequestVote rf res = (rf', calls)"
  shows "vote_step rf rf'" "log rf' = log rf"
  using assms
  by (auto simp: sendRequestVote_def vote_step_def same_id_def Let_def split: option.splits if_splits)

end
