(* ===== verification/Raft_Cluster.thy ===== *)
theory Raft_Cluster
  imports Raft_Node_Props
begin

text \<open>
  A cluster of Raft peers over a network that loses, delays and reorders messages
  (\<open>src/raft/raft.go\<close> with the guarantees \<open>src/labrpc/labrpc.go\<close> documents for \<open>Call\<close>).

  Every goroutine is a part of the state. The ticker of peer \<open>i\<close> is \<open>ticks ! i\<close>: \<open>None\<close> at the top
  of its loop, \<open>Some st\<close> while it waits in the \<open>select\<close> of the case \<open>st\<close>. Every \<open>Call\<close> a peer started is an
  element of \<open>rvs\<close> or \<open>aes\<close>, with the place it has reached: sent, handled (the handler has released
  \<open>rf.mu\<close> and is blocked sending on the signal channel of the ticker), replied, or finished. A lost
  request or reply is a call that never moves on, since a failed \<open>Call\<close> changes nothing in its caller.

  One step is one critical section of \<open>rf.mu\<close> or one channel operation. \<open>exec\<close> gives the result of
  the step a label names: not possible now, a panic, or the next state.
\<close>

section \<open>The model\<close>

datatype 'r status = Sent | Handled 'r | Replied 'r | Finished 'r | Lost

record rv_call =
  rvFrom :: nat
  rvTo :: nat
  rvArgs :: RequestVoteArgs
  rvStatus :: "RequestVoteReply status"

record 'c ae_call =
  aeFrom :: nat
  aeTo :: nat
  aeArgs :: "'c AppendEntriesArgs"
  aeStatus :: "AppendEntriesReply status"

record 'c cluster =
  servers :: "'c raft list"
  ticks :: "State option list"
  rvs :: "rv_call list"
  aes :: "'c ae_call list"

datatype 'c label =
    Tick nat
  | Timeout nat
  | RecvVote nat nat
  | RecvBeat nat nat
  | Submit nat "'c option"
  | DeliverRV nat
  | ReturnRV nat
  | DeliverAE nat
  | ReturnAE nat
  | KillServer nat
  | Crash nat

definition newRV :: "nat \<Rightarrow> nat \<times> RequestVoteArgs \<Rightarrow> rv_call" where
  "newRV i pa = \<lparr>rvFrom = i, rvTo = fst pa, rvArgs = snd pa, rvStatus = Sent\<rparr>"

definition newAE :: "nat \<Rightarrow> nat \<times> 'c AppendEntriesArgs \<Rightarrow> 'c ae_call" where
  "newAE i pa = \<lparr>aeFrom = i, aeTo = fst pa, aeArgs = snd pa, aeStatus = Sent\<rparr>"

subsection \<open>The ticker\<close>

text \<open>The top of the loop: unless killed, read the state and persist, both under the lock.\<close>

definition tickTop :: "'c cluster \<Rightarrow> nat \<Rightarrow> 'c cluster outcome" where
  "tickTop s i =
     (if i < length (servers s) \<and> ticks s ! i = None \<and> \<not> killed (servers s ! i)
      then Next (s\<lparr>servers := (servers s)[i := persist (servers s ! i)],
                   ticks := (ticks s)[i := Some (state (servers s ! i))]\<rparr>)
      else Disabled)"

text \<open>
  The timer fires. The case was chosen by the state read at the top of the loop; the peer may
  have changed its role since.
\<close>

definition tickTimeout :: "'c cluster \<Rightarrow> nat \<Rightarrow> 'c cluster outcome" where
  "tickTimeout s i =
     (if i < length (servers s) then
        case ticks s ! i of None \<Rightarrow> Disabled
        | Some Leader \<Rightarrow>
            out_bind (sendHeartBeats (servers s ! i)) (\<lambda>calls.
            Next (s\<lparr>ticks := (ticks s)[i := None], aes := aes s @ map (newAE i) calls\<rparr>))
        | Some _ \<Rightarrow>
            out_bind (becomeCandidate (servers s ! i)) (\<lambda>(rf, calls).
            Next (s\<lparr>servers := (servers s)[i := rf], ticks := (ticks s)[i := None],
                    rvs := rvs s @ map (newRV i) calls\<rparr>))
      else Disabled)"

text \<open>
  The ticker receives from a handler blocked on a signal channel. A leader's \<open>select\<close> has no case
  for \<open>receivedVoteChan\<close>.
\<close>

definition tickRecvVote :: "'c cluster \<Rightarrow> nat \<Rightarrow> nat \<Rightarrow> 'c cluster outcome" where
  "tickRecvVote s i k =
     (if i < length (servers s) \<and> k < length (rvs s) \<and> ticks s ! i \<in> {Some Follower, Some Candidate}
         \<and> rvTo (rvs s ! k) = i
      then case rvStatus (rvs s ! k) of
          Handled r \<Rightarrow> Next (s\<lparr>ticks := (ticks s)[i := None],
                              rvs := (rvs s)[k := (rvs s ! k)\<lparr>rvStatus := Replied r\<rparr>]\<rparr>)
        | _ \<Rightarrow> Disabled
      else Disabled)"

definition tickRecvBeat :: "'c cluster \<Rightarrow> nat \<Rightarrow> nat \<Rightarrow> 'c cluster outcome" where
  "tickRecvBeat s i k =
     (if i < length (servers s) \<and> k < length (aes s) \<and> ticks s ! i \<noteq> None \<and> aeTo (aes s ! k) = i
      then case aeStatus (aes s ! k) of
          Handled r \<Rightarrow> Next (s\<lparr>ticks := (ticks s)[i := None],
                              aes := (aes s)[k := (aes s ! k)\<lparr>aeStatus := Replied r\<rparr>]\<rparr>)
        | _ \<Rightarrow> Disabled
      else Disabled)"

subsection \<open>Clients, requests and replies\<close>

definition submit :: "'c cluster \<Rightarrow> nat \<Rightarrow> 'c option \<Rightarrow> 'c cluster outcome" where
  "submit s i c =
     (if i < length (servers s)
      then out_bind (Start (servers s ! i) c) (\<lambda>(rf, _).
           Next (s\<lparr>servers := (servers s)[i := rf]\<rparr>))
      else Disabled)"

definition deliverRV :: "'c cluster \<Rightarrow> nat \<Rightarrow> 'c cluster outcome" where
  "deliverRV s k =
     (if k < length (rvs s) \<and> rvStatus (rvs s ! k) = Sent
      then let c = rvs s ! k in
           out_bind (RequestVote (servers s ! rvTo c) (rvArgs c)) (\<lambda>(rf, r).
           Next (s\<lparr>servers := (servers s)[rvTo c := rf],
                   rvs := (rvs s)[k := c\<lparr>rvStatus := Handled r\<rparr>]\<rparr>))
      else Disabled)"

definition returnRV :: "'c cluster \<Rightarrow> nat \<Rightarrow> 'c cluster outcome" where
  "returnRV s k =
     (if k < length (rvs s) then
        let c = rvs s ! k in
        (case rvStatus c of
          Replied r \<Rightarrow>
            (case sendRequestVote (servers s ! rvFrom c) (Some r) of (rf, calls) \<Rightarrow>
             Next (s\<lparr>servers := (servers s)[rvFrom c := rf],
                     rvs := (rvs s)[k := c\<lparr>rvStatus := Finished r\<rparr>],
                     aes := aes s @ map (newAE (rvFrom c)) calls\<rparr>))
        | _ \<Rightarrow> Disabled)
      else Disabled)"

definition deliverAE :: "'c cluster \<Rightarrow> nat \<Rightarrow> 'c cluster outcome" where
  "deliverAE s k =
     (if k < length (aes s) \<and> aeStatus (aes s ! k) = Sent
      then let c = aes s ! k in
           out_bind (AppendEntries (servers s ! aeTo c) (aeArgs c)) (\<lambda>(rf, r).
           Next (s\<lparr>servers := (servers s)[aeTo c := rf],
                   aes := (aes s)[k := c\<lparr>aeStatus := Handled r\<rparr>]\<rparr>))
      else Disabled)"

definition returnAE :: "'c cluster \<Rightarrow> nat \<Rightarrow> 'c cluster outcome" where
  "returnAE s k =
     (if k < length (aes s) then
        let c = aes s ! k in
        (case aeStatus c of
          Replied r \<Rightarrow>
            out_bind (sendAppendEntries (servers s ! aeFrom c) (int (aeTo c)) (aeArgs c) (Some r)) (\<lambda>rf.
            Next (s\<lparr>servers := (servers s)[aeFrom c := rf],
                    aes := (aes s)[k := c\<lparr>aeStatus := Finished r\<rparr>]\<rparr>))
        | _ \<Rightarrow> Disabled)
      else Disabled)"

subsection \<open>Crash and restart\<close>

text \<open>
  The peer is killed and a new one made from a copy of its persister. Calls of the old instance
  that are under way no longer reach anybody.
\<close>

definition loseRV :: "nat \<Rightarrow> rv_call \<Rightarrow> rv_call" where
  "loseRV i c = (if rvFrom c = i \<or> rvTo c = i
     then (case rvStatus c of Finished _ \<Rightarrow> c | _ \<Rightarrow> c\<lparr>rvStatus := Lost\<rparr>) else c)"

definition loseAE :: "nat \<Rightarrow> 'c ae_call \<Rightarrow> 'c ae_call" where
  "loseAE i c = (if aeFrom c = i \<or> aeTo c = i
     then (case aeStatus c of Finished _ \<Rightarrow> c | _ \<Rightarrow> c\<lparr>aeStatus := Lost\<rparr>) else c)"

definition crash :: "'c cluster \<Rightarrow> nat \<Rightarrow> 'c cluster outcome" where
  "crash s i =
     (if i < length (servers s)
      then out_bind (Make (length (servers s)) (int i) (CopyPersister (persister (servers s ! i)))) (\<lambda>rf.
           Next (s\<lparr>servers := (servers s)[i := rf], ticks := (ticks s)[i := None],
                   rvs := map (loseRV i) (rvs s), aes := map (loseAE i) (aes s)\<rparr>))
      else Disabled)"

definition killServer :: "'c cluster \<Rightarrow> nat \<Rightarrow> 'c cluster outcome" where
  "killServer s i =
     (if i < length (servers s) then Next (s\<lparr>servers := (servers s)[i := Kill (servers s ! i)]\<rparr>)
      else Disabled)"

fun exec :: "'c cluster \<Rightarrow> 'c label \<Rightarrow> 'c cluster outcome" where
  "exec s (Tick i) = tickTop s i"
| "exec s (Timeout i) = tickTimeout s i"
| "exec s (RecvVote i k) = tickRecvVote s i k"
| "exec s (RecvBeat i k) = tickRecvBeat s i k"
| "exec s (Submit i c) = submit s i c"
| "exec s (DeliverRV k) = deliverRV s k"
| "exec s (ReturnRV k) = returnRV s k"
| "exec s (DeliverAE k) = deliverAE s k"
| "exec s (ReturnAE k) = returnAE s k"
| "exec s (KillServer i) = killServer s i"
| "exec s (Crash i) = crash s i"

definition cstep :: "'c cluster \<Rightarrow> 'c label \<Rightarrow> 'c cluster \<Rightarrow> bool" where
  "cstep s l t \<longleftrightarrow> exec s l = Next t"

definition newServer :: "nat \<Rightarrow> nat \<Rightarrow> 'c raft" where
  "newServer n i = projr (Make n (int i) MakePersister)"

definition init_cluster :: "nat \<Rightarrow> 'c cluster" where
  "init_cluster n = \<lparr>servers = map (newServer n) [0..<n], ticks = replicate n None, rvs = [], aes = []\<rparr>"

text \<open>A run of a whole schedule; \<open>None\<close> if a step of it is not possible.\<close>

fun run :: "'c cluster \<Rightarrow> 'c label list \<Rightarrow> 'c cluster option" where
  "run s [] = Some s"
| "run s (l # ls) = (case exec s l of Next t \<Rightarrow> run t ls | _ \<Rightarrow> None)"

end
