(* ===== verification/Raft_Cluster_Wf.thy ===== *)
theory Raft_Cluster_Wf
  imports Raft_Cluster
begin

text \<open>
  The steps of the cluster by cases, and the invariant that holds under every schedule, whatever
  the network loses or reorders and whenever peers crash: every peer and every message is well formed,
  so no step can panic.
\<close>

section \<open>What a step does\<close>

text \<open>Inversion of \<open>exec\<close>: one case per branch of the code that a step can take.\<close>

lemma exec_cases [consumes 1, case_names Tick Beats Candidacy RecvVote RecvBeat Submit
    DeliverRV ReturnRV DeliverAE ReturnAE Kill Crash]:
  assumes "exec s l = Next t"
  obtains
    i where "l = Tick i" "i < length (servers s)" "ticks s ! i = None" "\<not> killed (servers s ! i)"
      "t = s\<lparr>servers := (servers s)[i := persist (servers s ! i)],
             ticks := (ticks s)[i := Some (state (servers s ! i))]\<rparr>"
  | i calls where "l = Timeout i" "i < length (servers s)" "ticks s ! i = Some Leader"
      "sendHeartBeats (servers s ! i) = Inr calls"
      "t = s\<lparr>ticks := (ticks s)[i := None], aes := aes s @ map (newAE i) calls\<rparr>"
  | i rf calls where "l = Timeout i" "i < length (servers s)" "ticks s ! i \<in> {Some Follower, Some Candidate}"
      "becomeCandidate (servers s ! i) = Inr (rf, calls)"
      "t = s\<lparr>servers := (servers s)[i := rf], ticks := (ticks s)[i := None],
             rvs := rvs s @ map (newRV i) calls\<rparr>"
  | i k r where "l = RecvVote i k" "i < length (servers s)" "k < length (rvs s)"
      "rvTo (rvs s ! k) = i" "rvStatus (rvs s ! k) = Handled r"
      "t = s\<lparr>ticks := (ticks s)[i := None], rvs := (rvs s)[k := (rvs s ! k)\<lparr>rvStatus := Replied r\<rparr>]\<rparr>"
  | i k r where "l = RecvBeat i k" "i < length (servers s)" "k < length (aes s)"
      "aeTo (aes s ! k) = i" "aeStatus (aes s ! k) = Handled r"
      "t = s\<lparr>ticks := (ticks s)[i := None], aes := (aes s)[k := (aes s ! k)\<lparr>aeStatus := Replied r\<rparr>]\<rparr>"
  | i c rf res where "l = Submit i c" "i < length (servers s)" "Start (servers s ! i) c = Inr (rf, res)"
      "t = s\<lparr>servers := (servers s)[i := rf]\<rparr>"
  | k c rf r where "l = DeliverRV k" "k < length (rvs s)" "rvs s ! k = c" "rvStatus c = Sent"
      "RequestVote (servers s ! rvTo c) (rvArgs c) = Inr (rf, r)"
      "t = s\<lparr>servers := (servers s)[rvTo c := rf], rvs := (rvs s)[k := c\<lparr>rvStatus := Handled r\<rparr>]\<rparr>"
  | k c r rf calls where "l = ReturnRV k" "k < length (rvs s)" "rvs s ! k = c" "rvStatus c = Replied r"
      "sendRequestVote (servers s ! rvFrom c) (Some r) = (rf, calls)"
      "t = s\<lparr>servers := (servers s)[rvFrom c := rf], rvs := (rvs s)[k := c\<lparr>rvStatus := Finished r\<rparr>],
             aes := aes s @ map (newAE (rvFrom c)) calls\<rparr>"
  | k c rf r where "l = DeliverAE k" "k < length (aes s)" "aes s ! k = c" "aeStatus c = Sent"
      "AppendEntries (servers s ! aeTo c) (aeArgs c) = Inr (rf, r)"
      "t = s\<lparr>servers := (servers s)[aeTo c := rf], aes := (aes s)[k := c\<lparr>aeStatus := Handled r\<rparr>]\<rparr>"
  | k c r rf where "l = ReturnAE k" "k < length (aes s)" "aes s ! k = c" "aeStatus c = Replied r"
      "sendAppendEntries (servers s ! aeFrom c) (int (aeTo c)) (aeArgs c) (Some r) = Inr rf"
      "t = s\<lparr>servers := (servers s)[aeFrom c := rf], aes := (aes s)[k := c\<lparr>aeStatus := Finished r\<rparr>]\<rparr>"
  | i where "l = KillServer i" "i < length (servers s)"
      "t = s\<lparr>servers := (servers s)[i := Kill (servers s ! i)]\<rparr>"
  | i rf where "l = Crash i" "i < length (servers s)"
      "Make (length (servers s)) (int i) (CopyPersister (persister (servers s ! i))) = Inr rf"
      "t = s\<lparr>servers := (servers s)[i := rf], ticks := (ticks s)[i := None],
             rvs := map (loseRV i) (rvs s), aes := map (loseAE i) (aes s)\<rparr>"
proof (cases l)
  case (Tick i)
  then show ?thesis using assms that(1) by (auto simp: tickTop_def split: if_splits)
next
  case (Timeout i)
  then show ?thesis using assms that(2,3)
    by (auto simp: tickTimeout_def out_bind_eq_Next split: if_splits option.splits State.splits)
next
  case (RecvVote i k)
  then show ?thesis using assms that(4) by (auto simp: tickRecvVote_def split: if_splits status.splits)
next
  case (RecvBeat i k)
  then show ?thesis using assms that(5) by (auto simp: tickRecvBeat_def split: if_splits status.splits)
next
  case (Submit i c)
  then show ?thesis using assms that(6) by (auto simp: submit_def out_bind_eq_Next split: if_splits)
next
  case (DeliverRV k)
  then show ?thesis using assms that(7) by (auto simp: deliverRV_def Let_def out_bind_eq_Next split: if_splits)
next
  case (ReturnRV k)
  then show ?thesis using assms that(8) by (auto simp: returnRV_def Let_def split: if_splits status.splits prod.splits)
next
  case (DeliverAE k)
  then show ?thesis using assms that(9) by (auto simp: deliverAE_def Let_def out_bind_eq_Next split: if_splits)
next
  case (ReturnAE k)
  then show ?thesis using assms that(10)
    by (auto simp: returnAE_def Let_def out_bind_eq_Next split: if_splits status.splits)
next
  case (KillServer i)
  then show ?thesis using assms that(11) by (auto simp: killServer_def split: if_splits)
next
  case (Crash i)
  then show ?thesis using assms that(12) by (auto simp: crash_def out_bind_eq_Next split: if_splits)
qed

section \<open>Well-formed clusters\<close>

definition wf_server :: "nat \<Rightarrow> nat \<Rightarrow> 'c raft \<Rightarrow> bool" where
  "wf_server n i rf \<longleftrightarrow> wf_raft rf \<and> peers rf = n \<and> me rf = int i"

definition wf_rv :: "nat \<Rightarrow> rv_call \<Rightarrow> bool" where
  "wf_rv n c \<longleftrightarrow> rvFrom c < n \<and> rvTo c < n \<and> rvFrom c \<noteq> rvTo c \<and> rv_CandidateId (rvArgs c) = int (rvFrom c)"

definition wf_aec :: "nat \<Rightarrow> 'c ae_call \<Rightarrow> bool" where
  "wf_aec n c \<longleftrightarrow> aeFrom c < n \<and> aeTo c < n \<and> aeFrom c \<noteq> aeTo c \<and> wf_ae (aeArgs c)"

definition wf_cluster :: "nat \<Rightarrow> 'c cluster \<Rightarrow> bool" where
  "wf_cluster n s \<longleftrightarrow> length (servers s) = n \<and> length (ticks s) = n
     \<and> (\<forall>i<n. wf_server n i (servers s ! i))
     \<and> (\<forall>c\<in>set (rvs s). wf_rv n c) \<and> (\<forall>c\<in>set (aes s). wf_aec n c)"

lemma set_others: "set (others rf) = {p. p < peers rf \<and> int p \<noteq> me rf}"
  by (auto simp: others_def)

lemma wf_rv_calls [simp]:
  "wf_rv n (c\<lparr>rvStatus := st\<rparr>) = wf_rv n c"
  "wf_rv n (loseRV i c) = wf_rv n c"
  by (auto simp: wf_rv_def loseRV_def split: status.splits)

lemma wf_ae_calls [simp]:
  "wf_aec n (a\<lparr>aeStatus := st'\<rparr>) = wf_aec n a"
  "wf_aec n (loseAE i a) = wf_aec n a"
  by (auto simp: wf_aec_def loseAE_def split: status.splits)

lemma wf_ae_zero [simp]: "wf_ae zeroAppendEntriesArgs"
  by (simp add: wf_ae_def zeroAppendEntriesArgs_def)

lemma newServer_eq:
  "newServer n i = \<lparr>peers = n, persister = MakePersister, me = int i, dead = 0, state = Follower, votes = 0,
      currentTerm = 0, votedFor = -1, log = [\<lparr>Term = 0, Command = None\<rparr>], commitIndex = 0,
      lastApplied = 0, nextIndex = [], matchIndex = [], applyCh = []\<rparr>"
  by (simp add: newServer_def Make_fresh MakePersister_def)

lemma wf_init: "wf_cluster n (init_cluster n)"
  by (auto simp: wf_cluster_def init_cluster_def wf_server_def newServer_eq wf_raft_def
      wf_saved_def MakePersister_def)

lemma sendHeartBeats_calls:
  assumes "wf_raft rf" "sendHeartBeats rf = Inr calls" "(p, args) \<in> set calls"
  shows "state rf = Leader" "p < peers rf" "int p \<noteq> me rf" "heartBeatArgs rf p = Inr args" "wf_ae args"
proof -
  show lead: "state rf = Leader" using assms by (auto simp: sendHeartBeats_def split: if_splits)
  have ps: "\<forall>p\<in>set (others rf). p < peers rf" by (auto simp: set_others)
  obtain calls' where "heartBeats rf (others rf) = Inr calls'" and f: "map fst calls' = others rf"
    and h: "\<And>p args. (p, args) \<in> set calls' \<Longrightarrow> heartBeatArgs rf p = Inr args"
    using heartBeats_wf [OF assms(1) lead ps] by metis
  then have [simp]: "calls' = calls" using assms(2) lead by (simp add: sendHeartBeats_def)
  have "p \<in> set (others rf)" using assms(3) f by (metis \<open>calls' = calls\<close> fst_conv image_eqI list.set_map)
  then show p: "p < peers rf" "int p \<noteq> me rf" by (auto simp: set_others)
  show a: "heartBeatArgs rf p = Inr args" using h assms(3) by simp
  show "wf_ae args"
    by (rule heartBeatArgs_wf [OF assms(1) lead p(1)]) (use a in simp)
qed


lemma wf_clusterD:
  assumes "wf_cluster n s"
  shows "length (servers s) = n" "length (ticks s) = n"
    "i < n \<Longrightarrow> wf_server n i (servers s ! i)"
    "i < n \<Longrightarrow> wf_raft (servers s ! i)" "i < n \<Longrightarrow> peers (servers s ! i) = n"
    "i < n \<Longrightarrow> me (servers s ! i) = int i"
    "k < length (rvs s) \<Longrightarrow> wf_rv n (rvs s ! k)" "k < length (aes s) \<Longrightarrow> wf_aec n (aes s ! k)"
  using assms by (auto simp: wf_cluster_def wf_server_def)

subsection \<open>Each handler on a peer of the cluster\<close>

lemma wf_server_same_id:
  "wf_server n i rf \<Longrightarrow> same_id rf rf' \<Longrightarrow> wf_raft rf' \<Longrightarrow> wf_server n i rf'"
  by (simp add: wf_server_def same_id_def)

lemma wf_server_persist: "wf_server n i rf \<Longrightarrow> wf_server n i (persist rf)"
  using persist_wf [of rf] by (simp add: wf_server_def) (simp add: persist_def)

lemma wf_server_Kill: "wf_server n i rf \<Longrightarrow> wf_server n i (Kill rf)"
  by (simp add: wf_server_def Kill_def)

lemma wf_server_becomeCandidate:
  assumes "wf_server n i rf" "i < n" "becomeCandidate rf = Inr (rf', calls)"
  shows "wf_server n i rf'" "pa \<in> set calls \<Longrightarrow> wf_rv n (newRV i pa)"
  using assms becomeCandidate_wf [of rf]
  by (cases pa; auto simp: becomeCandidate_result wf_server_def wf_rv_def newRV_def set_others)+

lemma wf_server_sendHeartBeats:
  assumes "wf_server n i rf" "i < n" "sendHeartBeats rf = Inr calls" "pa \<in> set calls"
  shows "wf_aec n (newAE i pa)"
  using assms sendHeartBeats_calls [of rf calls "fst pa" "snd pa"]
  by (auto simp: wf_server_def wf_aec_def newAE_def)

lemma wf_server_Start:
  assumes "wf_server n i rf" "Start rf c = Inr (rf', res)"
  shows "wf_server n i rf'"
  using assms Start_wf [of rf c] by (auto simp: wf_server_def Start_result split: if_splits)

lemma wf_server_RequestVote:
  assumes "wf_server n i rf" "RequestVote rf args = Inr (rf', r)"
  shows "wf_server n i rf'"
proof -
  have wf: "wf_raft rf" using assms by (simp add: wf_server_def)
  show ?thesis
    by (rule wf_server_same_id [OF assms(1)])
       (use RequestVote_vote_step(1) [OF wf assms(2)] RequestVote_wf [OF wf assms(2)] in
         \<open>simp_all add: vote_step_def\<close>)
qed

lemma wf_server_sendRequestVote:
  assumes "wf_server n i rf" "i < n" "sendRequestVote rf (Some r) = (rf', calls)"
  shows "wf_server n i rf'" "pa \<in> set calls \<Longrightarrow> wf_aec n (newAE i pa)"
proof -
  have wf: "wf_raft rf" using assms by (simp add: wf_server_def)
  show "wf_server n i rf'"
    by (rule wf_server_same_id [OF assms(1)])
       (use sendRequestVote_vote_step(1) [OF assms(3)] sendRequestVote_wf [OF wf assms(3)] in
         \<open>simp_all add: vote_step_def\<close>)
  show "wf_aec n (newAE i pa)" if "pa \<in> set calls"
    using assms that
    by (auto simp: sendRequestVote_def Let_def wf_server_def wf_aec_def newAE_def set_others split: if_splits)
qed

lemma wf_server_AppendEntries:
  assumes "wf_server n i rf" "wf_ae args" "AppendEntries rf args = Inr (rf', r)"
  shows "wf_server n i rf'"
proof -
  have "wf_raft rf'" using AppendEntries_wf [of rf args] assms by (auto simp: wf_server_def)
  then show ?thesis
    using AppendEntries_quiet [OF assms(2,3)]
    by (intro wf_server_same_id [OF assms(1)]) (simp_all add: quiet_step_def)
qed

lemma wf_server_sendAppendEntries:
  assumes "wf_server n i rf" "wf_ae args" "j < n" "sendAppendEntries rf (int j) args res = Inr rf'"
  shows "wf_server n i rf'"
proof -
  have "wf_raft rf'"
    using sendAppendEntries_wf [of rf args "int j" res] assms by (auto simp: wf_server_def)
  then show ?thesis
    using sendAppendEntries_quiet [OF assms(4)]
    by (intro wf_server_same_id [OF assms(1)]) (simp_all add: quiet_step_def)
qed

lemma wf_server_Make:
  assumes "wf_server n i rf" "i < n" "Make n (int i) (CopyPersister (persister rf)) = Inr rf'"
  shows "wf_server n i rf'"
  using Make_wf [of "CopyPersister (persister rf)" "int i" n] assms
  by (auto simp: wf_server_def wf_raft_def CopyPersister_def)

subsection \<open>Every step keeps the cluster well formed\<close>

lemma wf_upd_rv:
  assumes "wf_cluster n s" "k < length (rvs s)"
  shows "\<forall>x\<in>set ((rvs s)[k := (rvs s ! k)\<lparr>rvStatus := st\<rparr>]). wf_rv n x"
  by (rule ballI, rule ball_set_upd [of "rvs s" "wf_rv n"]) (use assms in \<open>auto simp: wf_cluster_def\<close>)

lemma wf_upd_ae:
  assumes "wf_cluster n s" "k < length (aes s)"
  shows "\<forall>x\<in>set ((aes s)[k := (aes s ! k)\<lparr>aeStatus := st\<rparr>]). wf_aec n x"
  by (rule ballI, rule ball_set_upd [of "aes s" "wf_aec n"]) (use assms in \<open>auto simp: wf_cluster_def\<close>)

lemma wf_exec:
  assumes wf: "wf_cluster n s" and ex: "exec s l = Next t"
  shows "wf_cluster n t"
proof -
  have sv: "wf_cluster n (s\<lparr>servers := (servers s)[i := rf], ticks := tk, rvs := rs, aes := as\<rparr>)"
    if "i < n" "wf_server n i rf" "length tk = n" "\<forall>c\<in>set rs. wf_rv n c" "\<forall>c\<in>set as. wf_aec n c"
    for i rf tk rs as
    using wf that by (auto simp: wf_cluster_def nth_list_update)
  have same: "\<forall>c\<in>set (rvs s). wf_rv n c" "\<forall>c\<in>set (aes s). wf_aec n c"
    using wf by (auto simp: wf_cluster_def)
  note w = wf_clusterD [OF wf] and rvu = wf_upd_rv [OF wf] and aeu = wf_upd_ae [OF wf]
  from ex show ?thesis
  proof (cases rule: exec_cases)
    case (Tick i)
    with sv [of i "persist (servers s ! i)" "(ticks s)[i := Some (state (servers s ! i))]" "rvs s" "aes s"] show ?thesis
      by (simp add: w(1-6) same wf_server_persist)
  next
    case (Beats i calls)
    then have "\<forall>c\<in>set (aes s @ map (newAE i) calls). wf_aec n c"
      using same wf_server_sendHeartBeats [of n i "servers s ! i" calls] by (auto simp: w(1-6))
    with Beats sv [of i "servers s ! i" "(ticks s)[i := None]" "rvs s" "aes s @ map (newAE i) calls"] show ?thesis
      by (simp add: w(1-6) same)
  next
    case (Candidacy i rf calls)
    then have "\<forall>c\<in>set (rvs s @ map (newRV i) calls). wf_rv n c" "wf_server n i rf"
      using same wf_server_becomeCandidate [of n i "servers s ! i" rf calls] by (auto simp: w(1-6))
    with Candidacy sv [of i rf "(ticks s)[i := None]" "rvs s @ map (newRV i) calls" "aes s"] show ?thesis
      by (simp add: w(1-6) same)
  next
    case (RecvVote i k r)
    with rvu [of k "Replied r"]
      sv [of i "servers s ! i" "(ticks s)[i := None]" "(rvs s)[k := (rvs s ! k)\<lparr>rvStatus := Replied r\<rparr>]" "aes s"]
    show ?thesis by (simp add: w(1-6) same)
  next
    case (RecvBeat i k r)
    with aeu [of k "Replied r"]
      sv [of i "servers s ! i" "(ticks s)[i := None]" "rvs s" "(aes s)[k := (aes s ! k)\<lparr>aeStatus := Replied r\<rparr>]"]
    show ?thesis by (simp add: w(1-6) same)
  next
    case (Submit i c rf res)
    with sv [of i rf "ticks s" "rvs s" "aes s"] wf_server_Start [OF w(3) Submit(3)] show ?thesis
      by (simp add: w(1-6) same)
  next
    case (DeliverRV k c rf r)
    with sv [of "rvTo c" rf "ticks s" "(rvs s)[k := c\<lparr>rvStatus := Handled r\<rparr>]" "aes s"] w(7) [of k]
      wf_server_RequestVote [OF w(3) DeliverRV(5)] rvu [of k "Handled r"] show ?thesis
      by (auto simp: w(1-6) same wf_rv_def)
  next
    case (ReturnRV k c r rf calls)
    then have i: "rvFrom c < n" using w(7) [of k] by (simp add: wf_rv_def)
    note sr = wf_server_sendRequestVote [OF w(3) [OF i] i ReturnRV(5)]
    have "\<forall>c\<in>set (aes s @ map (newAE (rvFrom c)) calls). wf_aec n c" using same sr(2) by auto
    with i sr(1) rvu [of k "Finished r"] ReturnRV
      sv [of "rvFrom c" rf "ticks s" "(rvs s)[k := c\<lparr>rvStatus := Finished r\<rparr>]" "aes s @ map (newAE (rvFrom c)) calls"]
    show ?thesis by (simp add: w(1-6) same)
  next
    case (DeliverAE k c rf r)
    with sv [of "aeTo c" rf "ticks s" "rvs s" "(aes s)[k := c\<lparr>aeStatus := Handled r\<rparr>]"] w(8) [of k]
      wf_server_AppendEntries [OF w(3) _ DeliverAE(5)] aeu [of k "Handled r"] show ?thesis
      by (auto simp: w(1-6) same wf_aec_def)
  next
    case (ReturnAE k c r rf)
    with sv [of "aeFrom c" rf "ticks s" "rvs s" "(aes s)[k := c\<lparr>aeStatus := Finished r\<rparr>]"] w(8) [of k]
      wf_server_sendAppendEntries [OF w(3) _ _ ReturnAE(5)] aeu [of k "Finished r"] show ?thesis
      by (auto simp: w(1-6) same wf_aec_def)
  next
    case (Kill i)
    with sv [of i "Kill (servers s ! i)" "ticks s" "rvs s" "aes s"] show ?thesis
      by (simp add: w(1-6) same wf_server_Kill)
  next
    case (Crash i rf)
    with sv [of i rf "(ticks s)[i := None]" "map (loseRV i) (rvs s)" "map (loseAE i) (aes s)"]
      wf_server_Make [OF w(3)] show ?thesis
      by (simp add: w(1-6) same)
  qed
qed

lemma sendHeartBeats_ok:
  assumes "wf_raft rf" shows "sendHeartBeats rf \<noteq> Inl e"
proof (cases "state rf = Leader")
  case True
  show ?thesis by (rule heartBeats_wf [OF assms True, of "others rf"]) (auto simp: sendHeartBeats_def set_others)
qed (simp add: sendHeartBeats_def)

lemma AppendEntries_ok: "wf_raft rf \<Longrightarrow> wf_ae args \<Longrightarrow> AppendEntries rf args \<noteq> Inl e"
  by (erule AppendEntries_wf, assumption) simp

lemma sendAppendEntries_ok:
  "wf_raft rf \<Longrightarrow> wf_ae args \<Longrightarrow> j < peers rf \<Longrightarrow> sendAppendEntries rf (int j) args res \<noteq> Inl e"
  by (erule sendAppendEntries_wf [where server = "int j" and res = res], assumption) simp_all

lemma exec_no_panic:
  assumes wf: "wf_cluster n s"
  shows "exec s l \<noteq> Panicked e"
proof (cases l)
  case (Timeout i)
  then show ?thesis
    using wf_clusterD(1,4) [OF wf]
    by (auto simp: tickTimeout_def becomeCandidate_result sendHeartBeats_ok out_bind_eq_Panicked
        split: option.splits State.splits)
next
  case (Submit i c)
  then show ?thesis
    using wf_clusterD(1,4) [OF wf] by (auto simp: submit_def Start_result out_bind_eq_Panicked)
next
  case (DeliverRV k)
  then show ?thesis
    using wf_clusterD(7) [OF wf, of k] wf_clusterD(4) [OF wf]
    by (auto simp: wf_rv_def deliverRV_def RequestVote_result Let_def out_bind_eq_Panicked)
next
  case (DeliverAE k)
  then show ?thesis
    using wf_clusterD(8) [OF wf, of k] wf_clusterD(4) [OF wf]
    by (auto simp: wf_aec_def deliverAE_def Let_def AppendEntries_ok out_bind_eq_Panicked)
next
  case (ReturnAE k)
  then show ?thesis
    using wf_clusterD(8) [OF wf, of k] wf_clusterD(4,5) [OF wf]
    by (auto simp: wf_aec_def returnAE_def Let_def sendAppendEntries_ok out_bind_eq_Panicked
        split: status.splits)
next
  case (Crash i)
  then show ?thesis
    using wf_clusterD(1,4) [OF wf] Make_wf [of "CopyPersister (persister (servers s ! i))" "int i" n]
    by (auto simp: wf_raft_def CopyPersister_def crash_def)
qed (auto simp: tickTop_def tickRecvVote_def tickRecvBeat_def returnRV_def killServer_def Let_def
    split: status.splits prod.splits)

abbreviation reach :: "nat \<Rightarrow> 'c cluster \<Rightarrow> bool" where
  "reach n \<equiv> reachable (\<lambda>s. s = init_cluster n) cstep"

lemma reach_wf: "reach n s \<Longrightarrow> wf_cluster n s"
  by (induction rule: reachable_invariant) (auto simp: wf_init cstep_def intro: wf_exec)

lemma run_reach:
  assumes "run s ls = Some t" "reach n s"
  shows "reach n t"
  using assms
proof (induction ls arbitrary: s)
  case (Cons l ls)
  then obtain u where "exec s l = Next u" "run u ls = Some t" by (auto split: outcome.splits)
  then show ?case using Cons by (metis cstep_def reachable_step)
qed simp

end
