(* ===== verification/Raft_Election.thy ===== *)
theory Raft_Election
  imports Raft_Cluster_Wf
begin

text \<open>
  Elections. Majorities are an instance of a quorum system. The votes a cluster has cast are
  consistent, the counter of a candidate counts distinct peers of its own term, and so there is at most
  one leader in a term, as long as no reply that grants a vote of an older term is counted and no
  peer forgets its vote in a crash. Two schedules show that both conditions are needed.
\<close>

section \<open>Majorities\<close>

text \<open>The interface of a quorum system: two quorums always share a member.\<close>

locale quorum_system =
  fixes procs :: "'p set" and quorum :: "'p set \<Rightarrow> bool"
  assumes quorum_sub: "quorum Q \<Longrightarrow> Q \<subseteq> procs"
    and quorum_meet: "quorum Q \<Longrightarrow> quorum Q' \<Longrightarrow> Q \<inter> Q' \<noteq> {}"
begin

lemma quorum_nonempty: "quorum Q \<Longrightarrow> Q \<noteq> {}"
  using quorum_meet by blast

text \<open>If every member of a quorum backs at most one value, then at most one value has a quorum.\<close>

lemma unique_choice:
  assumes "quorum Q" "quorum Q'" "\<forall>p\<in>Q. backs p v" "\<forall>p\<in>Q'. backs p w"
    and "\<And>p x y. p \<in> procs \<Longrightarrow> backs p x \<Longrightarrow> backs p y \<Longrightarrow> x = y"
  shows "v = w"
proof -
  obtain p where "p \<in> Q" "p \<in> Q'" using quorum_meet [OF assms(1,2)] by blast
  with assms quorum_sub show ?thesis by blast
qed

end

definition majority :: "nat \<Rightarrow> nat set \<Rightarrow> bool" where
  "majority n Q \<longleftrightarrow> Q \<subseteq> {..<n} \<and> n div 2 < card Q"

interpretation peers: quorum_system "{..<n}" "majority n" for n
proof
  fix Q Q' assume q: "majority n Q" "majority n Q'"
  show "Q \<inter> Q' \<noteq> {}"
  proof
    assume "Q \<inter> Q' = {}"
    moreover have "finite Q" "finite Q'" using q by (auto simp: majority_def intro: finite_subset)
    ultimately have "card Q + card Q' = card (Q \<union> Q')" by (simp add: card_Un_disjoint)
    also have "\<dots> \<le> card {..<n}" using q by (intro card_mono) (auto simp: majority_def)
    finally show False using q by (simp add: majority_def) linarith
  qed
qed (simp add: majority_def)

section \<open>Votes\<close>

fun replyOf :: "'r status \<Rightarrow> 'r option" where
  "replyOf (Handled r) = Some r"
| "replyOf (Replied r) = Some r"
| "replyOf (Finished r) = Some r"
| "replyOf Sent = None"
| "replyOf Lost = None"

definition granted :: "rv_call \<Rightarrow> bool" where
  "granted c = (case replyOf (rvStatus c) of Some r \<Rightarrow> rvr_VoteGranted r | None \<Rightarrow> False)"

abbreviation callTerm :: "rv_call \<Rightarrow> int" where
  "callTerm c \<equiv> rv_Term (rvArgs c)"

text \<open>
  What the votes cast so far promise. A candidate has voted for itself in the term of its calls; a
  peer that granted a vote remembers it while it stays in that term; nobody grants two votes in one term.
\<close>

definition own_vote :: "'c raft list \<Rightarrow> rv_call \<Rightarrow> bool" where
  "own_vote sv c \<longleftrightarrow> callTerm c \<le> currentTerm (sv ! rvFrom c)
     \<and> (callTerm c = currentTerm (sv ! rvFrom c) \<longrightarrow> votedFor (sv ! rvFrom c) = int (rvFrom c))"

definition given_vote :: "'c raft list \<Rightarrow> rv_call \<Rightarrow> bool" where
  "given_vote sv c \<longleftrightarrow> granted c \<longrightarrow> callTerm c \<le> currentTerm (sv ! rvTo c)
     \<and> (callTerm c = currentTerm (sv ! rvTo c) \<longrightarrow> votedFor (sv ! rvTo c) = int (rvFrom c))"

definition one_vote :: "rv_call \<Rightarrow> rv_call \<Rightarrow> bool" where
  "one_vote c d \<longleftrightarrow> granted c \<longrightarrow>
     (granted d \<longrightarrow> rvTo c = rvTo d \<longrightarrow> callTerm c = callTerm d \<longrightarrow> rvFrom c = rvFrom d)
     \<and> (rvFrom d = rvTo c \<longrightarrow> callTerm c \<noteq> callTerm d)"

definition votes_ok :: "'c raft list \<Rightarrow> rv_call set \<Rightarrow> bool" where
  "votes_ok sv R \<longleftrightarrow> (\<forall>c\<in>R. own_vote sv c \<and> given_vote sv c) \<and> (\<forall>c\<in>R. \<forall>d\<in>R. one_vote c d)"

definition weaker :: "rv_call \<Rightarrow> rv_call \<Rightarrow> bool" where
  "weaker x c \<longleftrightarrow> rvFrom x = rvFrom c \<and> rvTo x = rvTo c \<and> rvArgs x = rvArgs c \<and> (granted x \<longrightarrow> granted c)"

lemma weaker_votes:
  "weaker x c \<Longrightarrow> own_vote sv c \<Longrightarrow> own_vote sv x"
  "weaker x c \<Longrightarrow> given_vote sv c \<Longrightarrow> given_vote sv x"
  "weaker x c \<Longrightarrow> weaker y d \<Longrightarrow> one_vote c d \<Longrightarrow> one_vote x y"
  by (auto simp: weaker_def own_vote_def given_vote_def one_vote_def)

lemma weaker_refl [simp]: "weaker c c"
  by (simp add: weaker_def)

lemma votes_ok_weaken:
  assumes "votes_ok sv R" "\<And>x. x \<in> R' \<Longrightarrow> \<exists>c\<in>R. weaker x c"
  shows "votes_ok sv R'"
  unfolding votes_ok_def using assms by (meson votes_ok_def weaker_votes)

text \<open>The vote of a term, once cast, is kept for that term.\<close>

definition vote_keep :: "'c raft \<Rightarrow> 'c raft \<Rightarrow> bool" where
  "vote_keep rf rf' \<longleftrightarrow>
     currentTerm rf' = currentTerm rf \<and> (votedFor rf' = votedFor rf \<or> votedFor rf = -1)
     \<or> currentTerm rf < currentTerm rf'"

lemma vote_step_keep: "vote_step rf rf' \<Longrightarrow> vote_keep rf rf'"
  by (auto simp: vote_step_def vote_keep_def)

lemma own_vote_node:
  "own_vote sv c \<Longrightarrow> i < length sv \<Longrightarrow> vote_keep (sv ! i) rf \<Longrightarrow> own_vote (sv[i := rf]) c"
  by (auto simp: own_vote_def vote_keep_def nth_list_update)

lemma given_vote_node:
  "given_vote sv c \<Longrightarrow> i < length sv \<Longrightarrow> vote_keep (sv ! i) rf \<Longrightarrow> given_vote (sv[i := rf]) c"
  by (auto simp: given_vote_def vote_keep_def nth_list_update)

lemma votes_ok_node:
  assumes "votes_ok sv R" "i < length sv" "vote_keep (sv ! i) rf"
  shows "votes_ok (sv[i := rf]) R"
  using assms by (auto simp: votes_ok_def intro: own_vote_node given_vote_node)

text \<open>A new candidate: its calls are of a term in which nobody can have granted it or its peers a vote.\<close>

lemma votes_ok_candidate:
  assumes ok: "votes_ok sv R" and i: "i < length sv" and wf: "wf_server n i (sv ! i)"
    and cand: "becomeCandidate (sv ! i) = Inr (rf, calls)"
  shows "votes_ok (sv[i := rf]) (R \<union> set (map (newRV i) calls))"
proof -
  let ?t = "currentTerm (sv ! i) + 1"
  have rf: "currentTerm rf = ?t" "votedFor rf = int i" "vote_keep (sv ! i) rf"
    and new: "c \<in> set (map (newRV i) calls) \<Longrightarrow> rvFrom c = i \<and> callTerm c = ?t \<and> \<not> granted c" for c
    using cand wf by (auto simp: becomeCandidate_result wf_server_def vote_keep_def newRV_def granted_def)
  have R: "votes_ok (sv[i := rf]) R" using ok i rf(3) by (rule votes_ok_node)
  have "own_vote (sv[i := rf]) c \<and> given_vote (sv[i := rf]) c" if "c \<in> set (map (newRV i) calls)" for c
    using new [OF that] i rf by (simp add: own_vote_def given_vote_def)
  moreover have "one_vote c d \<and> one_vote d c"
    if c: "c \<in> set (map (newRV i) calls)" and d: "d \<in> R \<union> set (map (newRV i) calls)" for c d
  proof -
    from d ok new [of d] have "given_vote sv d \<or> \<not> granted d" by (auto simp: votes_ok_def)
    with new [OF c] show ?thesis by (auto simp: one_vote_def given_vote_def)
  qed
  ultimately show ?thesis using R by (auto simp: votes_ok_def)
qed

text \<open>A vote request: a granted vote is the first of its term at the peer that grants it.\<close>

lemma votes_ok_request:
  assumes ok: "votes_ok sv R" and c: "c \<in> R" "wf_rv n c" and n: "length sv = n"
    and wf: "wf_raft (sv ! rvTo c)"
    and req: "RequestVote (sv ! rvTo c) (rvArgs c) = Inr (rf, r)"
  shows "votes_ok (sv[rvTo c := rf]) (insert (c\<lparr>rvStatus := Handled r\<rparr>) R)"
proof -
  let ?x = "c\<lparr>rvStatus := Handled r\<rparr>" and ?j = "rvTo c"
  have j: "?j < length sv" "rvFrom c \<noteq> ?j" "rv_CandidateId (rvArgs c) = int (rvFrom c)"
    using c(2) n by (auto simp: wf_rv_def)
  have R: "votes_ok (sv[?j := rf]) R"
    using ok j(1) RequestVote_vote_step(1) [OF wf req, THEN vote_step_keep] by (rule votes_ok_node)
  show ?thesis
  proof (cases "rvr_VoteGranted r")
    case False
    then have "weaker ?x c" by (simp add: weaker_def granted_def)
    with c(1) show ?thesis by (intro votes_ok_weaken [OF R]) (metis insert_iff weaker_refl)
  next
    case True
    then have rf: "currentTerm rf = callTerm c" "votedFor rf = int (rvFrom c)"
      and old: "currentTerm (sv ! ?j) < callTerm c \<or>
        currentTerm (sv ! ?j) = callTerm c \<and> votedFor (sv ! ?j) \<in> {-1, int (rvFrom c)}"
      using req wf j(3) by (auto simp: RequestVote_result Let_def split: if_splits)
    have "own_vote (sv[?j := rf]) ?x \<and> given_vote (sv[?j := rf]) ?x"
    proof -
      have "own_vote (sv[?j := rf]) c" using R c(1) by (simp add: votes_ok_def)
      with rf j show ?thesis by (simp add: own_vote_def given_vote_def)
    qed
    moreover have "one_vote ?x d \<and> one_vote d ?x" if "d \<in> R" for d
    proof -
      have d: "given_vote sv d" "own_vote sv d" "one_vote d c"
        using ok that c(1) by (auto simp: votes_ok_def)
      have "rvTo d = ?j \<Longrightarrow> granted d \<Longrightarrow> callTerm d = callTerm c \<Longrightarrow> rvFrom d = rvFrom c"
        using d(1) old by (auto simp: given_vote_def)
      moreover have "rvFrom d = ?j \<Longrightarrow> callTerm d \<noteq> callTerm c"
        using d(2) old j(2) by (auto simp: own_vote_def)
      ultimately show ?thesis using d(3) by (simp add: one_vote_def) metis
    qed
    moreover have "one_vote ?x ?x" using j by (simp add: one_vote_def)
    ultimately show ?thesis using R by (auto simp: votes_ok_def)
  qed
qed

section \<open>Counting votes\<close>

text \<open>The peers whose granted vote in term \<open>t\<close> the caller \<open>i\<close> has counted.\<close>

definition counted :: "nat \<Rightarrow> int \<Rightarrow> rv_call \<Rightarrow> bool" where
  "counted i t c \<longleftrightarrow> rvFrom c = i \<and> callTerm c = t
     \<and> (case rvStatus c of Finished r \<Rightarrow> rvr_VoteGranted r | _ \<Rightarrow> False)"

definition voters :: "rv_call list \<Rightarrow> nat \<Rightarrow> int \<Rightarrow> nat set" where
  "voters rs i t = rvTo ` {c \<in> set rs. counted i t c}"

definition callKey :: "rv_call \<Rightarrow> nat \<times> nat \<times> int" where
  "callKey c = (rvFrom c, rvTo c, callTerm c)"

lemma finite_voters [simp]: "finite (voters rs i t)"
  by (simp add: voters_def)

lemma callKey_upd [simp]: "callKey (c\<lparr>rvStatus := st\<rparr>) = callKey c"
  by (simp add: callKey_def)

lemma distinct_keys_upd:
  assumes "distinct (map callKey rs)" "k < length rs"
  shows "distinct (map callKey (rs[k := (rs ! k)\<lparr>rvStatus := st\<rparr>]))"
proof -
  have "map callKey (rs[k := (rs ! k)\<lparr>rvStatus := st\<rparr>]) = map callKey rs"
    using assms(2) by (simp add: map_update list_update_same_conv)
  with assms show ?thesis by simp
qed

lemma voters_upd_other:
  assumes "k < length rs" "\<And>r. rvStatus (rs ! k) \<noteq> Finished r"
    and "\<And>r. st = Finished r \<Longrightarrow> \<not> rvr_VoteGranted r"
  shows "voters (rs[k := (rs ! k)\<lparr>rvStatus := st\<rparr>]) i t = voters rs i t"
proof -
  have "\<not> counted i t (rs ! k)" "\<not> counted i t ((rs ! k)\<lparr>rvStatus := st\<rparr>)"
    using assms(2,3) by (auto simp: counted_def split: status.splits)
  then have "{c \<in> set (rs[k := (rs ! k)\<lparr>rvStatus := st\<rparr>]). counted i t c} = {c \<in> set rs. counted i t c}"
    using assms(1) by (auto simp: in_set_conv_nth nth_list_update split: if_splits)
  then show ?thesis by (simp add: voters_def)
qed

lemma voters_upd_counted:
  assumes "k < length rs" "rvStatus (rs ! k) = Replied r" "rvr_VoteGranted r"
    and "distinct (map callKey rs)"
  defines "c \<equiv> rs ! k"
  shows "voters (rs[k := c\<lparr>rvStatus := Finished r\<rparr>]) i t =
      (if i = rvFrom c \<and> t = callTerm c then insert (rvTo c) (voters rs i t) else voters rs i t)"
    and "rvTo c \<notin> voters rs (rvFrom c) (callTerm c)"
proof -
  let ?x = "c\<lparr>rvStatus := Finished r\<rparr>"
  have nc: "\<not> counted i t c" and x: "counted i t ?x \<longleftrightarrow> i = rvFrom c \<and> t = callTerm c"
    using assms(2,3) by (auto simp: counted_def c_def)
  have "{d \<in> set (rs[k := ?x]). counted i t d} =
      {d \<in> set rs. counted i t d} \<union> (if counted i t ?x then {?x} else {})"
    using assms(1) nc by (auto simp: in_set_conv_nth nth_list_update c_def split: if_splits)
  then show "voters (rs[k := ?x]) i t =
      (if i = rvFrom c \<and> t = callTerm c then insert (rvTo c) (voters rs i t) else voters rs i t)"
    by (auto simp: voters_def x)
  show "rvTo c \<notin> voters rs (rvFrom c) (callTerm c)"
  proof
    assume "rvTo c \<in> voters rs (rvFrom c) (callTerm c)"
    then obtain d where "d \<in> set rs" "callKey d = callKey c" "counted (rvFrom c) (callTerm c) d"
      by (auto simp: voters_def callKey_def counted_def)
    moreover from this have "d = c"
      using assms(1,4) by (metis c_def distinct_map inj_onD nth_mem)
    ultimately show False using assms(2) by (simp add: counted_def c_def)
  qed
qed

text \<open>
  A candidate's counter is exact and a leader has been elected in its term. \<open>elected\<close> does not
  depend on the state of any peer, so it also records the leaders of the past.
\<close>

definition elected :: "nat \<Rightarrow> rv_call list \<Rightarrow> nat \<Rightarrow> int \<Rightarrow> bool" where
  "elected n rs i t \<longleftrightarrow> n div 2 < 1 + card (voters rs i t)"

definition counts_ok :: "'c raft list \<Rightarrow> rv_call list \<Rightarrow> bool" where
  "counts_ok sv rs \<longleftrightarrow> (\<forall>i<length sv.
     (state (sv ! i) = Candidate \<longrightarrow> votes (sv ! i) = 1 + int (card (voters rs i (currentTerm (sv ! i)))))
   \<and> (state (sv ! i) = Leader \<longrightarrow> elected (length sv) rs i (currentTerm (sv ! i))))"

definition calm :: "'c raft \<Rightarrow> 'c raft \<Rightarrow> bool" where
  "calm rf rf' \<longleftrightarrow> state rf' = Follower
     \<or> currentTerm rf' = currentTerm rf \<and> state rf' = state rf \<and> votes rf' = votes rf"

lemma quiet_calm: "quiet_step rf rf' \<Longrightarrow> calm rf rf'"
  by (auto simp: quiet_step_def calm_def)

lemma RequestVote_calm: "wf_raft rf \<Longrightarrow> RequestVote rf args = Inr (rf', r) \<Longrightarrow> calm rf rf'"
  by (auto simp: RequestVote_result Let_def calm_def adopt_def split: if_splits)

lemma counts_ok_node:
  assumes "counts_ok sv rs" "i < length sv" "calm (sv ! i) rf"
  shows "counts_ok (sv[i := rf]) rs"
  using assms by (auto simp: counts_ok_def calm_def nth_list_update)

lemma counts_ok_voters:
  "counts_ok sv rs \<Longrightarrow> (\<And>i t. voters rs' i t = voters rs i t) \<Longrightarrow> counts_ok sv rs'"
  by (simp add: counts_ok_def elected_def)

lemma counts_ok_candidate:
  assumes "counts_ok sv rs" "votes_ok sv (set rs)" "i < length sv"
    and "wf_server n i (sv ! i)" "becomeCandidate (sv ! i) = Inr (rf, calls)"
  shows "counts_ok (sv[i := rf]) (rs @ map (newRV i) calls)"
proof -
  have v: "voters (rs @ map (newRV i) calls) j t = voters rs j t" for j t
    by (force simp: voters_def counted_def newRV_def)
  have "voters rs i (currentTerm (sv ! i) + 1) = {}"
    using assms(2) by (force simp: voters_def counted_def votes_ok_def own_vote_def)
  then show ?thesis
    using assms(1,3,4,5)
    by (auto simp: counts_ok_def v nth_list_update becomeCandidate_result wf_server_def elected_def)
qed

text \<open>
  A reply to a vote request. Where it grants a vote, the caller must still be in the term it asked for;
  the code does not check this.
\<close>

lemma counts_ok_reply:
  assumes ok: "counts_ok sv rs" and k: "k < length rs" "rvStatus (rs ! k) = Replied r"
    and key: "distinct (map callKey rs)" and i: "rvFrom (rs ! k) < length sv"
    and wf: "wf_server (length sv) (rvFrom (rs ! k)) (sv ! rvFrom (rs ! k))"
    and fresh: "rvr_VoteGranted r \<Longrightarrow> callTerm (rs ! k) = currentTerm (sv ! rvFrom (rs ! k))"
    and send: "sendRequestVote (sv ! rvFrom (rs ! k)) (Some r) = (rf, calls)"
  shows "counts_ok (sv[rvFrom (rs ! k) := rf]) (rs[k := (rs ! k)\<lparr>rvStatus := Finished r\<rparr>])"
proof (cases "rvr_VoteGranted r")
  case False
  then have "calm (sv ! rvFrom (rs ! k)) rf"
    using send by (auto simp: sendRequestVote_def calm_def split: if_splits)
  with ok i have "counts_ok (sv[rvFrom (rs ! k) := rf]) rs" by (intro counts_ok_node)
  then show ?thesis
    by (rule counts_ok_voters, intro voters_upd_other) (use k False in auto)
next
  case True
  let ?i = "rvFrom (rs ! k)" and ?rs = "rs[k := (rs ! k)\<lparr>rvStatus := Finished r\<rparr>]"
  note vu = voters_upd_counted [OF k True key] and f = fresh [OF True]
  have self: "card (voters ?rs ?i (currentTerm (sv ! ?i))) = 1 + card (voters rs ?i (currentTerm (sv ! ?i)))"
    using vu f by simp
  have other: "voters ?rs j t = voters rs j t" if "j \<noteq> ?i" for j t
    using that by (simp add: vu)
  have o: "counts_ok sv rs" "peers (sv ! ?i) = length sv" using ok wf by (simp_all add: wf_server_def)
  show ?thesis
    unfolding counts_ok_def
  proof (intro allI impI)
    fix j assume j: "j < length (sv[?i := rf])"
    show "(state (sv[?i := rf] ! j) = Candidate \<longrightarrow>
          votes (sv[?i := rf] ! j) = 1 + int (card (voters ?rs j (currentTerm (sv[?i := rf] ! j)))))
        \<and> (state (sv[?i := rf] ! j) = Leader \<longrightarrow>
          elected (length (sv[?i := rf])) ?rs j (currentTerm (sv[?i := rf] ! j)))"
    proof (cases "j = ?i")
      case False
      with j o other show ?thesis by (simp add: counts_ok_def elected_def)
    next
      case eq: True
      show ?thesis
        using o(1) send True i self
        by (auto simp: eq counts_ok_def elected_def sendRequestVote_def Let_def o(2) split: if_splits)
    qed
  qed
qed

section \<open>Election safety\<close>

text \<open>
  Two conditions on a schedule that the code does not establish by itself. A reply that grants a vote
  reaches its caller in the term of the request, and a peer only crashes right after its ticker has
  persisted its state.
\<close>

definition fresh_vote :: "'c cluster \<Rightarrow> 'c label \<Rightarrow> bool" where
  "fresh_vote s l = (case l of
     ReturnRV k \<Rightarrow> k < length (rvs s) \<longrightarrow> granted (rvs s ! k)
        \<longrightarrow> callTerm (rvs s ! k) = currentTerm (servers s ! rvFrom (rvs s ! k))
   | _ \<Rightarrow> True)"

definition saved :: "'c raft \<Rightarrow> bool" where
  "saved rf \<longleftrightarrow> raftstate (persister rf) = [GobLog (log rf), GobInt (currentTerm rf), GobInt (votedFor rf)]"

definition saved_crash :: "'c cluster \<Rightarrow> 'c label \<Rightarrow> bool" where
  "saved_crash s l = (case l of
     Crash i \<Rightarrow> i < length (servers s) \<longrightarrow> saved (servers s ! i)
   | _ \<Rightarrow> True)"

definition vstep :: "'c cluster \<Rightarrow> 'c label \<Rightarrow> 'c cluster \<Rightarrow> bool" where
  "vstep s l t \<longleftrightarrow> cstep s l t \<and> fresh_vote s l \<and> saved_crash s l"

definition vote_inv :: "'c cluster \<Rightarrow> bool" where
  "vote_inv s \<longleftrightarrow> distinct (map callKey (rvs s)) \<and> votes_ok (servers s) (set (rvs s))
     \<and> counts_ok (servers s) (rvs s)"

lemma vote_inv_init: "vote_inv (init_cluster n)"
  by (simp add: vote_inv_def votes_ok_def counts_ok_def init_cluster_def newServer_eq)

lemma saved_restart:
  assumes "saved rf" "Make n i (CopyPersister (persister rf)) = Inr rf'"
  shows "currentTerm rf' = currentTerm rf" "votedFor rf' = votedFor rf" "log rf' = log rf"
    "state rf' = Follower" "saved rf'"
proof -
  have "raftstate (CopyPersister (persister rf)) = [GobLog (log rf), GobInt (currentTerm rf), GobInt (votedFor rf)]"
    using assms(1) by (simp add: saved_def CopyPersister_def)
  from Make_persisted [OF this, of n i] assms(2)
  show "currentTerm rf' = currentTerm rf" "votedFor rf' = votedFor rf" "log rf' = log rf"
    "state rf' = Follower" "saved rf'"
    using assms(1) by (auto simp: saved_def CopyPersister_def)
qed

text \<open>A step of one peer that leaves the vote requests alone.\<close>

lemma vote_inv_node:
  assumes "vote_inv s" "i < length (servers s)" "vote_keep (servers s ! i) rf" "calm (servers s ! i) rf"
  shows "vote_inv (s\<lparr>servers := (servers s)[i := rf], ticks := tk, aes := as\<rparr>)"
  using assms by (simp add: vote_inv_def counts_ok_node votes_ok_node)

lemma vote_inv_status:
  assumes "vote_inv s" "k < length (rvs s)" "replyOf (rvStatus (rvs s ! k)) = replyOf st"
    and "\<And>r. rvStatus (rvs s ! k) \<noteq> Finished r" "\<And>r. st \<noteq> Finished r"
  shows "vote_inv (s\<lparr>ticks := tk, rvs := (rvs s)[k := (rvs s ! k)\<lparr>rvStatus := st\<rparr>]\<rparr>)"
proof -
  let ?x = "(rvs s ! k)\<lparr>rvStatus := st\<rparr>"
  have "weaker ?x (rvs s ! k)" using assms(3) by (simp add: weaker_def granted_def)
  then have w: "\<exists>c\<in>set (rvs s). weaker x c" if "x \<in> set ((rvs s)[k := ?x])" for x
    using that assms(2) set_update_subset_insert [of "rvs s" k ?x] by (force intro: bexI [of _ x])
  have "votes_ok (servers s) (set ((rvs s)[k := ?x]))"
    by (rule votes_ok_weaken [OF _ w]) (use assms(1) in \<open>simp_all add: vote_inv_def\<close>)
  moreover have "counts_ok (servers s) ((rvs s)[k := ?x])"
  proof (rule counts_ok_voters)
    show "counts_ok (servers s) (rvs s)" using assms(1) by (simp add: vote_inv_def)
    show "voters ((rvs s)[k := ?x]) i t = voters (rvs s) i t" for i t
      by (rule voters_upd_other) (use assms in auto)
  qed
  ultimately show ?thesis
    using assms(1,2) by (simp add: vote_inv_def distinct_keys_upd)
qed

lemma weaker_lose: "weaker (loseRV i c) c"
  by (auto simp: loseRV_def weaker_def granted_def split: status.splits)

lemma lose_simps [simp]:
  "rvTo (loseRV j c) = rvTo c" "callKey (loseRV j c) = callKey c" "counted i t (loseRV j c) = counted i t c"
  by (auto simp: loseRV_def callKey_def counted_def split: status.splits)

lemma voters_lose: "voters (map (loseRV j) rs) i t = voters rs i t"
proof -
  have "{c \<in> set (map (loseRV j) rs). counted i t c} = loseRV j ` {c \<in> set rs. counted i t c}" by auto
  then show ?thesis by (simp add: voters_def image_image)
qed

lemma vote_inv_crash:
  assumes "vote_inv s" "i < length (servers s)" "saved (servers s ! i)"
    and "Make n (int i) (CopyPersister (persister (servers s ! i))) = Inr rf"
  shows "vote_inv (s\<lparr>servers := (servers s)[i := rf], ticks := tk, rvs := map (loseRV i) (rvs s), aes := as\<rparr>)"
proof -
  let ?rs = "map (loseRV i) (rvs s)" and ?sv = "(servers s)[i := rf]"
  note rf = saved_restart [OF assms(3,4)]
  have "votes_ok ?sv (set (rvs s))"
    using assms(1,2) rf by (intro votes_ok_node) (auto simp: vote_inv_def vote_keep_def)
  then have "votes_ok ?sv (set ?rs)"
    by (rule votes_ok_weaken) (auto intro: weaker_lose)
  moreover have "counts_ok ?sv (rvs s)"
    using assms(1,2) rf by (intro counts_ok_node) (auto simp: vote_inv_def calm_def)
  then have "counts_ok ?sv ?rs" by (rule counts_ok_voters) (rule voters_lose)
  moreover have "map callKey ?rs = map callKey (rvs s)" by simp
  ultimately show ?thesis using assms(1) by (simp add: vote_inv_def del: map_map)
qed

lemma distinct_new_keys:
  assumes "vote_inv s" "wf_server n i (servers s ! i)" "becomeCandidate (servers s ! i) = Inr (rf, calls)"
  shows "distinct (map callKey (rvs s @ map (newRV i) calls))"
proof -
  let ?t = "currentTerm (servers s ! i) + 1"
  have calls: "map callKey (map (newRV i) calls) = map (\<lambda>p. (i, p, ?t)) (others (servers s ! i))"
    using assms(2,3) by (auto simp: becomeCandidate_result wf_server_def callKey_def newRV_def)
  have "distinct (map callKey (map (newRV i) calls))"
    unfolding calls by (auto simp: distinct_map others_def inj_on_def)
  moreover have "set (map callKey (rvs s)) \<inter> set (map callKey (map (newRV i) calls)) = {}"
    unfolding calls using assms(1)
    by (fastforce simp: vote_inv_def votes_ok_def own_vote_def callKey_def)
  ultimately show ?thesis using assms(1) by (simp add: vote_inv_def del: map_map)
qed

lemma votes_ok_set_upd:
  assumes "votes_ok sv (insert x (set rs))" shows "votes_ok sv (set (rs[k := x]))"
  using assms by (rule votes_ok_weaken) (metis set_update_subset_insert subsetD weaker_refl)

lemma vote_inv_request:
  assumes wf: "wf_cluster n s" and inv: "vote_inv s"
    and k: "k < length (rvs s)" "rvStatus (rvs s ! k) = Sent"
    and req: "RequestVote (servers s ! rvTo (rvs s ! k)) (rvArgs (rvs s ! k)) = Inr (rf, r)"
  shows "vote_inv (s\<lparr>servers := (servers s)[rvTo (rvs s ! k) := rf],
                     rvs := (rvs s)[k := (rvs s ! k)\<lparr>rvStatus := Handled r\<rparr>]\<rparr>)"
proof -
  let ?j = "rvTo (rvs s ! k)" and ?sv = "(servers s)[rvTo (rvs s ! k) := rf]"
  have c: "wf_rv n (rvs s ! k)" "rvs s ! k \<in> set (rvs s)" using k wf_clusterD(7) [OF wf] by auto
  have j: "?j < n" "?j < length (servers s)" using c(1) wf_clusterD(1) [OF wf] by (auto simp: wf_rv_def)
  note wfj = wf_clusterD(4) [OF wf j(1)]
  have "votes_ok (servers s) (set (rvs s))" "counts_ok (servers s) (rvs s)"
    using inv by (simp_all add: vote_inv_def)
  then have "votes_ok ?sv (insert ((rvs s ! k)\<lparr>rvStatus := Handled r\<rparr>) (set (rvs s)))"
    and "counts_ok ?sv (rvs s)"
    using votes_ok_request [OF _ c(2,1) wf_clusterD(1) [OF wf] wfj req]
      counts_ok_node [OF _ j(2) RequestVote_calm [OF wfj req]] by auto
  moreover have "voters ((rvs s)[k := (rvs s ! k)\<lparr>rvStatus := Handled r\<rparr>]) i t = voters (rvs s) i t" for i t
    by (rule voters_upd_other) (use k in auto)
  ultimately show ?thesis
    using inv k(1) by (simp add: vote_inv_def distinct_keys_upd votes_ok_set_upd counts_ok_voters)
qed

lemma vote_inv_reply:
  assumes wf: "wf_cluster n s" and inv: "vote_inv s"
    and k: "k < length (rvs s)" "rvStatus (rvs s ! k) = Replied r"
    and fresh: "rvr_VoteGranted r \<Longrightarrow> callTerm (rvs s ! k) = currentTerm (servers s ! rvFrom (rvs s ! k))"
    and send: "sendRequestVote (servers s ! rvFrom (rvs s ! k)) (Some r) = (rf, calls)"
  shows "vote_inv (s\<lparr>servers := (servers s)[rvFrom (rvs s ! k) := rf],
                     rvs := (rvs s)[k := (rvs s ! k)\<lparr>rvStatus := Finished r\<rparr>], aes := as\<rparr>)"
proof -
  let ?i = "rvFrom (rvs s ! k)" and ?sv = "(servers s)[rvFrom (rvs s ! k) := rf]"
  let ?x = "(rvs s ! k)\<lparr>rvStatus := Finished r\<rparr>"
  have c: "wf_rv n (rvs s ! k)" "rvs s ! k \<in> set (rvs s)" using k wf_clusterD(7) [OF wf] by auto
  have i: "?i < length (servers s)" "wf_server (length (servers s)) ?i (servers s ! ?i)"
    using c(1) wf_clusterD(1,3) [OF wf] by (auto simp: wf_rv_def)
  have inv': "distinct (map callKey (rvs s))" "votes_ok (servers s) (set (rvs s))" "counts_ok (servers s) (rvs s)"
    using inv by (simp_all add: vote_inv_def)
  have "votes_ok ?sv (set (rvs s))"
    using inv'(2) i(1) sendRequestVote_vote_step(1) [OF send, THEN vote_step_keep] by (rule votes_ok_node)
  moreover have "weaker ?x (rvs s ! k)" using k(2) by (simp add: weaker_def granted_def)
  ultimately have "votes_ok ?sv (insert ?x (set (rvs s)))"
    using c(2) by (auto intro: votes_ok_weaken weaker_refl)
  moreover have "counts_ok ?sv ((rvs s)[k := ?x])"
    using inv'(3) k inv'(1) i fresh send by (rule counts_ok_reply)
  ultimately show ?thesis
    using inv'(1) k(1) by (simp add: vote_inv_def distinct_keys_upd votes_ok_set_upd)
qed


lemma vote_inv_exec:
  assumes wf: "wf_cluster n s" and inv: "vote_inv s" and st: "vstep s l t"
  shows "vote_inv t"
proof -
  have ex: "exec s l = Next t" and fresh: "fresh_vote s l" and sc: "saved_crash s l"
    using st by (auto simp: vstep_def cstep_def)
  note w = wf_clusterD [OF wf]
  have quiet: "vote_inv (s\<lparr>servers := (servers s)[i := rf], ticks := tk, aes := as\<rparr>)"
    if "i < n" "quiet_step (servers s ! i) rf" for i rf tk as
    using that by (intro vote_inv_node [OF inv])
      (auto simp: w(1) intro: quiet_calm vote_step_keep quiet_vote_step)
  from ex show ?thesis
  proof (cases rule: exec_cases)
    case (Tick i)
    have "vote_inv (s\<lparr>servers := (servers s)[i := persist (servers s ! i)],
        ticks := (ticks s)[i := Some (state (servers s ! i))], aes := aes s\<rparr>)"
      by (rule vote_inv_node [OF inv]) (use Tick in \<open>auto simp: vote_keep_def calm_def persist_def\<close>)
    with Tick show ?thesis by simp
  next
    case (Beats i calls)
    with quiet [of i "servers s ! i" "aes s @ map (newAE i) calls" "(ticks s)[i := None]"] show ?thesis
      by (simp add: w(1))
  next
    case (Candidacy i rf calls)
    have i: "i < length (servers s)" "wf_server n i (servers s ! i)" using Candidacy w(1,3) by auto
    with inv Candidacy votes_ok_candidate [OF _ i Candidacy(4)] counts_ok_candidate [OF _ _ i Candidacy(4)]
      distinct_new_keys [OF inv i(2) Candidacy(4)]
    show ?thesis by (simp add: vote_inv_def del: map_map)
  next
    case (RecvVote i k r)
    then have "vote_inv (s\<lparr>ticks := (ticks s)[i := None], rvs := (rvs s)[k := (rvs s ! k)\<lparr>rvStatus := Replied r\<rparr>]\<rparr>)"
      by (intro vote_inv_status [OF inv]) auto
    with RecvVote show ?thesis by simp
  next
    case (RecvBeat i k r)
    with quiet [of i "servers s ! i" "(aes s)[k := (aes s ! k)\<lparr>aeStatus := Replied r\<rparr>]" "(ticks s)[i := None]"]
    show ?thesis by (simp add: w(1))
  next
    case (Submit i c rf res)
    then have "quiet_step (servers s ! i) rf"
      using w(1) w(4) [of i] by (auto simp: Start_result quiet_step_def same_id_def split: if_splits)
    with quiet [of i rf "aes s" "ticks s"] Submit show ?thesis by (simp add: w(1))
  next
    case (DeliverRV k c rf r)
    with vote_inv_request [OF wf inv, of k rf r] show ?thesis by simp
  next
    case (ReturnRV k c r rf calls)
    then have "rvr_VoteGranted r \<Longrightarrow> callTerm (rvs s ! k) = currentTerm (servers s ! rvFrom (rvs s ! k))"
      using fresh by (auto simp: fresh_vote_def granted_def)
    with ReturnRV vote_inv_reply [OF wf inv, of k r rf calls] show ?thesis by simp
  next
    case (DeliverAE k c rf r)
    then have "aeTo c < n" "quiet_step (servers s ! aeTo c) rf"
      using w(8) [of k] AppendEntries_quiet by (auto simp: wf_aec_def)
    with quiet [of "aeTo c" rf "(aes s)[k := c\<lparr>aeStatus := Handled r\<rparr>]" "ticks s"] DeliverAE show ?thesis by simp
  next
    case (ReturnAE k c r rf)
    then have "aeFrom c < n" "quiet_step (servers s ! aeFrom c) rf"
      using w(8) [of k] sendAppendEntries_quiet(1) by (auto simp: wf_aec_def)
    with quiet [of "aeFrom c" rf "(aes s)[k := c\<lparr>aeStatus := Finished r\<rparr>]" "ticks s"] ReturnAE show ?thesis by simp
  next
    case (Kill i)
    have "vote_inv (s\<lparr>servers := (servers s)[i := Kill (servers s ! i)], ticks := ticks s, aes := aes s\<rparr>)"
      by (rule vote_inv_node [OF inv]) (use Kill in \<open>auto simp: vote_keep_def calm_def Kill_def\<close>)
    with Kill show ?thesis by simp
  next
    case (Crash i rf)
    with sc have "saved (servers s ! i)" by (simp add: saved_crash_def)
    from vote_inv_crash [OF inv Crash(2) this Crash(3)] Crash show ?thesis by simp
  qed
qed

abbreviation vreach :: "nat \<Rightarrow> 'c cluster \<Rightarrow> bool" where
  "vreach n \<equiv> reachable (\<lambda>s. s = init_cluster n) vstep"

lemma vreach_inv: "vreach n s \<Longrightarrow> wf_cluster n s \<and> vote_inv s"
proof (induction rule: reachable_invariant)
  case (step s l t)
  then show ?case using vote_inv_exec wf_exec by (auto simp: vstep_def cstep_def)
qed (simp add: wf_init vote_inv_init)

lemma voters_majority:
  assumes wf: "wf_cluster n s" and el: "elected n (rvs s) i t" and i: "i < n"
  shows "majority n (insert i (voters (rvs s) i t))"
proof -
  have sub: "voters (rvs s) i t \<subseteq> {..<n} - {i}"
    using wf by (auto simp: voters_def counted_def wf_cluster_def wf_rv_def)
  then have "card (insert i (voters (rvs s) i t)) = 1 + card (voters (rvs s) i t)" by (subst card_insert_disjoint) auto
  with sub i el show ?thesis by (auto simp: majority_def elected_def)
qed

text \<open>Nobody but \<open>i\<close> can ever be elected in a term in which \<open>i\<close> was.\<close>

lemma elected_unique:
  assumes wf: "wf_cluster n s" and inv: "vote_inv s"
    and el: "elected n (rvs s) i t" "elected n (rvs s) j t" and ij: "i < n" "j < n"
  shows "i = j"
proof (rule ccontr)
  assume ne: "i \<noteq> j"
  define backs where "backs p v \<longleftrightarrow> (p = v \<and> (\<exists>c\<in>set (rvs s). rvFrom c = v \<and> callTerm c = t))
      \<or> (\<exists>c\<in>set (rvs s). granted c \<and> rvTo c = p \<and> rvFrom c = v \<and> callTerm c = t)" for p v
  have ok: "\<forall>c\<in>set (rvs s). \<forall>d\<in>set (rvs s). one_vote c d" using inv by (simp add: vote_inv_def votes_ok_def)
  have once: "v = w" if "backs p v" "backs p w" for p v w
  proof -
    have "rvFrom c = rvFrom d" if "c \<in> set (rvs s)" "d \<in> set (rvs s)" "granted c" "granted d"
      "rvTo c = rvTo d" "callTerm c = callTerm d" for c d
    proof -
      from ok that(1,2) have "one_vote c d" by blast
      with that show ?thesis by (simp add: one_vote_def)
    qed
    moreover have "rvFrom d \<noteq> rvTo c" if "c \<in> set (rvs s)" "d \<in> set (rvs s)" "granted c"
      "callTerm c = callTerm d" for c d
    proof -
      from ok that(1,2) have "one_vote c d" by blast
      with that show ?thesis by (auto simp: one_vote_def)
    qed
    ultimately show ?thesis using that unfolding backs_def by metis
  qed
  have support: "\<forall>p\<in>insert v (voters (rvs s) v t). backs p v" if "elected n (rvs s) v t" for v
  proof -
    have "1 < n" using ne ij by auto
    then have "voters (rvs s) v t \<noteq> {}" using that by (auto simp: elected_def)
    moreover have "counted v t c \<Longrightarrow> granted c \<and> rvFrom c = v \<and> callTerm c = t" for c
      by (auto simp: counted_def granted_def split: status.splits)
    ultimately show ?thesis by (auto simp: voters_def backs_def)
  qed
  from peers.unique_choice [OF voters_majority [OF wf el(1) ij(1)] voters_majority [OF wf el(2) ij(2)]
      support [OF el(1)] support [OF el(2)]] once ne
  show False by blast
qed

end
