(* ===== verification/Raft_Log.thy ===== *)
theory Raft_Log
  imports Raft_Election
begin

text \<open>
  Log matching: in a run that satisfies the hypotheses of election safety, two logs that have an entry of the
  same term at the same index are equal up to there.

  The proof is about a history \<open>H\<close>, which gives for every term the log of the leader of that term as it was last while
  it led, and the empty list for a term without a leader. Every log is made of pieces of the history, and so
  is every \<open>AppendEntries\<close> message.
\<close>

section \<open>Who was elected stays elected\<close>

lemma counted_lost: "counted i u c \<Longrightarrow> loseRV j c = c"
  by (auto simp: counted_def loseRV_def split: status.splits)

lemma voters_upd:
  assumes "k < length rs" "\<not> counted i u (rs ! k)"
  shows "voters rs i u \<subseteq> voters (rs[k := c]) i u"
proof -
  have "c' \<in> set (rs[k := c])" if "c' \<in> set rs" "counted i u c'" for c'
    using that assms by (metis in_set_conv_nth length_list_update nth_list_update_neq)
  then show ?thesis by (auto simp: voters_def)
qed

lemma voters_step:
  assumes "exec s l = Next t"
  shows "voters (rvs s) i u \<subseteq> voters (rvs t) i u"
  using assms
proof (cases rule: exec_cases)
  case (Crash j rf)
  then show ?thesis by (force simp: voters_def counted_lost)
next
  case (Candidacy j rf calls)
  then show ?thesis by (auto simp: voters_def)
next
  case (RecvVote j k r)
  then show ?thesis using voters_upd [of k "rvs s" i u] by (simp add: counted_def)
next
  case (DeliverRV k c rf r)
  then show ?thesis using voters_upd [of k "rvs s" i u] by (simp add: counted_def)
next
  case (ReturnRV k c r rf calls)
  then show ?thesis using voters_upd [of k "rvs s" i u] by (simp add: counted_def)
qed simp_all

lemma elected_step:
  assumes "exec s l = Next t" "elected n (rvs s) i u"
  shows "elected n (rvs t) i u"
  using assms(2) card_mono [OF finite_voters voters_step [OF assms(1), of i u]] by (simp add: elected_def)

lemma leader_elected:
  assumes "wf_cluster n s" "vote_inv s" "i < n" "state (servers s ! i) = Leader"
  shows "elected n (rvs s) i (currentTerm (servers s ! i))"
  using assms wf_clusterD(1) [OF assms(1)] unfolding vote_inv_def counts_ok_def by blast

section \<open>Histories\<close>

type_synonym 'c history = "int \<Rightarrow> 'c LogEntry list"

definition coherent :: "'c history \<Rightarrow> 'c LogEntry list \<Rightarrow> bool" where
  "coherent H l \<longleftrightarrow> (\<forall>k<length l. take (Suc k) (H (Term (l ! k))) = take (Suc k) l)"

definition aligned :: "'c history \<Rightarrow> 'c AppendEntriesArgs \<Rightarrow> bool" where
  "aligned H a \<longleftrightarrow> ae_Entries a = [] \<or>
     (let p = nat (ae_PrevLogIndex a); l = H (ae_Term a)
      in p < length l \<and> Term (l ! p) = ae_PrevLogTerm a \<and> take (length (ae_Entries a)) (drop (Suc p) l) = ae_Entries a)"

definition extends :: "'c history \<Rightarrow> 'c history \<Rightarrow> bool" where
  "extends H H' \<longleftrightarrow> (\<forall>T. take (length (H T)) (H' T) = H T)"

lemma extends_refl [simp]: "extends H H"
  by (simp add: extends_def)

lemma extends_upd: "take (length (H T)) l = H T \<Longrightarrow> extends H (H(T := l))"
  by (simp add: extends_def)

lemma extends_take:
  assumes "extends H H'" "m \<le> length (H T)"
  shows "take m (H' T) = take m (H T)"
  using assms by (metis extends_def min.absorb1 take_take)

lemma coherent_take: "coherent H l \<Longrightarrow> coherent H (take m l)"
  by (auto simp: coherent_def min_def)

lemma coherent_length:
  assumes "coherent H l" "k < length l"
  shows "Suc k \<le> length (H (Term (l ! k)))"
proof -
  from assms have "length (take (Suc k) (H (Term (l ! k)))) = length (take (Suc k) l)" by (simp add: coherent_def)
  with assms(2) show ?thesis by simp
qed

lemma coherent_extends:
  assumes "coherent H l" "extends H H'"
  shows "coherent H' l"
  unfolding coherent_def
proof (intro allI impI)
  fix k assume k: "k < length l"
  from extends_take [OF assms(2) coherent_length [OF assms(1) k]] assms(1) k
  show "take (Suc k) (H' (Term (l ! k))) = take (Suc k) l" by (simp add: coherent_def)
qed

lemma coherent_snoc:
  assumes "coherent H l" "l = H T" "Term e = T"
  shows "coherent (H(T := l @ [e])) (l @ [e])"
proof -
  let ?H = "H(T := l @ [e])"
  have "coherent ?H l" by (rule coherent_extends [OF assms(1)]) (simp add: extends_upd assms(2))
  then show ?thesis using assms(3) by (auto simp: coherent_def less_Suc_eq nth_append)
qed

lemma coherent_agree:
  assumes "coherent H l" "coherent H l'" "k < length l" "k < length l'" "Term (l ! k) = Term (l' ! k)"
  shows "take (Suc k) l = take (Suc k) l'"
  using assms by (metis coherent_def)

lemma aligned_extends:
  assumes "aligned H a" "extends H H'"
  shows "aligned H' a"
proof (cases "ae_Entries a = []")
  case False
  let ?p = "nat (ae_PrevLogIndex a)" and ?l = "H (ae_Term a)" and ?l' = "H' (ae_Term a)" and ?m = "length (ae_Entries a)"
  have a: "?p < length ?l" "Term (?l ! ?p) = ae_PrevLogTerm a" "take ?m (drop (Suc ?p) ?l) = ae_Entries a"
    using assms(1) False by (auto simp: aligned_def Let_def)
  have pre: "take (length ?l) ?l' = ?l" using assms(2) by (simp add: extends_def)
  then obtain r where l': "?l' = ?l @ r" by (metis append_take_drop_id)
  from a(3) have "?m \<le> length ?l - Suc ?p" by (metis length_drop length_take min.cobounded1)
  with a show ?thesis by (auto simp: aligned_def Let_def l' nth_append)
qed (simp add: aligned_def)

text \<open>Appending the entries of a message to a log that has the entry before them.\<close>

lemma aligned_splice:
  assumes "\<And>T. coherent H (H T)" "coherent H l" "aligned H a" "nat (ae_PrevLogIndex a) < length l"
    and "Term (l ! nat (ae_PrevLogIndex a)) = ae_PrevLogTerm a"
  shows "coherent H (take (Suc (nat (ae_PrevLogIndex a))) l @ ae_Entries a)"
proof (cases "ae_Entries a = []")
  case True
  then show ?thesis using coherent_take [OF assms(2)] by simp
next
  case False
  let ?p = "nat (ae_PrevLogIndex a)" and ?l = "H (ae_Term a)" and ?m = "length (ae_Entries a)"
  have a: "?p < length ?l" "Term (?l ! ?p) = ae_PrevLogTerm a" "take ?m (drop (Suc ?p) ?l) = ae_Entries a"
    using assms(3) False by (auto simp: aligned_def Let_def)
  have "take (Suc ?p) l = take (Suc ?p) ?l"
    by (rule coherent_agree [OF assms(2) assms(1)]) (use assms(4,5) a in auto)
  moreover have "take (Suc ?p) ?l @ take ?m (drop (Suc ?p) ?l) = take (Suc ?p + ?m) ?l" by (simp only: take_add)
  ultimately show ?thesis using coherent_take [OF assms(1)] a(3) by metis
qed

section \<open>The invariant\<close>

definition peer_ok :: "'c history \<Rightarrow> 'c raft \<Rightarrow> bool" where
  "peer_ok H rf \<longleftrightarrow> coherent H (log rf) \<and> (state rf \<noteq> Follower \<longrightarrow> 1 \<le> currentTerm rf)
     \<and> (state rf = Leader \<longrightarrow> log rf = H (currentTerm rf))"

definition ae_ok :: "nat \<Rightarrow> 'c history \<Rightarrow> rv_call list \<Rightarrow> 'c ae_call \<Rightarrow> bool" where
  "ae_ok n H rs c \<longleftrightarrow> aligned H (aeArgs c)
     \<and> (ae_Term (aeArgs c) = 0 \<or> elected n rs (aeFrom c) (ae_Term (aeArgs c)))"

definition led :: "nat \<Rightarrow> rv_call list \<Rightarrow> 'c raft list \<Rightarrow> int \<Rightarrow> bool" where
  "led n rs sv T \<longleftrightarrow> (\<exists>j<n. elected n rs j T \<and> T \<le> currentTerm (sv ! j)
     \<and> \<not> (state (sv ! j) = Candidate \<and> currentTerm (sv ! j) = T))"

definition log_inv :: "nat \<Rightarrow> 'c history \<Rightarrow> 'c cluster \<Rightarrow> bool" where
  "log_inv n H s \<longleftrightarrow> H 0 = [\<lparr>Term = 0, Command = None\<rparr>] \<and> (\<forall>T. coherent H (H T))
     \<and> (\<forall>i<n. peer_ok H (servers s ! i)) \<and> (\<forall>c\<in>set (aes s). ae_ok n H (rvs s) c)
     \<and> (\<forall>T\<ge>1. H T \<noteq> [] \<longrightarrow> led n (rvs s) (servers s) T)"

lemma log_invD:
  assumes "log_inv n H s"
  shows "H 0 = [\<lparr>Term = 0, Command = None\<rparr>]" "coherent H (H T)" "i < n \<Longrightarrow> peer_ok H (servers s ! i)"
    "c \<in> set (aes s) \<Longrightarrow> ae_ok n H (rvs s) c" "1 \<le> T \<Longrightarrow> H T \<noteq> [] \<Longrightarrow> led n (rvs s) (servers s) T"
  using assms by (auto simp: log_inv_def)

text \<open>What most steps do to the peer that takes them.\<close>

definition role_step :: "'c raft \<Rightarrow> 'c raft \<Rightarrow> bool" where
  "role_step rf rf' \<longleftrightarrow> state rf' = Follower \<and> currentTerm rf \<le> currentTerm rf'
     \<or> state rf' = state rf \<and> currentTerm rf' = currentTerm rf
     \<or> state rf' = Candidate \<and> currentTerm rf < currentTerm rf'"

definition tame :: "'c history \<Rightarrow> 'c raft \<Rightarrow> 'c raft \<Rightarrow> bool" where
  "tame H rf rf' \<longleftrightarrow> (log rf' = log rf \<or> coherent H (log rf') \<and> state rf' \<noteq> Leader) \<and> role_step rf rf'"

lemma tame_refl [simp]: "tame H rf rf"
  by (simp add: tame_def role_step_def)

lemma quiet_tame: "quiet_step rf rf' \<Longrightarrow> log rf' = log rf \<or> coherent H (log rf') \<and> state rf' \<noteq> Leader \<Longrightarrow> tame H rf rf'"
  by (auto simp: quiet_step_def tame_def role_step_def)

lemma tame_peer_ok: "peer_ok H rf \<Longrightarrow> tame H rf rf' \<Longrightarrow> 0 \<le> currentTerm rf \<Longrightarrow> peer_ok H rf'"
  by (auto simp: peer_ok_def tame_def role_step_def)

lemma led_step:
  assumes "led n rs sv T" "\<And>j. elected n rs j T \<Longrightarrow> elected n rs' j T" "i < length sv" "role_step (sv ! i) rf"
  shows "led n rs' (sv[i := rf]) T"
proof -
  from assms(1) obtain j where j: "j < n" "elected n rs j T" "T \<le> currentTerm (sv ! j)"
    "\<not> (state (sv ! j) = Candidate \<and> currentTerm (sv ! j) = T)" unfolding led_def by blast
  have "T \<le> currentTerm (sv[i := rf] ! j) \<and> \<not> (state (sv[i := rf] ! j) = Candidate \<and> currentTerm (sv[i := rf] ! j) = T)"
    using j(3,4) assms(3,4) by (cases "j = i") (auto simp: role_step_def)
  with j(1) assms(2) [OF j(2)] show ?thesis unfolding led_def by blast
qed

lemma ae_ok_mono:
  assumes "ae_ok n H rs c" "\<And>j T. elected n rs j T \<Longrightarrow> elected n rs' j T" "extends H H'" "aeArgs c' = aeArgs c" "aeFrom c' = aeFrom c"
  shows "ae_ok n H' rs' c'"
  using assms aligned_extends [of H "aeArgs c" H'] by (auto simp: ae_ok_def)

definition old_or_ok :: "nat \<Rightarrow> 'c history \<Rightarrow> 'c cluster \<Rightarrow> 'c cluster \<Rightarrow> bool" where
  "old_or_ok n H s t \<longleftrightarrow> (\<forall>c\<in>set (aes t). (\<exists>c0\<in>set (aes s). aeArgs c = aeArgs c0 \<and> aeFrom c = aeFrom c0) \<or> ae_ok n H (rvs t) c)"

lemma log_inv_tame:
  assumes inv: "log_inv n H s" and wf: "wf_cluster n s" and i: "i < n" and rf: "tame H (servers s ! i) rf"
    and el: "\<And>j T. elected n (rvs s) j T \<Longrightarrow> elected n (rvs t) j T"
    and sv: "servers t = (servers s)[i := rf]" and ae: "old_or_ok n H s t"
  shows "log_inv n H t"
proof -
  note D = log_invD [OF inv]
  have len: "length (servers s) = n" and "0 \<le> currentTerm (servers s ! i)"
    using wf_clusterD(1,4) [OF wf] i by (auto simp: wf_raft_def dest: wf_log_term_nonneg)
  then have "peer_ok H rf" using tame_peer_ok [OF D(3) [OF i] rf] by blast
  then have "peer_ok H (servers t ! j)" if "j < n" for j using D(3) [OF that] len i by (cases "j = i") (simp_all add: sv)
  moreover have "ae_ok n H (rvs t) c" if "c \<in> set (aes t)" for c
  proof -
    from ae that consider c0 where "c0 \<in> set (aes s)" "aeArgs c = aeArgs c0" "aeFrom c = aeFrom c0" | "ae_ok n H (rvs t) c"
      unfolding old_or_ok_def by blast
    then show ?thesis using ae_ok_mono [OF D(4) el extends_refl] by cases auto
  qed
  moreover have "led n (rvs t) (servers t) T" if "1 \<le> T" "H T \<noteq> []" for T
    unfolding sv by (rule led_step [OF D(5) [OF that] el]) (use i len rf in \<open>simp_all add: tame_def\<close>)
  ultimately show ?thesis using D(1,2) unfolding log_inv_def by blast
qed

section \<open>Steps that change the history\<close>

text \<open>A leader appends a command.\<close>

lemma log_inv_submit:
  assumes inv: "log_inv n H s" and wf: "wf_cluster n s" and vi: "vote_inv s" and i: "i < n"
    and lead: "state (servers s ! i) = Leader" and e: "Term e = currentTerm (servers s ! i)"
    and rf: "log rf = log (servers s ! i) @ [e]" "state rf = Leader" "currentTerm rf = currentTerm (servers s ! i)"
    and t: "servers t = (servers s)[i := rf]" "rvs t = rvs s" "aes t = aes s"
  shows "log_inv n (H(Term e := log rf)) t"
proof -
  let ?T = "Term e" and ?H = "H(Term e := log rf)"
  note D = log_invD [OF inv]
  have len: "length (servers s) = n" using wf_clusterD(1) [OF wf] .
  have p: "1 \<le> ?T" "log (servers s ! i) = H ?T" "coherent H (H ?T)" using D(3) [OF i] lead e D(2) by (auto simp: peer_ok_def)
  have ex: "extends H ?H" by (rule extends_upd) (simp add: rf p)
  have co: "coherent ?H (?H T)" for T
    using coherent_snoc [OF p(3) refl, of e] coherent_extends [OF D(2) ex] by (cases "T = ?T") (simp_all add: rf p(2))
  have "peer_ok ?H (servers t ! j)" if j: "j < n" for j
  proof (cases "j = i")
    case True
    then show ?thesis using co [of ?T] i len p(1) rf e by (simp add: t peer_ok_def)
  next
    case False
    have "currentTerm (servers s ! j) \<noteq> ?T" if "state (servers s ! j) = Leader"
      using elected_unique [OF wf vi leader_elected [OF wf vi i lead] _ i j] leader_elected [OF wf vi j that] False e by auto
    with False D(3) [OF j] coherent_extends [OF _ ex] show ?thesis by (auto simp: t peer_ok_def)
  qed
  moreover have "ae_ok n ?H (rvs t) c" if "c \<in> set (aes t)" for c
    by (rule ae_ok_mono [OF D(4) _ ex]) (use that in \<open>simp_all add: t\<close>)
  moreover have "led n (rvs t) (servers t) T" if T: "1 \<le> T" "?H T \<noteq> []" for T
  proof -
    have "log (servers s ! i) \<noteq> []" using wf_clusterD(4) [OF wf i] by (simp add: wf_raft_def wf_log_def)
    then have "H T \<noteq> []" using T(2) p(2) by (cases "T = ?T") auto
    from D(5) [OF T(1) this] show ?thesis unfolding t(1,2)
      by (rule led_step) (use i len rf lead in \<open>simp_all add: role_step_def\<close>)
  qed
  ultimately show ?thesis using D(1) co p(1) unfolding log_inv_def by simp
qed

text \<open>A candidate wins the election: nobody has led its term before.\<close>

lemma log_inv_win:
  assumes inv: "log_inv n H s" and wf: "wf_cluster n s" and wt: "wf_cluster n t" and vt: "vote_inv t" and i: "i < n"
    and cand: "state (servers s ! i) = Candidate" and T: "T = currentTerm (servers s ! i)"
    and rf: "log rf = log (servers s ! i)" "state rf = Leader" "currentTerm rf = T"
    and el: "\<And>j T. elected n (rvs s) j T \<Longrightarrow> elected n (rvs t) j T"
    and sv: "servers t = (servers s)[i := rf]"
    and ae: "\<And>c. c \<in> set (aes t) \<Longrightarrow> c \<in> set (aes s) \<or> ae_Entries (aeArgs c) = [] \<and> ae_Term (aeArgs c) = 0"
  shows "log_inv n (H(T := log rf)) t"
proof -
  let ?H = "H(T := log rf)"
  note D = log_invD [OF inv]
  have len: "length (servers s) = n" using wf_clusterD(1) [OF wf] .
  have T1: "1 \<le> T" and col: "coherent H (log rf)" using D(3) [OF i] cand T by (auto simp: peer_ok_def rf)
  have eli: "elected n (rvs t) i T" using leader_elected [OF wt vt i] rf i len by (simp add: sv)
  have new: "H T = []"
  proof (rule ccontr)
    assume "H T \<noteq> []"
    from D(5) [OF T1 this] obtain j where j: "j < n" "elected n (rvs s) j T" "\<not> (state (servers s ! j) = Candidate \<and> currentTerm (servers s ! j) = T)"
      unfolding led_def by blast
    from elected_unique [OF wt vt el [OF j(2)] eli j(1) i] j(3) cand T show False by simp
  qed
  have ex: "extends H ?H" by (rule extends_upd) (simp add: new)
  have co: "coherent ?H (?H X)" for X
    using coherent_extends [OF col ex] coherent_extends [OF D(2) ex] by (cases "X = T") simp_all
  have "peer_ok ?H (servers t ! j)" if j: "j < n" for j
  proof (cases "j = i")
    case True
    then show ?thesis using co [of T] i len T1 rf by (simp add: sv peer_ok_def)
  next
    case False
    have "log (servers s ! j) \<noteq> []" using wf_clusterD(4) [OF wf j] by (simp add: wf_raft_def wf_log_def)
    with new False D(3) [OF j] coherent_extends [OF _ ex] show ?thesis by (auto simp: sv peer_ok_def)
  qed
  moreover have "ae_ok n ?H (rvs t) c" if "c \<in> set (aes t)" for c
    using ae [OF that]
  proof
    assume "c \<in> set (aes s)"
    from ae_ok_mono [OF D(4) [OF this] el ex refl refl] show ?thesis .
  qed (simp add: ae_ok_def aligned_def)
  moreover have "led n (rvs t) (servers t) X" if X: "1 \<le> X" "?H X \<noteq> []" for X
  proof (cases "X = T")
    case True
    then show ?thesis using eli i len rf by (auto simp: led_def sv intro!: exI [of _ i])
  next
    case False
    with X D(5) obtain j where j: "j < n" "elected n (rvs s) j X" "X \<le> currentTerm (servers s ! j)"
      "\<not> (state (servers s ! j) = Candidate \<and> currentTerm (servers s ! j) = X)" unfolding led_def by auto
    then have "X \<le> currentTerm (servers t ! j) \<and> \<not> (state (servers t ! j) = Candidate \<and> currentTerm (servers t ! j) = X)"
      using len rf T by (cases "j = i") (simp_all add: sv)
    with j(1) el [OF j(2)] show ?thesis unfolding led_def by blast
  qed
  ultimately show ?thesis using D(1) co T1 unfolding log_inv_def by simp
qed

section \<open>Messages\<close>

lemma heartBeat_aligned:
  assumes wf: "wf_raft rf" and lead: "state rf = Leader" "log rf = H (currentTerm rf)"
    and c: "sendHeartBeats rf = Inr calls" "(p, args) \<in> set calls"
  shows "aligned H args \<and> ae_Term args = currentTerm rf"
proof -
  from heartBeats_wf [OF wf lead(1), of "others rf"] obtain calls' where c': "heartBeats rf (others rf) = Inr calls'"
    "map fst calls' = others rf" "\<And>p args. (p, args) \<in> set calls' \<Longrightarrow> heartBeatArgs rf p = Inr args"
    by (auto simp: others_def)
  have "calls' = calls" using c(1) c'(1) lead(1) by (simp add: sendHeartBeats_def)
  with c(2) c'(2,3) have "heartBeatArgs rf p = Inr args" "p \<in> set (others rf)" by (blast, metis fst_conv image_eqI set_map)
  then have p: "p < peers rf" by (simp add: others_def)
  from heartBeatArgs_wf [OF wf lead(1) p] obtain args' where a: "heartBeatArgs rf p = Inr args'" "wf_ae args'" "ae_Term args' = currentTerm rf"
    "ae_PrevLogIndex args' = nextIndex rf ! p - 1"
    "nextIndex rf ! p < slen (log rf) \<Longrightarrow> ae_PrevLogTerm args' = Term (log rf ! nat (ae_PrevLogIndex args')) \<and> ae_Entries args' = drop (nat (nextIndex rf ! p)) (log rf)"
    "nextIndex rf ! p \<ge> slen (log rf) \<Longrightarrow> ae_Entries args' = []" by metis
  have eq: "args' = args" using a(1) \<open>heartBeatArgs rf p = Inr args\<close> by simp
  have ni: "1 \<le> nextIndex rf ! p" using a(2,4) by (simp add: wf_ae_def)
  show ?thesis
  proof (cases "nextIndex rf ! p < slen (log rf)")
    case True
    have "Suc (nat (nextIndex rf ! p - 1)) = nat (nextIndex rf ! p)" using ni by simp
    then show ?thesis using a(3,4) a(5) [OF True] True ni by (auto simp: aligned_def Let_def eq lead(2) slen_def)
  next
    case False
    then show ?thesis using a(3,6) by (simp add: aligned_def eq)
  qed
qed

lemma AppendEntries_tame:
  assumes H: "\<And>T. coherent H (H T)" and rf: "wf_raft rf" "coherent H (log rf)" and a: "wf_ae args" "aligned H args"
    and lead: "state rf = Leader \<Longrightarrow> ae_Term args \<noteq> currentTerm rf" and r: "AppendEntries rf args = Inr (rf', reply)"
  shows "tame H rf rf'"
proof (rule quiet_tame)
  show q: "quiet_step rf rf'" by (rule AppendEntries_quiet [OF a(1) r])
  show "log rf' = log rf \<or> coherent H (log rf') \<and> state rf' \<noteq> Leader"
  proof (cases "ae_Term args < currentTerm rf")
    case True
    with r show ?thesis by (simp add: AppendEntries_stale)
  next
    case False
    have p0: "0 \<le> ae_PrevLogIndex args" using a(1) by (simp add: wf_ae_def)
    from r False p0 have l: "log rf' = log rf \<or> log rf' = take (nat (ae_PrevLogIndex args)) (log rf)
        \<or> log rf' = spliced rf args \<and> ae_PrevLogIndex args < slen (log rf) \<and> ae_PrevLogTerm args = Term (log rf ! nat (ae_PrevLogIndex args))"
      and tm: "currentTerm rf' = ae_Term args"
      by (auto simp: AppendEntries_result Let_def go_bind_eq_Inr split: if_splits dest!: applyLoop_quiet)
    have "coherent H (log rf')"
      using l rf(2) coherent_take [OF rf(2)] aligned_splice [OF H rf(2) a(2)] p0 by (auto simp: spliced_def slen_def)
    moreover have "state rf' \<noteq> Leader" using q lead tm by (auto simp: quiet_step_def)
    ultimately show ?thesis by blast
  qed
qed

section \<open>Log matching\<close>

lemma log_inv_init: "log_inv n (\<lambda>T. if T = 0 then [\<lparr>Term = 0, Command = None\<rparr>] else []) (init_cluster n)"
  by (auto simp: log_inv_def coherent_def peer_ok_def init_cluster_def newServer_eq)

lemma old_or_ok_same: "aes t = aes s \<Longrightarrow> old_or_ok n H s t"
  by (auto simp: old_or_ok_def)

lemma old_or_ok_upd:
  assumes "aes t = (aes s)[k := (aes s ! k)\<lparr>aeStatus := st\<rparr>]" "k < length (aes s)"
  shows "old_or_ok n H s t"
  unfolding old_or_ok_def
proof (intro ballI disjI1)
  fix c assume "c \<in> set (aes t)"
  then have "c = (aes s ! k)\<lparr>aeStatus := st\<rparr> \<or> c \<in> set (aes s)" using set_update_subset_insert assms(1) by fastforce
  then show "\<exists>c0\<in>set (aes s). aeArgs c = aeArgs c0 \<and> aeFrom c = aeFrom c0" using assms(2) by (auto intro: bexI [of _ "aes s ! k"])
qed

lemma heartBeats_ok:
  assumes inv: "log_inv n H s" and wf: "wf_cluster n s" and vi: "vote_inv s" and i: "i < n"
    and c: "sendHeartBeats (servers s ! i) = Inr calls" "pa \<in> set calls"
  shows "ae_ok n H (rvs s) (newAE i pa)"
proof -
  have lead: "state (servers s ! i) = Leader" using c by (auto simp: sendHeartBeats_def split: if_splits)
  moreover from this have "log (servers s ! i) = H (currentTerm (servers s ! i))" using log_invD(3) [OF inv i] by (simp add: peer_ok_def)
  ultimately have "aligned H (snd pa) \<and> ae_Term (snd pa) = currentTerm (servers s ! i)"
    using heartBeat_aligned [OF wf_clusterD(4) [OF wf i] _ _ c(1), of H "fst pa" "snd pa"] c(2) by simp
  with leader_elected [OF wf vi i lead] show ?thesis by (simp add: ae_ok_def newAE_def)
qed

text \<open>A leader receives no entries of its own term from another peer.\<close>

lemma no_rival:
  assumes inv: "log_inv n H s" and wf: "wf_cluster n s" and vi: "vote_inv s" and c: "c \<in> set (aes s)"
    and a: "aeTo c < n" "aeFrom c < n" "aeFrom c \<noteq> aeTo c" and lead: "state (servers s ! aeTo c) = Leader"
  shows "ae_Term (aeArgs c) \<noteq> currentTerm (servers s ! aeTo c)"
proof
  assume T: "ae_Term (aeArgs c) = currentTerm (servers s ! aeTo c)"
  with log_invD(3) [OF inv a(1)] log_invD(4) [OF inv c] lead
  have "elected n (rvs s) (aeFrom c) (currentTerm (servers s ! aeTo c))" by (auto simp: peer_ok_def ae_ok_def)
  from elected_unique [OF wf vi this leader_elected [OF wf vi a(1) lead] a(2,1)] a(3) show False by simp
qed

text \<open>Submissions and counted votes, with the history they give.\<close>

lemma submit_inv:
  assumes inv: "log_inv n H s" and wf: "wf_cluster n s" and vi: "vote_inv s" and i: "i < n"
    and r: "Start (servers s ! i) c = Inr (rf, res)" and t: "t = s\<lparr>servers := (servers s)[i := rf]\<rparr>"
  shows "\<exists>H'. log_inv n H' t"
proof (cases "state (servers s ! i) = Leader")
  case True
  let ?e = "\<lparr>Term = currentTerm (servers s ! i), Command = c\<rparr>"
  have "log_inv n (H(Term ?e := log rf)) t"
    by (rule log_inv_submit [OF inv wf vi i True]) (use r t Start_result [OF wf_clusterD(4) [OF wf i], of c] True in auto)
  then show ?thesis by blast
next
  case False
  with r have "rf = servers s ! i" using Start_result [OF wf_clusterD(4) [OF wf i], of c] by simp
  with inv t show ?thesis by (auto simp: log_inv_def)
qed

lemma returnRV_inv:
  assumes inv: "log_inv n H s" and wf: "wf_cluster n s" and wt: "wf_cluster n t" and vt: "vote_inv t" and i: "i < n"
    and el: "\<And>j T. elected n (rvs s) j T \<Longrightarrow> elected n (rvs t) j T"
    and r: "sendRequestVote (servers s ! i) (Some r) = (rf, calls)"
    and t: "servers t = (servers s)[i := rf]" "aes t = aes s @ map (newAE i) calls"
  shows "\<exists>H'. log_inv n H' t"
proof (cases "state rf = Leader \<and> state (servers s ! i) = Candidate")
  case True
  then have c: "log rf = log (servers s ! i)" "currentTerm rf = currentTerm (servers s ! i)"
    "\<And>pa. pa \<in> set calls \<Longrightarrow> ae_Entries (snd pa) = [] \<and> ae_Term (snd pa) = 0"
    using r by (auto simp: sendRequestVote_def Let_def zeroAppendEntriesArgs_def split: if_splits)
  have "log_inv n (H(currentTerm (servers s ! i) := log rf)) t"
    by (rule log_inv_win [OF inv wf wt vt i]) (use t True c el in \<open>auto simp: newAE_def\<close>)
  then show ?thesis by blast
next
  case False
  have "tame H (servers s ! i) rf" "calls = []"
    using r False by (auto simp: sendRequestVote_def Let_def tame_def role_step_def split: if_splits)
  then have "log_inv n H t" by (intro log_inv_tame [OF inv wf i _ el, of rf]) (use t in \<open>simp_all add: old_or_ok_same\<close>)
  then show ?thesis by blast
qed

lemma log_inv_step:
  assumes inv: "log_inv n H s" and wf: "wf_cluster n s" and vi: "vote_inv s" and st: "vstep s l t"
    and wt: "wf_cluster n t" and vt: "vote_inv t"
  shows "\<exists>H'. log_inv n H' t"
proof -
  have ex: "exec s l = Next t" and sc: "saved_crash s l" using st by (auto simp: vstep_def cstep_def)
  note D = log_invD [OF inv] and w = wf_clusterD [OF wf] and el = elected_step [OF ex]
  note tm = log_inv_tame [OF inv wf _ _ el]
  show ?thesis
    using ex
  proof (cases rule: exec_cases)
    case (Tick i)
    have "log_inv n H t" by (rule tm [of i "persist (servers s ! i)"])
        (use Tick w(1) in \<open>simp_all add: tame_def role_step_def persist_def Let_def old_or_ok_same\<close>)
    then show ?thesis by blast
  next
    case (Beats i calls)
    have i: "i < n" using Beats w(1) by simp
    have "old_or_ok n H s t" using heartBeats_ok [OF inv wf vi i Beats(4)] Beats by (auto simp: old_or_ok_def)
    then have "log_inv n H t" by (intro tm [OF i, of "servers s ! i"]) (use Beats in simp_all)
    then show ?thesis by blast
  next
    case (Candidacy i rf calls)
    have i: "i < n" using Candidacy w(1) by simp
    have "tame H (servers s ! i) rf" using Candidacy(4) w(4) [OF i] by (auto simp: becomeCandidate_result tame_def role_step_def)
    then have "log_inv n H t" by (intro tm [OF i, of rf]) (use Candidacy in \<open>simp_all add: old_or_ok_same\<close>)
    then show ?thesis by blast
  next
    case (RecvVote i k r)
    have "log_inv n H t" by (rule tm [of i "servers s ! i"]) (use RecvVote w(1) in \<open>simp_all add: old_or_ok_same\<close>)
    then show ?thesis by blast
  next
    case (RecvBeat i k r)
    have "old_or_ok n H s t" by (rule old_or_ok_upd [of t s k]) (use RecvBeat in simp_all)
    then have "log_inv n H t" by (intro tm [of i "servers s ! i"]) (use RecvBeat w(1) in simp_all)
    then show ?thesis by blast
  next
    case (Submit i c rf res)
    have i: "i < n" using Submit w(1) by simp
    show ?thesis by (rule submit_inv [OF inv wf vi i]) (use Submit in simp_all)
  next
    case (DeliverRV k c rf r)
    have i: "rvTo c < n" using w(7) [of k] DeliverRV by (simp add: wf_rv_def)
    have "tame H (servers s ! rvTo c) rf"
      using DeliverRV(5) w(4) [OF i] by (auto simp: RequestVote_result Let_def tame_def role_step_def split: if_splits)
    then have "log_inv n H t" by (intro tm [OF i, of rf]) (use DeliverRV in \<open>simp_all add: old_or_ok_same\<close>)
    then show ?thesis by blast
  next
    case (ReturnRV k c r rf calls)
    let ?i = "rvFrom c"
    have i: "?i < n" using w(7) [of k] ReturnRV by (simp add: wf_rv_def)
    show ?thesis by (rule returnRV_inv [OF inv wf wt vt i el]) (use ReturnRV in simp_all)
  next
    case (DeliverAE k c rf r)
    let ?i = "aeTo c"
    have c: "c \<in> set (aes s)" using DeliverAE by auto
    have a: "?i < n" "aeFrom c < n" "aeFrom c \<noteq> ?i" "wf_ae (aeArgs c)" using w(8) [of k] DeliverAE by (auto simp: wf_aec_def)
    have "tame H (servers s ! ?i) rf"
      by (rule AppendEntries_tame [OF D(2) w(4) [OF a(1)] _ a(4) _ no_rival [OF inv wf vi c a(1-3)] DeliverAE(5)])
         (use D(3) [OF a(1)] D(4) [OF c] in \<open>auto simp: peer_ok_def ae_ok_def\<close>)
    moreover have "old_or_ok n H s t" by (rule old_or_ok_upd [of t s k]) (use DeliverAE in simp_all)
    ultimately have "log_inv n H t" by (intro tm [OF a(1), of rf]) (use DeliverAE in simp_all)
    then show ?thesis by blast
  next
    case (ReturnAE k c r rf)
    have i: "aeFrom c < n" using w(8) [of k] ReturnAE by (simp add: wf_aec_def)
    have "old_or_ok n H s t" by (rule old_or_ok_upd [of t s k]) (use ReturnAE in simp_all)
    moreover have "tame H (servers s ! aeFrom c) rf" using sendAppendEntries_quiet [OF ReturnAE(5)] by (intro quiet_tame) simp_all
    ultimately have "log_inv n H t" by (intro tm [OF i, of rf]) (use ReturnAE in simp_all)
    then show ?thesis by blast
  next
    case (Kill i)
    have "log_inv n H t" by (rule tm [of i "Kill (servers s ! i)"])
        (use Kill w(1) in \<open>simp_all add: tame_def role_step_def Kill_def old_or_ok_same\<close>)
    then show ?thesis by blast
  next
    case (Crash i rf)
    then have sv: "saved (servers s ! i)" using sc by (simp add: saved_crash_def)
    have "old_or_ok n H s t" using Crash by (force simp: old_or_ok_def loseAE_def split: status.splits)
    moreover have "tame H (servers s ! i) rf" using saved_restart [OF sv Crash(3)] by (simp add: tame_def role_step_def)
    ultimately have "log_inv n H t" by (intro tm [of i rf]) (use Crash w(1) in simp_all)
    then show ?thesis by blast
  qed
qed

lemma vreach_log_inv: "vreach n s \<Longrightarrow> \<exists>H. log_inv n H s"
proof (induction rule: reachable_invariant)
  case (step s l t)
  then have "vreach n t" by (auto intro: reachable_step)
  with step show ?case using vreach_inv [of n s] vreach_inv [of n t] log_inv_step by blast
qed (use log_inv_init in blast)

text \<open>The logs of two peers.\<close>

lemma logs_match:
  assumes "vreach n s" "i < n" "j < n" "k < length (log (servers s ! i))" "k < length (log (servers s ! j))"
    and "Term (log (servers s ! i) ! k) = Term (log (servers s ! j) ! k)"
  shows "take (Suc k) (log (servers s ! i)) = take (Suc k) (log (servers s ! j))"
proof -
  from vreach_log_inv [OF assms(1)] obtain H where "log_inv n H s" by blast
  from log_invD(3) [OF this] assms(2,3) have "coherent H (log (servers s ! i))" "coherent H (log (servers s ! j))"
    by (auto simp: peer_ok_def)
  from coherent_agree [OF this assms(4-6)] show ?thesis .
qed

end
