(* ===== verification/Raft_Safety.thy ===== *)
theory Raft_Safety
  imports Raft_Log
begin

text \<open>
  What the Raft implementation guarantees, and two schedules that show where it stops. The properties
  of one peer hold in every state the cluster can reach; those of elections hold for the schedules in
  which no stale vote is counted and no peer crashes with unsaved state.
\<close>

section \<open>Concrete schedules\<close>

text \<open>\<open>run\<close> restricted to the steps of \<open>vstep\<close>.\<close>

fun vrun :: "'c cluster \<Rightarrow> 'c label list \<Rightarrow> 'c cluster option" where
  "vrun s [] = Some s"
| "vrun s (l # ls) = (if fresh_vote s l \<and> saved_crash s l
     then (case exec s l of Next t \<Rightarrow> vrun t ls | _ \<Rightarrow> None) else None)"

lemma vrun_vreach: "vrun s ls = Some t \<Longrightarrow> vreach n s \<Longrightarrow> vreach n t"
proof (induction ls arbitrary: s)
  case (Cons l ls)
  then obtain u where u: "exec s l = Next u" "fresh_vote s l" "saved_crash s l" "vrun u ls = Some t"
    by (auto split: outcome.splits if_splits)
  then have "vstep s l u" by (simp add: vstep_def cstep_def)
  from reachable_step [OF Cons.prems(2) this] u(4) Cons.IH show ?case by blast
qed simp

lemma run_init_reach: "run (init_cluster n) ls = Some t \<Longrightarrow> reach n t"
  by (rule run_reach) (auto intro: reachable_init)

lemma vrun_init_vreach: "vrun (init_cluster n) ls = Some t \<Longrightarrow> vreach n t"
  by (rule vrun_vreach) (auto intro: reachable_init)

text \<open>Peer 0 stands for election, peer 1 votes for it, it becomes leader and takes a command.\<close>

definition electSchedule :: "nat label list" where
  "electSchedule = [Tick 0, Timeout 0, Tick 1, DeliverRV 0, RecvVote 1 0, ReturnRV 0, Submit 0 (Some 7)]"

definition electState :: "nat cluster" where
  "electState = the (vrun (init_cluster 3) electSchedule)"

lemma electState_run: "vrun (init_cluster 3) electSchedule = Some electState"
  unfolding electState_def electSchedule_def by code_simp

lemma electState_vreach: "vreach 3 electState"
  by (rule vrun_init_vreach [OF electState_run])

lemma electState_roles: "map (\<lambda>rf. (state rf, currentTerm rf)) (servers electState) = [(Leader, 1), (Follower, 1), (Follower, 0)]"
  unfolding electState_def electSchedule_def by code_simp

lemma electState_reach: "reach 3 electState"
proof -
  have "run (init_cluster 3) electSchedule = Some electState" 
    unfolding electState_def electSchedule_def by code_simp
  then show ?thesis by (rule run_init_reach)
qed


section \<open>Election safety\<close>

text \<open>C1: Election safety. In every state the cluster reaches by steps that count no stale vote and
  crash no peer with unsaved state, two leaders of the same term are the same peer.\<close>

theorem election_safety:
  assumes "vreach n s" "i < n" "j < n"
    and "state (servers s ! i) = Leader" "state (servers s ! j) = Leader"
    and "currentTerm (servers s ! i) = currentTerm (servers s ! j)"
  shows "i = j"
proof -
  from vreach_inv [OF assms(1)] have wf: "wf_cluster n s" and inv: "vote_inv s" by auto
  with assms have el: "elected n (rvs s) i (currentTerm (servers s ! i))" "elected n (rvs s) j (currentTerm (servers s ! j))"
    using wf_clusterD(1) [OF wf] unfolding vote_inv_def counts_ok_def by blast+
  from elected_unique [OF wf inv el(1) el(2) [folded assms(6)] assms(2,3)] show ?thesis .
qed

theorem election_safety_witness:
  "vreach 3 electState \<and> state (servers electState ! 0) = Leader \<and> (0::nat) = 0"
proof -
  have "state (servers electState ! 0) = Leader" unfolding electState_def electSchedule_def by code_simp
  with election_safety [OF electState_vreach, of 0 0] electState_vreach show ?thesis by simp
qed

text \<open>
  The reply to the vote request of term 1 arrives when peer 0 is a candidate in term 2.
\<close>

definition staleVoteSchedule :: "nat label list" where
  "staleVoteSchedule = [Tick 0, Timeout 0, Tick 1, DeliverRV 0, RecvVote 1 0, Tick 0, Timeout 0,
     Tick 2, Timeout 2, Tick 2, Timeout 2, DeliverRV 7, Tick 1, RecvVote 1 7, ReturnRV 7, ReturnRV 0]"

text \<open>C10: The first condition is needed: \<open>sendRequestVote\<close> does not compare the term of the request
  with its own, so a vote of term 1 is counted in term 2 and a cluster of three gets two leaders
  of term 2, without any crash and without any lost message.\<close>

theorem stale_vote_two_leaders:
  "map_option (\<lambda>s. map (\<lambda>rf. (state rf, currentTerm rf)) (servers s)) (run (init_cluster 3) staleVoteSchedule)
     = Some [(Leader, 2), (Follower, 2), (Leader, 2)]"
  unfolding staleVoteSchedule_def by code_simp

text \<open>Peer 1 votes for peer 0 in term 1, crashes before its ticker persists the vote, and votes for peer 2.\<close>

definition lostVoteSchedule :: "nat label list" where
  "lostVoteSchedule = [Tick 0, Timeout 0, Tick 1, DeliverRV 0, RecvVote 1 0, ReturnRV 0, Crash 1,
     Tick 2, Timeout 2, Tick 1, DeliverRV 3, RecvVote 1 3, ReturnRV 3]"

text \<open>C11: The second condition is needed: \<open>RequestVote\<close> answers before the vote is persisted (only the
  ticker calls \<open>persist\<close>), so a peer that crashes and restarts votes twice in term 1 and a cluster of three
  gets two leaders of term 1, with every vote counted in its own term.\<close>

theorem unsaved_vote_two_leaders:
  "map_option (\<lambda>s. map (\<lambda>rf. (state rf, currentTerm rf)) (servers s)) (run (init_cluster 3) lostVoteSchedule)
     = Some [(Leader, 1), (Follower, 1), (Leader, 1)]"
  unfolding lostVoteSchedule_def by code_simp

section \<open>Log matching\<close>

text \<open>C2: Log matching. In the same runs, if two peers have an entry of the same term at the same index of their logs, then the
  logs are equal up to and including that index.\<close>

theorem log_matching:
  assumes "vreach n s" "i < n" "j < n" "k < length (log (servers s ! i))" "k < length (log (servers s ! j))"
    and "Term (log (servers s ! i) ! k) = Term (log (servers s ! j) ! k)"
  shows "take (Suc k) (log (servers s ! i)) = take (Suc k) (log (servers s ! j))"
  using assms by (rule logs_match)

text \<open>The leader of \<open>electState\<close> sends its command to peer 1.\<close>

definition copySchedule :: "nat label list" where
  "copySchedule = electSchedule @ [Tick 0, Timeout 0, DeliverAE 2]"

definition copyState :: "nat cluster" where
  "copyState = the (vrun (init_cluster 3) copySchedule)"

theorem log_matching_witness:
  "length (log (servers copyState ! 0)) = 2 \<and> length (log (servers copyState ! 1)) = 2
   \<and> take (Suc 1) (log (servers copyState ! 0)) = take (Suc 1) (log (servers copyState ! 1))"
proof -
  have "vrun (init_cluster 3) copySchedule = Some copyState"
    unfolding copyState_def copySchedule_def electSchedule_def by code_simp
  then have r: "vreach 3 copyState" by (rule vrun_init_vreach)
  have l: "length (log (servers copyState ! 0)) = 2" "length (log (servers copyState ! 1)) = 2"
    "Term (log (servers copyState ! 0) ! 1) = Term (log (servers copyState ! 1) ! 1)"
    unfolding copyState_def copySchedule_def electSchedule_def by code_simp+
  with log_matching [OF r, of 0 1 1] show ?thesis by simp
qed

section \<open>One peer\<close>

text \<open>C3: No step of a reachable cluster panics: no handler, goroutine or restart of any peer indexes its
  log, \<open>nextIndex\<close> or \<open>matchIndex\<close> out of range, whatever is lost, delayed, reordered or crashed, and
  the persisted state can always be decoded.\<close>

theorem cluster_no_panic:
  assumes "reach n s" shows "exec s l \<noteq> Panicked e"
  using exec_no_panic reach_wf assms by blast

theorem cluster_no_panic_witness:
  "reach 3 electState \<and> exec electState (Crash 1) \<noteq> Panicked IndexOutOfRange"
  using cluster_no_panic [OF electState_reach, of "Crash 1" IndexOutOfRange] electState_reach by simp

text \<open>C4: In every reachable state the messages each peer has sent on its \<open>applyCh\<close> carry the indices
  1, 2, ..., \<open>lastApplied\<close> in this order, with no gap and no repetition, and its log starts with the
  entry of term 0, has ascending terms, and no entry newer than its current term.\<close>

theorem applied_in_order:
  assumes "reach n s" "i < n"
  defines "rf \<equiv> servers s ! i"
  shows "map CommandIndex (applyCh rf) = [1..lastApplied rf]
    \<and> log rf \<noteq> [] \<and> Term (log rf ! 0) = 0 \<and> sorted (map Term (log rf))
    \<and> (\<forall>e\<in>set (log rf). Term e \<le> currentTerm rf)"
  using wf_clusterD(4) [OF reach_wf [OF assms(1)] assms(2)] by (simp add: rf_def wf_raft_def wf_log_def)

theorem applied_in_order_witness:
  "reach 3 electState \<and> sorted (map Term (log (servers electState ! 0)))
     \<and> map CommandIndex (applyCh (servers electState ! 0)) = [1..lastApplied (servers electState ! 0)]"
  using applied_in_order [OF electState_reach, of 0] electState_reach by simp

lemma vote_keep_refl [simp]: "vote_keep rf rf"
  by (simp add: vote_keep_def)

lemma vote_keep_upd: "vote_keep (sv ! j) rf \<Longrightarrow> vote_keep (sv ! i) (sv[j := rf] ! i)"
  by (cases "i = j"; cases "j < length sv") (simp_all add: list_update_beyond)

lemma exec_vote_keep:
  assumes wf: "wf_cluster n s" and st: "exec s l = Next t" and i: "i < n" and l: "l \<noteq> Crash i"
  shows "vote_keep (servers s ! i) (servers t ! i)"
  using st
proof (cases rule: exec_cases)
  case (Tick j)
  then show ?thesis by (auto simp: persist_def Let_def intro!: vote_keep_upd, simp add: vote_keep_def)
next
  case (Candidacy j rf calls)
  then have "vote_keep (servers s ! j) rf"
    using wf_clusterD(1,4) [OF wf] by (auto simp: becomeCandidate_result vote_keep_def)
  with Candidacy show ?thesis by (simp add: vote_keep_upd)
next
  case (Submit j c rf res)
  then have "vote_keep (servers s ! j) rf"
    using wf_clusterD(1,4) [OF wf] by (auto simp: Start_result vote_keep_def split: if_splits)
  with Submit show ?thesis by (simp add: vote_keep_upd)
next
  case (DeliverRV k c rf r)
  then have "vote_keep (servers s ! rvTo c) rf"
    using wf_clusterD(4,7) [OF wf] by (auto simp: wf_rv_def intro!: vote_step_keep RequestVote_vote_step)
  with DeliverRV show ?thesis by (simp add: vote_keep_upd)
next
  case (ReturnRV k c r rf calls)
  then have "vote_keep (servers s ! rvFrom c) rf" using sendRequestVote_vote_step(1) vote_step_keep by blast
  with ReturnRV show ?thesis by (simp add: vote_keep_upd)
next
  case (DeliverAE k c rf r)
  then have "vote_keep (servers s ! aeTo c) rf"
    using wf_clusterD(8) [OF wf] by (auto simp: wf_aec_def intro!: vote_step_keep quiet_vote_step AppendEntries_quiet)
  with DeliverAE show ?thesis by (simp add: vote_keep_upd)
next
  case (ReturnAE k c r rf)
  then have "vote_keep (servers s ! aeFrom c) rf"
    using sendAppendEntries_quiet(1) quiet_vote_step vote_step_keep by blast
  with ReturnAE show ?thesis by (simp add: vote_keep_upd)
next
  case (Crash j rf)
  with l show ?thesis by (cases "i = j") simp_all
qed (auto simp: Kill_def vote_keep_def [of rf "rf\<lparr>dead := 1\<rparr>" for rf] intro!: vote_keep_upd)

text \<open>C8: Terms never go back and votes are kept: over a step of a reachable cluster that is not its own crash,
  a peer's term stays or grows, and while the term stays a vote it has cast does not change.\<close>

theorem term_monotone_vote_kept:
  assumes "reach n s" "cstep s l t" "i < n" "l \<noteq> Crash i"
  shows "currentTerm (servers s ! i) \<le> currentTerm (servers t ! i)
    \<and> (currentTerm (servers t ! i) = currentTerm (servers s ! i) \<longrightarrow> votedFor (servers s ! i) \<noteq> -1
       \<longrightarrow> votedFor (servers t ! i) = votedFor (servers s ! i))"
  using exec_vote_keep [OF reach_wf [OF assms(1)], of l t i] assms(2-4) by (auto simp: cstep_def vote_keep_def)

theorem term_monotone_vote_kept_witness:
  "reach 3 electState \<and> cstep electState (KillServer 0) (electState\<lparr>servers := (servers electState)[0 := Kill (servers electState ! 0)]\<rparr>)
     \<and> votedFor ((servers electState)[0 := Kill (servers electState ! 0)] ! 0) = votedFor (servers electState ! 0)"
proof -
  let ?t = "electState\<lparr>servers := (servers electState)[0 := Kill (servers electState ! 0)]\<rparr>"
  have "length (servers electState) = 3" using wf_clusterD(1) [OF reach_wf [OF electState_reach]] .
  then have st: "cstep electState (KillServer 0) ?t" by (simp add: cstep_def killServer_def)
  moreover have "votedFor (servers electState ! 0) \<noteq> -1" unfolding electState_def electSchedule_def by code_simp
  moreover have "currentTerm (servers ?t ! 0) = currentTerm (servers electState ! 0)"
    unfolding electState_def electSchedule_def by code_simp
  ultimately show ?thesis
    using term_monotone_vote_kept [OF electState_reach st, of 0] electState_reach by simp
qed


lemmas elect_wf = wf_clusterD(4) [OF reach_wf [OF electState_reach]]

text \<open>C7: \<open>RequestVote\<close> always returns. It grants the vote exactly when the request is not of an older
  term, the peer has not voted for another candidate in that term, and the candidate's log is at
  least as up to date: its last term is newer, or equal with a last index not smaller. It then
  remembers the candidate; in any case it moves to the term of the request if that is newer, and it never
  touches its log.\<close>

theorem RequestVote_spec:
  assumes "wf_raft rf"
  shows "\<exists>rf' reply. RequestVote rf args = Inr (rf', reply)
    \<and> (rvr_VoteGranted reply \<longleftrightarrow> currentTerm rf \<le> rv_Term args
        \<and> (currentTerm rf < rv_Term args \<or> votedFor rf = -1 \<or> votedFor rf = rv_CandidateId args)
        \<and> (Term (last (log rf)) < rv_LastLogTerm args
            \<or> Term (last (log rf)) = rv_LastLogTerm args \<and> slen (log rf) - 1 \<le> rv_LastLogIndex args))
    \<and> votedFor rf' = (if rvr_VoteGranted reply then rv_CandidateId args
        else if currentTerm rf < rv_Term args then -1 else votedFor rf)
    \<and> currentTerm rf' = max (currentTerm rf) (rv_Term args)
    \<and> state rf' = (if currentTerm rf < rv_Term args then Follower else state rf)
    \<and> log rf' = log rf"
  using assms by (auto simp: RequestVote_result Let_def candidateUpToDate_def)

theorem RequestVote_spec_witness:
  "wf_raft (servers electState ! 2)
   \<and> (\<exists>rf' reply. RequestVote (servers electState ! 2)
        \<lparr>rv_Term = 2, rv_CandidateId = 1, rv_LastLogIndex = 0, rv_LastLogTerm = 0\<rparr> = Inr (rf', reply)
      \<and> rvr_VoteGranted reply \<and> votedFor rf' = 1)"
proof -
  let ?rf = "servers electState ! 2"
  have "currentTerm ?rf = 0" "Term (last (log ?rf)) = 0" "slen (log ?rf) = 1"
    unfolding electState_def electSchedule_def by code_simp+
  with RequestVote_spec [OF elect_wf [of 2],
      of "\<lparr>rv_Term = 2, rv_CandidateId = 1, rv_LastLogIndex = 0, rv_LastLogTerm = 0\<rparr>"] elect_wf [of 2]
  show ?thesis by auto
qed

text \<open>C6: \<open>AppendEntries\<close> always returns. It succeeds exactly when the message is not of an older term and the
  log has an entry of the given term at \<open>PrevLogIndex\<close>; then the log becomes its prefix up to that entry followed by
  the entries of the message, the commit index is raised to the leader's as far as the log reaches, and the
  entries up to it that were not applied yet are sent on \<open>applyCh\<close>. A conflicting entry is removed with all
  that follow it; otherwise the log is left alone.\<close>

theorem AppendEntries_spec:
  assumes "wf_raft rf" "wf_ae args"
  defines "prev \<equiv> nat (ae_PrevLogIndex args)"
  shows "\<exists>rf' reply. AppendEntries rf args = Inr (rf', reply)
    \<and> aer_Term reply = max (currentTerm rf) (ae_Term args) \<and> currentTerm rf' = aer_Term reply
    \<and> (aer_Success reply \<longleftrightarrow> currentTerm rf \<le> ae_Term args \<and> prev < length (log rf)
         \<and> Term (log rf ! prev) = ae_PrevLogTerm args)
    \<and> log rf' = (if aer_Success reply then take (Suc prev) (log rf) @ ae_Entries args
                 else if currentTerm rf \<le> ae_Term args then take prev (log rf) else log rf)
    \<and> commitIndex rf' = (if aer_Success reply \<and> commitIndex rf < ae_LeaderCommit args
         then min (ae_LeaderCommit args) (slen (log rf') - 1) else commitIndex rf)
    \<and> applyCh rf' = applyCh rf @ (if aer_Success reply \<and> commitIndex rf < ae_LeaderCommit args
         then map (entryMsg (log rf')) [lastApplied rf + 1..commitIndex rf'] else [])"
proof (cases "ae_Term args < currentTerm rf")
  case True
  then show ?thesis by (simp add: AppendEntries_stale)
next
  case False
  have prev: "0 \<le> ae_PrevLogIndex args" "0 \<le> lastApplied rf + 1" using assms(1,2) by (auto simp: wf_ae_def wf_raft_def)
  have le: "ae_PrevLogIndex args < slen l \<longleftrightarrow> prev < length l" "slen l \<le> ae_PrevLogIndex args \<longleftrightarrow> length l \<le> prev"
    for l :: "'a LogEntry list" using prev by (auto simp: prev_def slen_def)
  show ?thesis
  proof (cases "prev < length (log rf) \<and> Term (log rf ! prev) = ae_PrevLogTerm args")
    case True
    have ne: "spliced rf args \<noteq> []" using True by (auto simp: spliced_def)
    have "take (Suc prev) (log rf) @ ae_Entries args = spliced rf args" by (simp add: spliced_def prev_def)
    with ne True False prev show ?thesis
      by (auto simp: AppendEntries_result Let_def le applyLoop_result prev_def [symmetric] max_def)
  next
    case no: False
    with False prev show ?thesis
      by (auto simp: AppendEntries_result Let_def le prev_def [symmetric] max_def)
  qed
qed


theorem AppendEntries_spec_witness:
  "\<exists>rf' reply. AppendEntries (servers electState ! 1) \<lparr>ae_Term = 1, ae_LeaderId = 0, ae_PrevLogIndex = 0,
      ae_PrevLogTerm = 0, ae_Entries = [\<lparr>Term = 1, Command = Some 7\<rparr>], ae_LeaderCommit = 1\<rparr> = Inr (rf', reply)
    \<and> aer_Success reply \<and> length (log rf') = 2 \<and> commitIndex rf' = 1"
proof -
  let ?rf = "servers electState ! 1"
  let ?args = "\<lparr>ae_Term = 1, ae_LeaderId = 0, ae_PrevLogIndex = 0, ae_PrevLogTerm = 0,
      ae_Entries = [\<lparr>Term = 1, Command = Some (7::nat)\<rparr>], ae_LeaderCommit = 1\<rparr>"
  have "currentTerm ?rf = 1" "length (log ?rf) = 1" "Term (log ?rf ! 0) = 0" "commitIndex ?rf = 0"
    unfolding electState_def electSchedule_def by code_simp+
  moreover have "wf_ae ?args" by (simp add: wf_ae_def)
  ultimately show ?thesis using AppendEntries_spec [OF elect_wf [of 1], of ?args] by (auto simp: slen_def)
qed

text \<open>C5: The commit rule. After a successful reply the leader's commit index is the highest index, not below the
  old one, that holds an entry of its own term and is reached by the \<open>matchIndex\<close> of more than half of the
  peers; if there is none it keeps its value. The commit index of a leader never goes back here, and
  everything up to a newly found index is applied.\<close>

theorem commit_rule:
  assumes wf: "wf_raft rf" and "state rf = Leader" "server < peers rf"
    and "wf_ae args" "aer_Success reply" "aer_Term reply \<le> currentTerm rf"
  defines "m \<equiv> slen (ae_Entries args) + ae_PrevLogIndex args"
  defines "rf1 \<equiv> rf\<lparr>matchIndex := (matchIndex rf)[server := m], nextIndex := (nextIndex rf)[server := m + 1]\<rparr>"
  shows "\<exists>rf'. sendAppendEntries rf (int server) args (Some reply) = Inr rf'
    \<and> commitIndex rf \<le> commitIndex rf' \<and> matchIndex rf' = matchIndex rf1
    \<and> (\<forall>N. commitIndex rf \<le> N \<and> N < slen (log rf) \<and> committable rf1 N \<longrightarrow> N \<le> commitIndex rf')
    \<and> (commitIndex rf' = commitIndex rf \<or> commitIndex rf' < slen (log rf) \<and> committable rf1 (commitIndex rf'))
    \<and> (commitIndex rf < commitIndex rf' \<longrightarrow> commitIndex rf' \<le> lastApplied rf')"
proof -
  have eq: "sendAppendEntries rf (int server) args (Some reply) = commitLoop (slen (log rf1) - 1) rf1"
    using assms by (simp add: sendAppendEntries_result Let_def)
  have c: "0 \<le> commitIndex rf1" "0 \<le> lastApplied rf1 + 1" using wf by (auto simp: rf1_def wf_raft_def)
  have same: "commitIndex rf1 = commitIndex rf" "log rf1 = log rf" by (simp_all add: rf1_def)
  from c(1) show ?thesis
  proof (cases rule: commitLoop_cases)
    case none
    have "\<not> committable rf1 N" if "commitIndex rf \<le> N" "N < slen (log rf)" for N
      using none(2) [of N] that same by simp
    with eq none(1) same show ?thesis by auto
  next
    case (some m)
    have "N \<le> m" if "committable rf1 N" "N < slen (log rf)" for N
      using some(4) [of N] that same by fastforce
    with eq some(1,2,3,5) same c(2) show ?thesis by (auto simp: applyLoop_result)
  qed
qed

theorem commit_rule_witness:
  "\<exists>rf'. sendAppendEntries (servers electState ! 0) 1 \<lparr>ae_Term = 1, ae_LeaderId = 0, ae_PrevLogIndex = 0,
      ae_PrevLogTerm = 0, ae_Entries = [\<lparr>Term = 1, Command = Some 7\<rparr>], ae_LeaderCommit = 0\<rparr>
      (Some \<lparr>aer_Term = 1, aer_Success = True\<rparr>) = Inr rf' \<and> 1 \<le> commitIndex rf' \<and> commitIndex rf' \<le> lastApplied rf'"
proof -
  let ?rf = "servers electState ! 0"
  let ?args = "\<lparr>ae_Term = 1, ae_LeaderId = 0, ae_PrevLogIndex = 0, ae_PrevLogTerm = 0,
      ae_Entries = [\<lparr>Term = 1, Command = Some (7::nat)\<rparr>], ae_LeaderCommit = 0\<rparr>"
  let ?rf1 = "?rf\<lparr>matchIndex := (matchIndex ?rf)[1 := 1], nextIndex := (nextIndex ?rf)[1 := 2]\<rparr>"
  have f: "state ?rf = Leader" "1 < peers ?rf" "currentTerm ?rf = 1" "commitIndex ?rf = 0" "slen (log ?rf) = 2"
    "committable ?rf1 1"
    unfolding electState_def electSchedule_def by code_simp+
  moreover have "wf_ae ?args" by (simp add: wf_ae_def)
  ultimately obtain rf' where r: "sendAppendEntries ?rf (int 1) ?args (Some \<lparr>aer_Term = 1, aer_Success = True\<rparr>) = Inr rf'"
    "\<forall>N. 0 \<le> N \<and> N < 2 \<and> committable ?rf1 N \<longrightarrow> N \<le> commitIndex rf'"
    "0 < commitIndex rf' \<longrightarrow> commitIndex rf' \<le> lastApplied rf'"
    using commit_rule [OF elect_wf [of 0], of 1 ?args "\<lparr>aer_Term = 1, aer_Success = True\<rparr>"] by (auto simp: slen_def [of "[x]" for x])
  from r(2) [rule_format, of 1] f(6) have "1 \<le> commitIndex rf'" by simp
  with r(1,3) show ?thesis by auto
qed

text \<open>C9: Stable storage. A peer made from a copy of the persister of a peer that just persisted gets the
  same log, the same term and the same vote back.\<close>

theorem persist_restart:
  "\<exists>rf'. Make n self (CopyPersister (persister (persist rf))) = Inr rf'
     \<and> log rf' = log rf \<and> currentTerm rf' = currentTerm rf \<and> votedFor rf' = votedFor rf"
proof -
  have "raftstate (CopyPersister (persister (persist rf))) = [GobLog (log rf), GobInt (currentTerm rf), GobInt (votedFor rf)]"
    by (simp add: persist_def Let_def CopyPersister_def SaveRaftState_def)
  from Make_persisted [OF this] show ?thesis by auto
qed


section \<open>Delayed messages\<close>

text \<open>
  Peer 0 leads term 1. Its first \<open>AppendEntries\<close> to peer 1 (call 2, entry 7) is overtaken by the next one
  (call 4, entries 7 and 8), which commits index 2. The late call removes entry 8 from peer 1 again.
  Peer 1 is elected by peer 2 and commits 9 at index 2.
\<close>

definition lateAppendSchedule :: "nat label list" where
  "lateAppendSchedule = [Tick 0, Timeout 0, Tick 1, DeliverRV 0, RecvVote 1 0, ReturnRV 0,
     Submit 0 (Some 7), Tick 0, Timeout 0, Submit 0 (Some 8), Tick 0, Timeout 0,
     Tick 1, DeliverAE 4, RecvBeat 1 4, ReturnAE 4,
     Tick 1, DeliverAE 2, RecvBeat 1 2,
     Tick 1, Timeout 1, Tick 2, DeliverRV 3, RecvVote 2 3, ReturnRV 3,
     Submit 1 (Some 9), Tick 1, Timeout 1, Tick 2, DeliverAE 9, RecvBeat 2 9, ReturnAE 9,
     Tick 1, Timeout 1, Tick 2, DeliverAE 11, RecvBeat 2 11, ReturnAE 11]"

text \<open>C12: State machine safety fails when \<open>AppendEntries\<close> messages are reordered: the handler cuts its log after
  \<open>PrevLogIndex\<close> even when the entries of the message are already there, so an overtaken message removes a
  committed entry. In this run, with no crash and no stale vote, peer 0 has applied command 8 at index 2 and
  peer 1 applies command 9 at index 2.\<close>

theorem late_append_breaks_safety:
  "map_option (\<lambda>s. map (\<lambda>rf. map (\<lambda>m. (CommandIndex m, msgCommand m)) (applyCh rf)) (servers s))
      (vrun (init_cluster 3) lateAppendSchedule)
    = Some [[(1, Some 7), (2, Some 8)], [(1, Some 7), (2, Some 9)], []]"
  unfolding lateAppendSchedule_def by code_simp

end
