(* ===== verification/Lock_Store.thy ===== *)
theory Lock_Store
  imports Prelude
begin

text \<open>
  \<open>src/raft-lock/lockStore.go\<close>: the state machine of the lock service. A Go map from keys to slices is a
  map to lists; reading a missing key gives the empty slice. The type of identifiers has the zero value
  that \<open>getLockOwner\<close> returns for a lock that nobody holds.

  The contract of the store is the locale \<open>lock_queue\<close>: every key has a queue of clients without
  duplicates, the first of which owns the lock. That no client is overtaken follows from the contract alone.
\<close>

section \<open>The model\<close>

type_synonym ('k, 'v) MultiMap = "'k \<rightharpoonup> 'v list"

definition lookup_slice :: "('k, 'v) MultiMap \<Rightarrow> 'k \<Rightarrow> 'v list" where
  "lookup_slice m key = (case m key of None \<Rightarrow> [] | Some vs \<Rightarrow> vs)"

fun exists_in :: "'a list \<Rightarrow> ('a \<Rightarrow> bool) \<Rightarrow> bool" where
  "exists_in [] predicate = False"
| "exists_in (elem # array) predicate = (if predicate elem then True else exists_in array predicate)"

definition put :: "('k, 'v) MultiMap \<Rightarrow> 'k \<Rightarrow> 'v \<Rightarrow> ('k, 'v) MultiMap" where
  "put m key val = m(key \<mapsto> lookup_slice m key @ [val])"

definition cleanEmpty :: "('k, 'v) MultiMap \<Rightarrow> 'k \<Rightarrow> ('k, 'v) MultiMap" where
  "cleanEmpty m key = (case m key of Some v \<Rightarrow> if slen v = 0 then m(key := None) else m | None \<Rightarrow> m)"

fun filterLoop :: "'v list \<Rightarrow> ('v \<Rightarrow> bool) \<Rightarrow> 'v list \<Rightarrow> 'v list" where
  "filterLoop [] keepWhenTrue result = result"
| "filterLoop (v # array) keepWhenTrue result =
     filterLoop array keepWhenTrue (if keepWhenTrue v then result @ [v] else result)"

definition filter_slice :: "'v list \<Rightarrow> ('v \<Rightarrow> bool) \<Rightarrow> 'v list" where
  "filter_slice array keepWhenTrue = filterLoop array keepWhenTrue []"

definition filter_key :: "('k, 'v) MultiMap \<Rightarrow> 'k \<Rightarrow> ('v \<Rightarrow> bool) \<Rightarrow> ('k, 'v) MultiMap" where
  "filter_key m key keepWhenTrue =
     cleanEmpty (m(key \<mapsto> filter_slice (lookup_slice m key) keepWhenTrue)) key"

type_synonym ('k, 'id) LockStore = "('k, 'id) MultiMap"

definition getLockOwner :: "('k, 'id :: zero) LockStore \<Rightarrow> 'k \<Rightarrow> ('id \<times> bool) go" where
  "getLockOwner store key = (case store key of
     Some ids \<Rightarrow> go_bind (idx ids 0) (\<lambda>x. Inr (x, True))
   | None \<Rightarrow> Inr (0, False))"

definition lock :: "('k, 'id) LockStore \<Rightarrow> 'k \<Rightarrow> 'id \<Rightarrow> ('k, 'id) LockStore" where
  "lock store key i =
     (if \<not> exists_in (lookup_slice store key) (\<lambda>elem. i = elem) then put store key i else store)"

definition unlock :: "('k, 'id) LockStore \<Rightarrow> 'k \<Rightarrow> 'id \<Rightarrow> ('k, 'id) LockStore" where
  "unlock store key i = filter_key store key (\<lambda>elem. i \<noteq> elem)"

section \<open>The contract\<close>

text \<open>What a client of the lock table may do, and the order in which \<open>c\<close> waits.\<close>

datatype ('k, 'id) lock_op = DoLock 'k 'id | DoUnlock 'k 'id

fun do_op :: "('s \<Rightarrow> 'k \<Rightarrow> 'id \<Rightarrow> 's) \<Rightarrow> ('s \<Rightarrow> 'k \<Rightarrow> 'id \<Rightarrow> 's) \<Rightarrow> 's \<Rightarrow> ('k, 'id) lock_op \<Rightarrow> 's" where
  "do_op acquire release s (DoLock k c) = acquire s k c"
| "do_op acquire release s (DoUnlock k c) = release s k c"

fun ahead :: "'id \<Rightarrow> 'id list \<Rightarrow> 'id set" where
  "ahead c [] = {}"
| "ahead c (x # xs) = (if x = c then {} else insert x (ahead c xs))"

lemma ahead_sub: "ahead c xs \<subseteq> set xs"
  by (induction xs) auto

lemma ahead_snoc: "c \<in> set xs \<Longrightarrow> ahead c (xs @ [x]) = ahead c xs"
  by (induction xs) auto

lemma ahead_filter: "P c \<Longrightarrow> ahead c (filter P xs) = {x \<in> ahead c xs. P x}"
  by (induction xs) auto

lemma ahead_empty_iff: "c \<in> set xs \<Longrightarrow> ahead c xs = {} \<longleftrightarrow> hd xs = c"
  by (cases xs) auto

locale lock_queue =
  fixes ok :: "'s \<Rightarrow> bool" and queue :: "'s \<Rightarrow> 'k \<Rightarrow> 'id list"
    and acquire :: "'s \<Rightarrow> 'k \<Rightarrow> 'id \<Rightarrow> 's" and release :: "'s \<Rightarrow> 'k \<Rightarrow> 'id \<Rightarrow> 's"
  assumes ok_acquire: "ok s \<Longrightarrow> ok (acquire s k c)"
    and ok_release: "ok s \<Longrightarrow> ok (release s k c)"
    and queue_acquire: "ok s \<Longrightarrow> queue (acquire s k c) k' =
          (if k' = k \<and> c \<notin> set (queue s k) then queue s k @ [c] else queue s k')"
    and queue_release: "ok s \<Longrightarrow> queue (release s k c) k' =
          (if k' = k then filter (\<lambda>x. c \<noteq> x) (queue s k) else queue s k')"
begin

abbreviation perform :: "'s \<Rightarrow> ('k, 'id) lock_op \<Rightarrow> 's" where
  "perform \<equiv> do_op acquire release"

lemma ok_perform: "ok s \<Longrightarrow> ok (perform s a)"
  by (cases a) (auto intro: ok_acquire ok_release)

lemma ok_run: "ok s \<Longrightarrow> ok (foldl perform s as)"
  by (induction as arbitrary: s) (auto intro: ok_perform)

lemma perform_waiting:
  assumes "ok s" "c \<in> set (queue s k)" "a \<noteq> DoUnlock k c"
  shows "c \<in> set (queue (perform s a) k)"
    and "ahead c (queue (perform s a) k) = {d \<in> ahead c (queue s k). a \<noteq> DoUnlock k d}"
  using assms by (cases a; auto simp: queue_acquire queue_release ahead_snoc ahead_filter split: if_splits)+

text \<open>
  No overtaking: until \<open>c\<close> gives the lock up, it stays in the queue, and those ahead of it are those
  that were ahead and have not given up.
\<close>

lemma no_overtaking:
  assumes "ok s" "c \<in> set (queue s k)" "DoUnlock k c \<notin> set as"
  shows "c \<in> set (queue (foldl perform s as) k)
    \<and> ahead c (queue (foldl perform s as) k) = {d \<in> ahead c (queue s k). DoUnlock k d \<notin> set as}"
  using assms
proof (induction as arbitrary: s)
  case (Cons a as)
  have "c \<in> set (queue (perform s a) k)" using perform_waiting(1) Cons.prems by auto
  moreover have "ahead c (queue (perform s a) k) = {d \<in> ahead c (queue s k). a \<noteq> DoUnlock k d}"
    by (rule perform_waiting(2)) (use Cons.prems in auto)
  ultimately show ?case using Cons.IH [OF ok_perform [OF Cons.prems(1)]] Cons.prems by auto
qed simp

lemma gets_lock:
  assumes "ok s" "c \<in> set (queue s k)" "DoUnlock k c \<notin> set as"
    and "\<forall>d\<in>ahead c (queue s k). DoUnlock k d \<in> set as"
  shows "\<exists>q. queue (foldl perform s as) k = c # q"
proof -
  let ?q = "queue (foldl perform s as) k"
  have "c \<in> set ?q" "ahead c ?q = {}" using no_overtaking [OF assms(1-3)] assms(4) by auto
  then have "hd ?q = c" "?q \<noteq> []" using ahead_empty_iff [of c ?q] by auto
  then show ?thesis by (metis list.collapse)
qed

end

section \<open>The store meets the contract\<close>

text \<open>No key is mapped to an empty slice, and no slice has a duplicate.\<close>

definition wf_store :: "('k, 'id) LockStore \<Rightarrow> bool" where
  "wf_store store \<longleftrightarrow> (\<forall>key ids. store key = Some ids \<longrightarrow> ids \<noteq> [] \<and> distinct ids)"

lemma exists_in_iff: "exists_in xs P \<longleftrightarrow> (\<exists>x\<in>set xs. P x)"
  by (induction xs) auto

lemma filterLoop_eq: "filterLoop xs P acc = acc @ filter P xs"
  by (induction xs arbitrary: acc) auto

lemma filter_slice_eq [simp]: "filter_slice xs P = filter P xs"
  by (simp add: filter_slice_def filterLoop_eq)

lemma slen_0_iff: "slen v = 0 \<longleftrightarrow> v = []"
  by (simp add: slen_def)

lemma lock_eq: "lock st k i = (if i \<in> set (lookup_slice st k) then st else st(k \<mapsto> lookup_slice st k @ [i]))"
  by (auto simp: lock_def exists_in_iff put_def)

lemma unlock_eq: "unlock st k i = (let q = filter (\<lambda>x. i \<noteq> x) (lookup_slice st k)
    in if q = [] then st(k := None) else st(k \<mapsto> q))"
  by (simp add: unlock_def filter_key_def cleanEmpty_def slen_0_iff Let_def)

lemma wf_store_slice: "wf_store st \<Longrightarrow> distinct (lookup_slice st k)"
  by (auto simp: wf_store_def lookup_slice_def split: option.splits)

lemma wf_store_empty [simp]: "wf_store Map.empty"
  by (simp add: wf_store_def)

lemma wf_lock: "wf_store st \<Longrightarrow> wf_store (lock st k i)"
  using wf_store_slice [of st k] by (auto simp: lock_eq wf_store_def)

lemma wf_unlock: "wf_store st \<Longrightarrow> wf_store (unlock st k i)"
  using wf_store_slice [of st k] by (auto simp: unlock_eq wf_store_def Let_def)

interpretation store: lock_queue wf_store lookup_slice lock unlock
proof
  fix s :: "'a \<rightharpoonup> 'b list" and k k' c
  show "lookup_slice (lock s k c) k' = (if k' = k \<and> c \<notin> set (lookup_slice s k)
      then lookup_slice s k @ [c] else lookup_slice s k')"
    by (auto simp: lock_eq lookup_slice_def)
  show "lookup_slice (unlock s k c) k' =
      (if k' = k then filter (\<lambda>x. c \<noteq> x) (lookup_slice s k) else lookup_slice s k')"
    by (auto simp: unlock_eq lookup_slice_def Let_def)
qed (simp_all add: wf_lock wf_unlock)

lemma getLockOwner_eq:
  assumes "wf_store st"
  shows "getLockOwner st k = Inr (case lookup_slice st k of [] \<Rightarrow> (0, False) | c # _ \<Rightarrow> (c, True))"
  using assms
  by (auto simp: getLockOwner_def lookup_slice_def wf_store_def idx_def slen_def hd_conv_nth split: option.splits list.splits)

end
