(* ===== verification/Lock_Server.thy ===== *)
theory Lock_Server
  imports Lock_Store Raft_Node_Props
begin

text \<open>
  \<open>src/raft-lock/server.go\<close> and \<open>src/raft-lock/common.go\<close>: the replicated lock service. The record
  \<open>LockServer\<close> is the struct; \<open>ls.rf\<close> is a peer of \<open>Raft_Node\<close>, passed to the operations that call it.
  \<open>clerkEnds\<close> is kept as the set of clients it has an end point for, the channel \<open>events\<close> as the list of what
  was sent on it, and \<open>gives\<close> lists the \<open>Clerk.ReceiveLock\<close> calls. \<open>results\<close> maps an index to the
  buffer of its channel, of capacity 1.

  The body of \<open>applyOpsLoop\<close> can block for ever on a full channel while it holds \<open>ls.mu\<close>; it can
  also panic in the type assertion. \<open>flow\<close> has a case for each.
\<close>

section \<open>Data\<close>

datatype 'a flow = Blocks | Panics go_error | Runs 'a

type_synonym ClientID = int
type_synonym OpType = int
type_synonym EventType = int

definition LockOp :: OpType where "LockOp = 1"
definition UnlockOp :: OpType where "UnlockOp = 2"
definition RequestLockOp :: OpType where "RequestLockOp = 3"
definition AcquireLockOp :: OpType where "AcquireLockOp = 4"
definition RequestUnlockOp :: OpType where "RequestUnlockOp = 5"
definition ServerEvent :: EventType where "ServerEvent = 1"
definition ClientEvent :: EventType where "ClientEvent = 2"

definition OpToString :: "OpType \<Rightarrow> string go" where
  "OpToString t =
     (if t = LockOp then Inr ''Lock'' else if t = UnlockOp then Inr ''Unlock''
      else if t = RequestLockOp then Inr ''RequestLock'' else if t = AcquireLockOp then Inr ''AcquireLock''
      else if t = RequestUnlockOp then Inr ''RequestUnlock'' else Inl (Panic ''impossible!''))"

definition EventTypeToString :: "EventType \<Rightarrow> string go" where
  "EventTypeToString t = (if t = ServerEvent then Inr ''Server'' else if t = ClientEvent then Inr ''Client''
      else Inl (Panic ''impossible!''))"

record Op =
  op_Type :: OpType
  op_Key :: string
  op_ClientId :: ClientID
  op_RequestId :: int

record Event =
  ev_Op :: OpType
  ev_eventType :: EventType
  ev_key :: string
  ev_id :: ClientID

record MutexArgs =
  ma_Key :: string
  ma_Op :: OpType
  ma_ClientId :: ClientID
  ma_RequestId :: int

datatype Err = OK | ErrNoKey | ErrWrongLeader

record LockServer =
  clerkEnds :: "ClientID list"
  events :: "Event list"
  gives :: "(ClientID \<times> string) list"
  ls_me :: int
  ls_dead :: int
  store :: "(string, ClientID) LockStore"
  results :: "int \<rightharpoonup> Op list"
  opsApplied :: "ClientID \<rightharpoonup> int"

section \<open>Operations\<close>

definition isLeader :: "'c raft \<Rightarrow> bool" where
  "isLeader rf = snd (GetState rf)"

definition giveLockToOwner :: "'c raft \<Rightarrow> LockServer \<Rightarrow> string \<Rightarrow> ClientID \<Rightarrow> LockServer" where
  "giveLockToOwner rf ls key lockOwner =
     (if isLeader rf \<and> List.member (clerkEnds ls) lockOwner
      then ls\<lparr>gives := gives ls @ [(lockOwner, key)]\<rparr> else ls)"

text \<open>Leadership is read twice, and may change in between: \<open>rf\<close> at the first read, \<open>rf'\<close> at the second.\<close>

definition applyToStateMachine :: "'c raft \<Rightarrow> 'c raft \<Rightarrow> LockServer \<Rightarrow> Op \<Rightarrow> LockServer go" where
  "applyToStateMachine rf rf' ls op =
     go_bind (getLockOwner (store ls) (op_Key op)) (\<lambda>(owner, _).
     let ls1 = (if op_Type op = LockOp
                then ls\<lparr>store := lock (store ls) (op_Key op) (op_ClientId op)\<rparr> else ls);
         ls2 = (if op_Type op = UnlockOp
                then ls1\<lparr>store := unlock (store ls1) (op_Key op) (op_ClientId op)\<rparr> else ls1)
     in if isLeader rf
        then let ls3 = ls2\<lparr>events := events ls2 @ [\<lparr>ev_Op = op_Type op, ev_eventType = ServerEvent,
                             ev_key = op_Key op, ev_id = op_ClientId op\<rparr>]\<rparr>
             in go_bind (getLockOwner (store ls3) (op_Key op)) (\<lambda>(newOwner, _).
                if newOwner \<noteq> owner then Inr (giveLockToOwner rf' ls3 (op_Key op) newOwner) else Inr ls3)
        else Inr ls2)"

text \<open>The channel of an index: made on first use, with room for one operation.\<close>

definition resultChan :: "LockServer \<Rightarrow> int \<Rightarrow> Op list" where
  "resultChan ls index = (case results ls index of None \<Rightarrow> [] | Some opCh \<Rightarrow> opCh)"

definition registerChan :: "LockServer \<Rightarrow> int \<Rightarrow> LockServer" where
  "registerChan ls index = ls\<lparr>results := (results ls)(index \<mapsto> resultChan ls index)\<rparr>"

text \<open>One round of \<open>applyOpsLoop\<close>, with the message it has received.\<close>

definition applyOps :: "Op raft \<times> Op raft \<Rightarrow> LockServer \<Rightarrow> Op ApplyMsg \<Rightarrow> LockServer flow" where
  "applyOps rfs ls msg =
     (if \<not> CommandValid msg then Runs ls
      else case msgCommand msg of
        None \<Rightarrow> Panics (Panic ''interface conversion'')
      | Some op \<Rightarrow>
        let new = (case opsApplied ls (op_ClientId op) of None \<Rightarrow> True | Some lastId \<Rightarrow> op_RequestId op > lastId)
        in (case (if new
                  then go_bind (applyToStateMachine (fst rfs) (snd rfs) ls op) (\<lambda>ls1.
                       Inr (ls1\<lparr>opsApplied := (opsApplied ls1)(op_ClientId op \<mapsto> op_RequestId op)\<rparr>))
                  else Inr ls) of
              Inl e \<Rightarrow> Panics e
            | Inr ls2 \<Rightarrow>
                let opCh = resultChan ls2 (CommandIndex msg)
                in if length opCh < 1
                   then Runs (ls2\<lparr>results := (results ls2)(CommandIndex msg \<mapsto> opCh @ [op])\<rparr>)
                   else Blocks))"

definition isSameOp :: "Op \<Rightarrow> Op \<Rightarrow> bool" where
  "isSameOp issued applied \<longleftrightarrow> op_ClientId issued = op_ClientId applied \<and> op_RequestId issued = op_RequestId applied"

definition mutexOp :: "MutexArgs \<Rightarrow> Op" where
  "mutexOp args = \<lparr>op_Type = ma_Op args, op_Key = ma_Key args, op_ClientId = ma_ClientId args,
     op_RequestId = ma_RequestId args\<rparr>"

text \<open>
  \<open>waitForApplied\<close> up to its \<open>select\<close>: hand the operation to Raft and register the channel of the
  index; \<open>None\<close> when this peer is not the leader.
\<close>

definition waitRegister :: "Op raft \<Rightarrow> LockServer \<Rightarrow> Op \<Rightarrow> (Op raft \<times> LockServer \<times> int option) go" where
  "waitRegister rf ls op =
     go_bind (Start rf (Some op)) (\<lambda>(rf', index, _, lead).
       if \<not> lead then Inr (rf', ls, None)
       else Inr (rf', registerChan ls index, Some index))"

text \<open>The \<open>select\<close>: it receives an operation from the channel or it times out.\<close>

definition waitSelect :: "LockServer \<Rightarrow> int \<Rightarrow> bool \<Rightarrow> (LockServer \<times> Op option) flow" where
  "waitSelect ls index timeout =
     (if timeout then Runs (ls, None)
      else case resultChan ls index of
        op # rest \<Rightarrow> Runs (ls\<lparr>results := (results ls)(index \<mapsto> rest)\<rparr>, Some op)
      | [] \<Rightarrow> Blocks)"

text \<open>The reply of the handler \<open>Mutex\<close>, from the outcome of the two parts.\<close>

definition MutexReply :: "Op \<Rightarrow> int option \<Rightarrow> Op option \<Rightarrow> Err" where
  "MutexReply op registered received =
     (case registered of None \<Rightarrow> ErrWrongLeader
      | Some _ \<Rightarrow> (case received of None \<Rightarrow> ErrWrongLeader
          | Some applied \<Rightarrow> if isSameOp op applied then OK else ErrWrongLeader))"

definition KillLockServer :: "'c raft \<Rightarrow> LockServer \<Rightarrow> 'c raft \<times> LockServer" where
  "KillLockServer rf ls = (Kill rf, ls\<lparr>ls_dead := 1\<rparr>)"

definition lsKilled :: "LockServer \<Rightarrow> bool" where
  "lsKilled ls \<longleftrightarrow> ls_dead ls = 1"

definition StartLockServer :: "nat \<Rightarrow> ClientID list \<Rightarrow> int \<Rightarrow> Op gobval Persister \<Rightarrow> (LockServer \<times> Op raft) go" where
  "StartLockServer n clerks self ps =
     go_bind (Make n self ps) (\<lambda>rf.
     Inr (\<lparr>clerkEnds = clerks, events = [], gives = [], ls_me = self, ls_dead = 0, store = Map.empty,
           results = Map.empty, opsApplied = Map.empty\<rparr>, rf))"

end
