(* ===== verification/Lock_Safety.thy ===== *)
theory Lock_Safety
  imports Lock_Server
begin

text \<open>
  Correctness of the lock service. A lock server refines a small state machine, the lock store with the
  last request of every client, whatever Raft says about leadership; so replicas that applied the same
  messages agree. Retried requests take effect once, a handler that reports success did so
  for an operation that was applied, and the owner of a lock hears of it.
\<close>

section \<open>Replicated state machines\<close>

text \<open>
  The contract of a replica: what it does to a message is determined, on its abstract state, by the
  message alone. \<open>env\<close> is what may differ between replicas.
\<close>

fun applyAll :: "('env \<Rightarrow> 's \<Rightarrow> 'm \<Rightarrow> 's flow) \<Rightarrow> 's \<Rightarrow> ('env \<times> 'm) list \<Rightarrow> 's flow" where
  "applyAll app s [] = Runs s"
| "applyAll app s ((e, m) # ms) =
     (case app e s m of Runs t \<Rightarrow> applyAll app t ms | Blocks \<Rightarrow> Blocks | Panics err \<Rightarrow> Panics err)"

locale replica =
  fixes app :: "'env \<Rightarrow> 's \<Rightarrow> 'm \<Rightarrow> 's flow" and abs :: "'s \<Rightarrow> 'a" and spec :: "'a \<Rightarrow> 'm \<Rightarrow> 'a"
  assumes refines: "app e s m = Runs t \<Longrightarrow> abs t = spec (abs s) m"
begin

lemma refines_all: "applyAll app s ms = Runs t \<Longrightarrow> abs t = foldl spec (abs s) (map snd ms)"
proof (induction ms arbitrary: s)
  case (Cons em ms)
  obtain e m where em: "em = (e, m)" by (cases em)
  with Cons.prems obtain u where u: "app e s m = Runs u" "applyAll app u ms = Runs t"
    by (auto split: flow.splits)
  from Cons.IH [OF u(2)] refines [OF u(1)] em show ?case by simp
qed simp

lemma agree:
  assumes "applyAll app s ms = Runs t" "applyAll app s' ms' = Runs t'" "abs s = abs s'" "map snd ms = map snd ms'"
  shows "abs t = abs t'"
  using refines_all [OF assms(1)] refines_all [OF assms(2)] assms(3,4) by simp

end

section \<open>The state machine of the lock service\<close>

type_synonym machine = "(string, ClientID) LockStore \<times> (ClientID \<rightharpoonup> int)"

definition newRequest :: "machine \<Rightarrow> Op \<Rightarrow> bool" where
  "newRequest m op = (case snd m (op_ClientId op) of None \<Rightarrow> True | Some lastId \<Rightarrow> op_RequestId op > lastId)"

definition storeOp :: "(string, ClientID) LockStore \<Rightarrow> Op \<Rightarrow> (string, ClientID) LockStore" where
  "storeOp st op = (if op_Type op = LockOp then lock st (op_Key op) (op_ClientId op)
     else if op_Type op = UnlockOp then unlock st (op_Key op) (op_ClientId op) else st)"

definition machineStep :: "machine \<Rightarrow> Op \<Rightarrow> machine" where
  "machineStep m op = (if newRequest m op
     then (storeOp (fst m) op, (snd m)(op_ClientId op \<mapsto> op_RequestId op)) else m)"

definition machineOf :: "LockServer \<Rightarrow> machine" where
  "machineOf ls = (store ls, opsApplied ls)"

definition machineMsg :: "machine \<Rightarrow> Op ApplyMsg \<Rightarrow> machine" where
  "machineMsg m msg = (if CommandValid msg then machineStep m (the (msgCommand msg)) else m)"

lemma LockOp_neq [simp]: "LockOp \<noteq> UnlockOp" "UnlockOp \<noteq> LockOp"
  by (simp_all add: LockOp_def UnlockOp_def)

lemma giveLockToOwner_same [simp]:
  "store (giveLockToOwner rf ls k c) = store ls" "opsApplied (giveLockToOwner rf ls k c) = opsApplied ls"
  "results (giveLockToOwner rf ls k c) = results ls" "events (giveLockToOwner rf ls k c) = events ls"
  "clerkEnds (giveLockToOwner rf ls k c) = clerkEnds ls"
  by (simp_all add: giveLockToOwner_def)

lemma wf_storeOp: "wf_store st \<Longrightarrow> wf_store (storeOp st op)"
  by (simp add: storeOp_def wf_lock wf_unlock)

lemma applyToStateMachine_machine:
  assumes "applyToStateMachine rf rf' ls op = Inr ls'"
  shows "store ls' = storeOp (store ls) op" "opsApplied ls' = opsApplied ls" "results ls' = results ls"
  using assms by (auto simp: applyToStateMachine_def storeOp_def Let_def go_bind_eq_Inr split: if_splits prod.splits)

lemma applyOps_machine:
  assumes "applyOps rfs ls msg = Runs ls'"
  shows "machineOf ls' = machineMsg (machineOf ls) msg"
  using assms applyToStateMachine_machine [of "fst rfs" "snd rfs" ls "the (msgCommand msg)"]
  by (auto simp: applyOps_def machineOf_def machineMsg_def machineStep_def newRequest_def Let_def go_bind_eq_Inr
      split: if_splits option.splits sum.splits)

interpretation locks: replica applyOps machineOf machineMsg
  by unfold_locales (rule applyOps_machine)


section \<open>A lock server at work\<close>

text \<open>
  A server together with the messages it has applied. The apply loop takes the next message of Raft, whose
  index is one more than the last; handlers register and read result channels in between.
\<close>

datatype svc = Applied "Op raft \<times> Op raft" "Op ApplyMsg" | Registered int | Received int

definition nextMsg :: "Op ApplyMsg list \<Rightarrow> Op ApplyMsg \<Rightarrow> bool" where
  "nextMsg ms msg \<longleftrightarrow> CommandValid msg \<and> msgCommand msg \<noteq> None \<and> CommandIndex msg = slen ms + 1"

definition svcStep :: "LockServer \<times> Op ApplyMsg list \<Rightarrow> svc \<Rightarrow> LockServer \<times> Op ApplyMsg list \<Rightarrow> bool" where
  "svcStep s l t = (case l of
     Applied rfs msg \<Rightarrow> nextMsg (snd s) msg \<and> applyOps rfs (fst s) msg = Runs (fst t) \<and> snd t = snd s @ [msg]
   | Registered i \<Rightarrow> fst t = registerChan (fst s) i \<and> snd t = snd s
   | Received i \<Rightarrow> (\<exists>op. waitSelect (fst s) i False = Runs (fst t, op)) \<and> snd t = snd s)"

abbreviation serving :: "LockServer \<times> Op ApplyMsg list \<Rightarrow> bool" where
  "serving \<equiv> reachable (\<lambda>s. snd s = [] \<and> (\<exists>n clerks self ps rf. StartLockServer n clerks self ps = Inr (fst s, rf))) svcStep"

definition chan_inv :: "LockServer \<times> Op ApplyMsg list \<Rightarrow> bool" where
  "chan_inv s \<longleftrightarrow> (\<forall>i. resultChan (fst s) i = []
     \<or> (\<exists>msg\<in>set (snd s). CommandIndex msg = i \<and> resultChan (fst s) i = [the (msgCommand msg)]))"

lemma chan_invD:
  assumes "chan_inv s" "resultChan (fst s) i = op # rest"
  shows "rest = []" "\<exists>msg\<in>set (snd s). CommandIndex msg = i \<and> the (msgCommand msg) = op"
  using assms(1) [unfolded chan_inv_def, rule_format, of i] assms(2) by auto

definition svc_inv :: "LockServer \<times> Op ApplyMsg list \<Rightarrow> bool" where
  "svc_inv s \<longleftrightarrow> wf_store (store (fst s)) \<and> chan_inv s
     \<and> machineOf (fst s) = foldl machineStep (Map.empty, Map.empty) (map (the \<circ> msgCommand) (snd s))
     \<and> (\<forall>msg\<in>set (snd s). msgCommand msg \<noteq> None) \<and> map CommandIndex (snd s) = [1..slen (snd s)]"

lemma applyToStateMachine_runs:
  assumes "wf_store (store ls)"
  shows "\<exists>ls'. applyToStateMachine rf rf' ls op = Inr ls'"
  using assms
  by (auto simp: applyToStateMachine_def Let_def getLockOwner_eq wf_lock wf_unlock split: prod.splits)

lemma applyOps_runs:
  assumes "wf_store (store ls)" "resultChan ls (CommandIndex msg) = []" "CommandValid msg" "msgCommand msg = Some op"
  shows "\<exists>ls'. applyOps rfs ls msg = Runs ls' \<and> results ls' = (results ls)(CommandIndex msg \<mapsto> [op])
     \<and> wf_store (store ls')"
proof -
  obtain ls1 where ls1: "applyToStateMachine (fst rfs) (snd rfs) ls op = Inr ls1"
    using applyToStateMachine_runs [OF assms(1)] by blast
  from applyToStateMachine_machine [OF this] assms ls1 show ?thesis
    by (auto simp: applyOps_def Let_def resultChan_def wf_storeOp split: option.splits)
qed

lemma index_unused:
  assumes "map CommandIndex ms = [1..slen ms]" "msg \<in> set ms" shows "CommandIndex msg \<le> slen ms"
proof -
  have "CommandIndex msg \<in> set (map CommandIndex ms)" using assms(2) by simp
  with assms(1) show ?thesis by simp
qed

lemma svc_inv_step:
  assumes inv: "svc_inv s" and st: "svcStep s l t"
  shows "svc_inv t"
proof (cases l)
  case (Applied rfs msg)
  then obtain op where n: "CommandValid msg" "msgCommand msg = Some op" "CommandIndex msg = slen (snd s) + 1"
    and r: "applyOps rfs (fst s) msg = Runs (fst t)" "snd t = snd s @ [msg]"
    using st by (auto simp: svcStep_def nextMsg_def)
  have empty: "resultChan (fst s) (CommandIndex msg) = []"
    using inv n index_unused by (fastforce simp: svc_inv_def chan_inv_def)
  with applyOps_runs [OF _ empty n(1,2), of rfs] inv r(1)
  have res: "results (fst t) = (results (fst s))(CommandIndex msg \<mapsto> [op])" "wf_store (store (fst t))"
    by (auto simp: svc_inv_def)
  have "machineOf (fst t) = machineStep (machineOf (fst s)) op"
    using applyOps_machine [OF r(1)] n by (simp add: machineMsg_def)
  moreover have "chan_inv t"
    using inv res(1) r(2) n by (auto simp: chan_inv_def svc_inv_def resultChan_def)
  moreover have "[1..1 + int (length (snd s))] = [1..int (length (snd s))] @ [int (length (snd s)) + 1]"
    by (subst upto_rec2) simp_all
  ultimately show ?thesis
    using inv res r n by (auto simp: svc_inv_def slen_def)
next
  case (Registered i)
  then show ?thesis using assms
    by (auto simp: svcStep_def svc_inv_def chan_inv_def registerChan_def resultChan_def machineOf_def)
next
  case (Received i)
  then obtain op rest where ch: "resultChan (fst s) i = op # rest" "snd t = snd s"
      "fst t = (fst s)\<lparr>results := (results (fst s))(i \<mapsto> rest)\<rparr>"
    using st by (auto simp: svcStep_def waitSelect_def split: list.splits)
  moreover have "rest = []" using chan_invD(1) [OF _ ch(1)] inv by (simp add: svc_inv_def)
  ultimately have "chan_inv t" using inv by (auto simp: svc_inv_def chan_inv_def resultChan_def)
  with ch inv show ?thesis by (simp add: svc_inv_def machineOf_def)
qed

lemma StartLockServer_fresh:
  assumes "StartLockServer n clerks self ps = Inr (ls, rf)"
  shows "store ls = Map.empty" "results ls = Map.empty" "opsApplied ls = Map.empty"
  using assms by (auto simp: StartLockServer_def go_bind_eq_Inr)

lemma serving_inv: "serving s \<Longrightarrow> svc_inv s"
proof (induction rule: reachable_invariant)
  case (init s)
  then have "snd s = []" "store (fst s) = Map.empty" "results (fst s) = Map.empty" "opsApplied (fst s) = Map.empty"
    using StartLockServer_fresh by blast+
  then show ?case by (simp add: svc_inv_def chan_inv_def resultChan_def machineOf_def slen_def)
next
  case (step s l t)
  then show ?case using svc_inv_step by blast
qed


lemma machineStep_own: "\<exists>l. snd (machineStep m op) (op_ClientId op) = Some l \<and> op_RequestId op \<le> l"
  by (auto simp: machineStep_def newRequest_def split: option.splits)

lemma machineStep_keeps: "snd m c = Some l \<Longrightarrow> \<exists>l'. snd (machineStep m op) c = Some l' \<and> l \<le> l'"
  by (auto simp: machineStep_def newRequest_def split: option.splits)

lemma machine_remembers:
  "op \<in> set ops \<Longrightarrow> \<exists>l. snd (foldl machineStep m ops) (op_ClientId op) = Some l \<and> op_RequestId op \<le> l"
proof (induction ops rule: rev_induct)
  case (snoc x ops)
  show ?case
  proof (cases "op \<in> set ops")
    case True
    with snoc obtain l where l: "snd (foldl machineStep m ops) (op_ClientId op) = Some l" "op_RequestId op \<le> l" by auto
    from machineStep_keeps [OF l(1), of x] l(2) show ?thesis by fastforce
  next
    case False
    with snoc.prems machineStep_own show ?thesis by simp
  qed
qed simp

section \<open>A server in use\<close>

text \<open>A server of a cluster of one, and the requests of two clients for one key.\<close>

definition demoServer :: LockServer where
  "demoServer = \<lparr>clerkEnds = [1, 2], events = [], gives = [], ls_me = 0, ls_dead = 0, store = Map.empty,
     results = Map.empty, opsApplied = Map.empty\<rparr>"

definition demoRaft :: "State \<Rightarrow> Op raft" where
  "demoRaft st = (projr (Make 1 0 MakePersister))\<lparr>state := st\<rparr>"

definition demoOp :: "OpType \<Rightarrow> ClientID \<Rightarrow> int \<Rightarrow> Op" where
  "demoOp t c r = \<lparr>op_Type = t, op_Key = ''k'', op_ClientId = c, op_RequestId = r\<rparr>"

definition demoMsg :: "OpType \<Rightarrow> ClientID \<Rightarrow> int \<Rightarrow> int \<Rightarrow> Op ApplyMsg" where
  "demoMsg t c r i = \<lparr>CommandValid = True, msgCommand = Some (demoOp t c r), CommandIndex = i\<rparr>"

definition demoLocked :: LockServer where
  "demoLocked = demoServer\<lparr>store := [''k'' \<mapsto> [1]], results := [1 \<mapsto> [demoOp LockOp 1 1]], opsApplied := [1 \<mapsto> 1]\<rparr>"

lemmas demo_defs = demoServer_def demoRaft_def demoOp_def demoMsg_def demoLocked_def Make_fresh MakePersister_def
  applyOps_def applyToStateMachine_def resultChan_def getLockOwner_def lock_def put_def lookup_slice_def
  isLeader_def GetState_def LockOp_def UnlockOp_def giveLockToOwner_def

lemma demo_apply:
  "applyOps (demoRaft Follower, demoRaft Follower) demoServer (demoMsg LockOp 1 1 1) = Runs demoLocked"
  by (simp add: demo_defs)

lemma demo_apply_leader:
  "applyOps (demoRaft Leader, demoRaft Leader) demoServer (demoMsg LockOp 1 1 1)
    = Runs (demoLocked\<lparr>gives := [(1, ''k'')], events := [\<lparr>ev_Op = LockOp, ev_eventType = ServerEvent, ev_key = ''k'', ev_id = 1\<rparr>]\<rparr>)"
  by (simp add: demo_defs idx_def slen_def)

lemma demo_serving: "serving (demoLocked, [demoMsg LockOp 1 1 1])"
proof (rule reachable_step)
  have "StartLockServer 1 [1, 2] 0 MakePersister = Inr (demoServer, demoRaft Follower)"
    by (simp add: StartLockServer_def demo_defs)
  then show "serving (demoServer, [])" by (intro reachable_init) force
  show "svcStep (demoServer, []) (Applied (demoRaft Follower, demoRaft Follower) (demoMsg LockOp 1 1 1))
      (demoLocked, [demoMsg LockOp 1 1 1])"
    by (simp add: svcStep_def demo_apply nextMsg_def) (simp add: demoMsg_def slen_def)
qed

section \<open>Properties\<close>

text \<open>C13: Replicas agree. Two lock servers that applied the same messages hold the same locks with the same waiting
  queues and the same record of client requests, whatever Raft told each of them about leadership
  while it applied them.\<close>

theorem replicas_agree:
  assumes "applyAll applyOps ls ms = Runs t" "applyAll applyOps ls' ms' = Runs t'"
    and "store ls = store ls'" "opsApplied ls = opsApplied ls'" "map snd ms = map snd ms'"
  shows "store t = store t' \<and> opsApplied t = opsApplied t'"
  using locks.agree [OF assms(1,2)] assms(3-5) by (simp add: machineOf_def)

theorem replicas_agree_witness:
  "\<exists>t t'. applyAll applyOps demoServer [((demoRaft Follower, demoRaft Follower), demoMsg LockOp 1 1 1)] = Runs t
     \<and> applyAll applyOps demoServer [((demoRaft Leader, demoRaft Leader), demoMsg LockOp 1 1 1)] = Runs t'
     \<and> gives t \<noteq> gives t' \<and> store t = store t'"
proof -
  let ?t' = "demoLocked\<lparr>gives := [(1, ''k'')], events := [\<lparr>ev_Op = LockOp, ev_eventType = ServerEvent, ev_key = ''k'', ev_id = 1\<rparr>]\<rparr>"
  have r: "applyAll applyOps demoServer [((demoRaft Follower, demoRaft Follower), demoMsg LockOp 1 1 1)] = Runs demoLocked"
    "applyAll applyOps demoServer [((demoRaft Leader, demoRaft Leader), demoMsg LockOp 1 1 1)] = Runs ?t'"
    by (simp_all add: demo_apply demo_apply_leader)
  have "gives demoLocked \<noteq> gives ?t'" by (simp add: demoLocked_def demoServer_def)
  with replicas_agree [OF r] r show ?thesis by auto
qed



text \<open>At most once. An operation that has been applied before changes nothing when it is applied again, no
  matter what was applied in between: a clerk that resends a request does not take a lock twice or
  release it for somebody else.\<close>

lemma at_most_once:
  assumes "op \<in> set ops"
  shows "machineStep (foldl machineStep m ops) op = foldl machineStep m ops"
  using machine_remembers [OF assms, of m] by (auto simp: machineStep_def newRequest_def)

text \<open>C16: A reply of OK is true. When the handler \<open>Mutex\<close> answers OK to a request, an operation with the same
  client and the same request number has been applied at the index Raft gave it, and the state machine
  has recorded the request.\<close>

theorem mutex_ok_applied:
  assumes "serving (ls, ms)" "waitSelect ls index False = Runs (ls', received)"
    and "MutexReply op (Some index) received = OK"
  shows "(\<exists>msg\<in>set ms. \<exists>applied. CommandIndex msg = index \<and> msgCommand msg = Some applied \<and> isSameOp op applied)
    \<and> (\<exists>lastId. opsApplied ls (op_ClientId op) = Some lastId \<and> op_RequestId op \<le> lastId)"
proof -
  from serving_inv [OF assms(1)] have inv: "svc_inv (ls, ms)" .
  from assms(2,3) obtain applied rest where ch: "resultChan ls index = applied # rest" "isSameOp op applied"
    by (auto simp: waitSelect_def MutexReply_def split: list.splits if_splits)
  with inv obtain msg where msg: "msg \<in> set ms" "CommandIndex msg = index" "the (msgCommand msg) = applied"
    using chan_invD(2) [of "(ls, ms)" index applied rest] by (auto simp: svc_inv_def)
  with inv have "msgCommand msg = Some applied" by (auto simp: svc_inv_def)
  moreover have "foldl machineStep (Map.empty, Map.empty) (map (the \<circ> msgCommand) ms) = (store ls, opsApplied ls)"
    using inv by (simp add: svc_inv_def machineOf_def)
  with machine_remembers [of applied "map (the \<circ> msgCommand) ms" "(Map.empty, Map.empty)"] msg
  have "\<exists>l. opsApplied ls (op_ClientId applied) = Some l \<and> op_RequestId applied \<le> l" by auto
  ultimately show ?thesis using msg ch(2) by (auto simp: isSameOp_def)
qed


theorem mutex_ok_applied_witness:
  "MutexReply (demoOp LockOp 1 1) (Some 1) (Some (demoOp LockOp 1 1)) = OK
   \<and> (\<exists>lastId. opsApplied demoLocked (op_ClientId (demoOp LockOp 1 1)) = Some lastId
       \<and> op_RequestId (demoOp LockOp 1 1) \<le> lastId)"
proof -
  have "waitSelect demoLocked 1 False = Runs (demoLocked\<lparr>results := [1 \<mapsto> []]\<rparr>, Some (demoOp LockOp 1 1))"
    by (simp add: waitSelect_def demo_defs)
  moreover have "MutexReply (demoOp LockOp 1 1) (Some 1) (Some (demoOp LockOp 1 1)) = OK"
    by (simp add: MutexReply_def isSameOp_def)
  ultimately show ?thesis using mutex_ok_applied [OF demo_serving] by blast
qed


definition ownerOf :: "(string, ClientID) LockStore \<Rightarrow> string \<Rightarrow> ClientID option" where
  "ownerOf st key = (case lookup_slice st key of [] \<Rightarrow> None | c # _ \<Rightarrow> Some c)"

lemma getLockOwner_owner:
  "wf_store st \<Longrightarrow> getLockOwner st key = Inr (case ownerOf st key of None \<Rightarrow> (0, False) | Some c \<Rightarrow> (c, True))"
  by (simp add: getLockOwner_eq ownerOf_def split: list.splits)

text \<open>C17: The new owner is told. When a leader applies an operation, \<open>ReceiveLock\<close> is called exactly when
  the operation gives the lock of its key to a client that did not own it before, and then on that client.
  Clients have end points and identifiers other than 0, the zero value that stands for no owner.\<close>

theorem new_owner_told:
  assumes "wf_store (store ls)" "isLeader rf" "isLeader rf'"
    and "0 \<notin> set (clerkEnds ls)" "op_ClientId op \<in> set (clerkEnds ls)"
    and "set (lookup_slice (store ls) (op_Key op)) \<subseteq> set (clerkEnds ls)"
  shows "\<exists>ls'. applyToStateMachine rf rf' ls op = Inr ls' \<and> store ls' = storeOp (store ls) op
    \<and> gives ls' = gives ls @ (case ownerOf (store ls') (op_Key op) of None \<Rightarrow> []
        | Some c \<Rightarrow> if ownerOf (store ls) (op_Key op) = Some c then [] else [(c, op_Key op)])"
proof -
  let ?k = "op_Key op" and ?st' = "storeOp (store ls) op"
  have wf': "wf_store ?st'" using assms(1) by (rule wf_storeOp)
  have sub: "set (lookup_slice ?st' ?k) \<subseteq> set (clerkEnds ls)"
    using assms(1,5,6) by (auto simp: storeOp_def store.queue_acquire store.queue_release split: if_splits)
  have own: "ownerOf st ?k = Some c \<Longrightarrow> c \<in> set (lookup_slice st ?k)" for st c
    by (auto simp: ownerOf_def split: list.splits)
  have nz: "c \<in> set (clerkEnds ls)" "c \<noteq> 0" if "ownerOf (store ls) ?k = Some c \<or> ownerOf ?st' ?k = Some c" for c
    using that own [of "store ls" c] own [of ?st' c] assms(4,6) sub by auto
  obtain ls' where ls': "applyToStateMachine rf rf' ls op = Inr ls'" using applyToStateMachine_runs [OF assms(1)] by blast
  note st = applyToStateMachine_machine(1) [OF this]
  have "gives ls' = gives ls @ (case ownerOf ?st' ?k of None \<Rightarrow> []
        | Some c \<Rightarrow> if ownerOf (store ls) ?k = Some c then [] else [(c, ?k)])"
    using ls' assms(1-4) wf' nz
    by (auto simp: applyToStateMachine_def getLockOwner_owner giveLockToOwner_def Let_def storeOp_def
        split: option.splits if_splits)
  with ls' st show ?thesis by auto
qed

theorem new_owner_told_witness:
  "\<exists>ls'. applyToStateMachine (demoRaft Leader) (demoRaft Leader) (demoLocked\<lparr>store := [''k'' \<mapsto> [1, 2]]\<rparr>) (demoOp UnlockOp 1 2) = Inr ls'
     \<and> gives ls' = [(2, ''k'')]"
proof -
  let ?ls = "demoLocked\<lparr>store := [''k'' \<mapsto> [1, 2]]\<rparr>"
  have "wf_store (store ?ls)" "isLeader (demoRaft Leader)" "0 \<notin> set (clerkEnds ?ls)" "op_ClientId (demoOp UnlockOp 1 2) \<in> set (clerkEnds ?ls)"
    "set (lookup_slice (store ?ls) (op_Key (demoOp UnlockOp 1 2))) \<subseteq> set (clerkEnds ?ls)"
    by (auto simp: wf_store_def demo_defs)
  from new_owner_told [OF this(1,2,2-5)] show ?thesis
    by (auto simp: storeOp_def unlock_eq demo_defs ownerOf_def)
qed

text \<open>C18: First come, first served. As long as a waiting client does not give up, it is never overtaken: the clients
  ahead of it after any sequence of operations of anybody are those that were ahead and have not unlocked;
  and once they all have, it owns the lock and is the client \<open>getLockOwner\<close> returns.\<close>

theorem lock_fifo:
  assumes "wf_store st" "c \<in> set (lookup_slice st k)" "DoUnlock k c \<notin> set as"
  defines "st' \<equiv> foldl (do_op lock unlock) st as"
  shows "ahead c (lookup_slice st' k) = {d \<in> ahead c (lookup_slice st k). DoUnlock k d \<notin> set as}
    \<and> ((\<forall>d\<in>ahead c (lookup_slice st k). DoUnlock k d \<in> set as) \<longrightarrow> getLockOwner st' k = Inr (c, True))"
proof -
  have "wf_store st'" unfolding st'_def by (rule store.ok_run [OF assms(1)])
  then show ?thesis
    using store.no_overtaking [OF assms(1-3)] store.gets_lock [OF assms(1-3)]
    by (auto simp: st'_def getLockOwner_eq)
qed

theorem lock_fifo_witness:
  "getLockOwner (foldl (do_op lock unlock) [''k'' \<mapsto> [1, 2]] [DoLock ''k'' 3, DoUnlock ''k'' 1]) ''k'' = Inr (2 :: int, True)"
  using lock_fifo [of "[''k'' \<mapsto> [1, 2 :: int]]" 2 "''k''" "[DoLock ''k'' 3, DoUnlock ''k'' 1]"]
  by (simp add: wf_store_def lookup_slice_def)

section \<open>The apply channel\<close>








end


