(* ===== verification/Lock_Clerk.thy ===== *)
theory Lock_Clerk
  imports Lock_Safety
begin

text \<open>
  \<open>src/raft-lock/clerk.go\<close>: the client of the lock service. The servers are only known by their
  number, \<open>attempt k args server\<close> is what the \<open>k\<close>-th \<open>Call\<close> of a request returns: whether it got
  through, and the reply. \<open>SendMutex\<close> tries one server after the other, without a bound; \<open>None\<close> is a loop
  that never ends. \<open>nrand\<close> draws the identifier of a clerk and is not modelled.
\<close>

record Clerk =
  ck_servers :: nat
  ck_events :: "Event list"
  leaderId :: int
  ck_ClientID :: ClientID
  requestId :: int

definition MakeClerk :: "nat \<Rightarrow> ClientID \<Rightarrow> Clerk" where
  "MakeClerk servers clientId =
     \<lparr>ck_servers = servers, ck_events = [], leaderId = 0, ck_ClientID = clientId, requestId = 0\<rparr>"

definition ReceiveLock :: "Clerk \<Rightarrow> string \<Rightarrow> Clerk" where
  "ReceiveLock ck key = ck\<lparr>ck_events := ck_events ck @
     [\<lparr>ev_Op = AcquireLockOp, ev_eventType = ClientEvent, ev_key = key, ev_id = ck_ClientID ck\<rparr>]\<rparr>"

partial_function (option) sendLoop ::
    "(nat \<Rightarrow> MutexArgs \<Rightarrow> int \<Rightarrow> bool \<times> Err) \<Rightarrow> MutexArgs \<Rightarrow> nat \<Rightarrow> int \<Rightarrow> nat \<Rightarrow> int go option" where
  "sendLoop attempt args n server k =
     (if \<not> (0 \<le> server \<and> server < int n) then Some (Inl IndexOutOfRange)
      else if fst (attempt k args server) \<and> snd (attempt k args server) \<noteq> ErrWrongLeader then Some (Inr server)
      else sendLoop attempt args n ((server + 1) mod int n) (Suc k))"

definition SendMutex ::
    "(nat \<Rightarrow> MutexArgs \<Rightarrow> int \<Rightarrow> bool \<times> Err) \<Rightarrow> Clerk \<Rightarrow> string \<Rightarrow> OpType \<Rightarrow> Clerk go option" where
  "SendMutex attempt ck key op =
     (let reqId = requestId ck + 1; leader = leaderId ck;
          ck1 = ck\<lparr>requestId := reqId\<rparr>;
          args = \<lparr>ma_Key = key, ma_Op = op, ma_ClientId = ck_ClientID ck, ma_RequestId = reqId\<rparr>
      in map_option (\<lambda>r. go_bind r (\<lambda>server. Inr (ck1\<lparr>leaderId := server\<rparr>)))
           (sendLoop attempt args (ck_servers ck) leader 0))"

definition Lock_clerk :: "(nat \<Rightarrow> MutexArgs \<Rightarrow> int \<Rightarrow> bool \<times> Err) \<Rightarrow> Clerk \<Rightarrow> string \<Rightarrow> Clerk go option" where
  "Lock_clerk attempt ck key = SendMutex attempt ck key LockOp"

definition Unlock_clerk :: "(nat \<Rightarrow> MutexArgs \<Rightarrow> int \<Rightarrow> bool \<times> Err) \<Rightarrow> Clerk \<Rightarrow> string \<Rightarrow> Clerk go option" where
  "Unlock_clerk attempt ck key = SendMutex attempt ck key UnlockOp"

section \<open>Round robin\<close>

text \<open>The \<open>k\<close>-th attempt of a request that starts at server \<open>i\<close> goes to server \<open>(i + k) mod n\<close>.\<close>

definition answered :: "(nat \<Rightarrow> MutexArgs \<Rightarrow> int \<Rightarrow> bool \<times> Err) \<Rightarrow> MutexArgs \<Rightarrow> nat \<Rightarrow> int \<Rightarrow> nat \<Rightarrow> bool" where
  "answered attempt args n i k \<longleftrightarrow> fst (attempt k args ((i + int k) mod int n))
     \<and> snd (attempt k args ((i + int k) mod int n)) \<noteq> ErrWrongLeader"

lemma next_server: "((i + int j) mod n + 1) mod n = (i + int (Suc j)) mod n"
  using mod_add_left_eq [of "i + int j" n 1] by (simp add: algebra_simps)

lemma sendLoop_first:
  assumes "answered attempt args n i k" "\<forall>j<k. \<not> answered attempt args n i j" "j \<le> k" "0 < n"
  shows "sendLoop attempt args n ((i + int j) mod int n) j = Some (Inr ((i + int k) mod int n))"
  using assms(3)
proof (induction "k - j" arbitrary: j)
  case 0
  with assms show ?case by (simp add: sendLoop.simps [of _ _ _ _ j] answered_def)
next
  case (Suc d)
  then have j: "j < k" by simp
  with Suc.hyps(1) [of "Suc j"] Suc.hyps(2)
  have "sendLoop attempt args n ((i + int (Suc j)) mod int n) (Suc j) = Some (Inr ((i + int k) mod int n))" by simp
  moreover have "((i + int j) mod int n + 1) mod int n = (i + int (Suc j)) mod int n"
    by (rule next_server)
  moreover have "\<not> answered attempt args n i j" using assms(2) j by blast
  ultimately show ?case using assms(4) by (subst sendLoop.simps) (auto simp: answered_def)
qed

definition reachesAnswer :: "int \<Rightarrow> (nat \<Rightarrow> MutexArgs \<Rightarrow> int \<Rightarrow> bool \<times> Err) \<Rightarrow> MutexArgs \<Rightarrow> nat \<Rightarrow> int \<Rightarrow> nat \<Rightarrow> bool" where
  "reachesAnswer i attempt args n server j \<longleftrightarrow>
     (0 < n \<and> server = (i + int j) mod int n \<longrightarrow> (\<exists>k\<ge>j. answered attempt args n i k))"

lemma sendLoop_answered:
  assumes "sendLoop attempt args n server j = Some r"
  shows "reachesAnswer i attempt args n server j"
proof (rule sendLoop.raw_induct [of "\<lambda>attempt args n server j r. reachesAnswer i attempt args n server j", OF _ assms])
  fix sl attempt args n server j r
  assume IH: "\<And>attempt args n server j r. sl attempt args n server j = Some r \<Longrightarrow> reachesAnswer i attempt args n server j"
    and st: "(if \<not> (0 \<le> server \<and> server < int n) then Some (Inl IndexOutOfRange)
      else if fst (attempt j args server) \<and> snd (attempt j args server) \<noteq> ErrWrongLeader then Some (Inr server)
      else sl attempt args n ((server + 1) mod int n) (Suc j)) = Some r"
  show "reachesAnswer i attempt args n server j"
    unfolding reachesAnswer_def
  proof (intro impI)
    assume s: "0 < n \<and> server = (i + int j) mod int n"
    show "\<exists>k\<ge>j. answered attempt args n i k"
    proof (cases "answered attempt args n i j")
      case False
      with st s have "sl attempt args n ((server + 1) mod int n) (Suc j) = Some r"
        by (auto simp: answered_def split: if_splits)
      from IH [OF this] s next_server [of i j "int n"] show ?thesis
        by (auto simp: reachesAnswer_def intro: Suc_leD)
    qed auto
  qed
qed

section \<open>Exactly once\<close>







text \<open>C19: A clerk finds the leader. \<open>SendMutex\<close> tries the servers in a circle, starting with the last known
  leader. It returns exactly when some attempt is answered by a server that does not refuse as a wrong leader,
  and then remembers the first such server and has used up one request number.\<close>

theorem SendMutex_spec:
  fixes key :: string and op :: OpType and attempt :: "nat \<Rightarrow> MutexArgs \<Rightarrow> int \<Rightarrow> bool \<times> Err"
  assumes "0 < ck_servers ck" "0 \<le> leaderId ck" "leaderId ck < int (ck_servers ck)"
  defines "args \<equiv> \<lparr>ma_Key = key, ma_Op = op, ma_ClientId = ck_ClientID ck, ma_RequestId = requestId ck + 1\<rparr>"
  defines "good \<equiv> answered attempt args (ck_servers ck) (leaderId ck)"
  shows "(SendMutex attempt ck key op \<noteq> None \<longleftrightarrow> (\<exists>k. good k))
    \<and> (\<forall>k. good k \<and> (\<forall>j<k. \<not> good j) \<longrightarrow> SendMutex attempt ck key op
         = Some (Inr (ck\<lparr>requestId := requestId ck + 1, leaderId := (leaderId ck + int k) mod int (ck_servers ck)\<rparr>)))"
proof -
  let ?n = "ck_servers ck" and ?i = "leaderId ck"
  have i: "(?i + int 0) mod int ?n = ?i" using assms(2,3) by simp
  have first: "sendLoop attempt args ?n ?i 0 = Some (Inr ((?i + int k) mod int ?n))" if "good k" "\<forall>j<k. \<not> good j" for k
    using sendLoop_first [of attempt args ?n ?i k 0] that assms(1) i by (simp add: good_def)
  have "sendLoop attempt args ?n ?i 0 \<noteq> None \<longleftrightarrow> (\<exists>k. good k)"
  proof
    assume "sendLoop attempt args ?n ?i 0 \<noteq> None"
    then obtain r where "sendLoop attempt args ?n ?i 0 = Some r" by blast
    from sendLoop_answered [OF this, of ?i] i assms(1) show "\<exists>k. good k" by (auto simp: reachesAnswer_def good_def)
  next
    assume "\<exists>k. good k"
    then have "good (LEAST k. good k)" "\<forall>j<(LEAST k. good k). \<not> good j" by (auto intro: LeastI_ex dest: not_less_Least)
    from first [OF this] show "sendLoop attempt args ?n ?i 0 \<noteq> None" by simp
  qed
  then show ?thesis unfolding SendMutex_def Let_def args_def [symmetric] by (auto simp: first)
qed

definition thirdLeads :: "nat \<Rightarrow> MutexArgs \<Rightarrow> int \<Rightarrow> bool \<times> Err" where
  "thirdLeads k args server = (True, if server = 2 then OK else ErrWrongLeader)"

theorem SendMutex_spec_witness:
  "SendMutex thirdLeads (MakeClerk 3 7) ''k'' LockOp
    = Some (Inr \<lparr>ck_servers = 3, ck_events = [], leaderId = 2, ck_ClientID = 7, requestId = 1\<rparr>)"
proof -
  have "\<forall>j<2. \<not> answered thirdLeads args 3 0 j" "answered thirdLeads args 3 0 2" for args
    by (auto simp: answered_def thirdLeads_def less_Suc_eq numeral_2_eq_2)
  then show ?thesis
    using SendMutex_spec [of "MakeClerk 3 7" thirdLeads "''k''" LockOp, THEN conjunct2, rule_format, of 2]
    by (simp add: MakeClerk_def)
qed

end
