(* ===== verification/MR_Worker.thy ===== *)
theory MR_Worker
  imports Prelude "HOL-Library.Word" "HOL-Library.List_Lexorder" "HOL-Library.Char_ord"
begin

unbundle bit_operations_syntax

text \<open>
  \<open>src/mr/worker.go\<close>: the map and reduce tasks a worker runs, and the same loops in
  \<open>src/mr-main/mrsequential.go\<close>. A file system maps names to contents: the text of an input file, the
  sequence of values an intermediate JSON file holds, or the lines of an output file. The JSON encoding of a pair
  of strings and its decoding are taken as inverse to each other. \<open>sort.Sort\<close> is a parameter of
  which the reduce task uses that it returns a sorted permutation: Go documents no more, and its
  sort is not stable. \<open>log.Fatal\<close> ends the worker and is an error value.
\<close>

section \<open>Data\<close>

record KeyValue =
  Key :: string
  Value :: string

datatype content = Text string | Json "KeyValue list" | Lines "string list"

type_synonym fs = "string \<rightharpoonup> content"

section \<open>Names\<close>

text \<open>\<open>strconv.Itoa\<close> on the numbers of tasks, which are not negative.\<close>

definition digit :: "nat \<Rightarrow> char" where
  "digit d = char_of (48 + d)"

fun itoa :: "nat \<Rightarrow> string" where
  "itoa n = (if n < 10 then [digit n] else itoa (n div 10) @ [digit (n mod 10)])"

declare itoa.simps [simp del]

definition interName :: "nat \<Rightarrow> nat \<Rightarrow> string" where
  "interName mapId part = ''mr-'' @ itoa mapId @ ''-'' @ itoa part"

definition outName :: "nat \<Rightarrow> string" where
  "outName r = ''mr-out-'' @ itoa r"

section \<open>Partitions\<close>

text \<open>\<open>fnv.New32a\<close>: FNV-1a with 32 bits, one step per byte.\<close>

definition fnv_offset :: "32 word" where "fnv_offset = 2166136261"
definition fnv_prime :: "32 word" where "fnv_prime = 16777619"

fun fnv1a :: "string \<Rightarrow> 32 word \<Rightarrow> 32 word" where
  "fnv1a [] h = h"
| "fnv1a (c # cs) h = fnv1a cs ((h XOR of_char c) * fnv_prime)"

definition ihash :: "string \<Rightarrow> nat" where
  "ihash key = unat (fnv1a key fnv_offset AND 0x7fffffff)"

definition partition_of :: "nat \<Rightarrow> string \<Rightarrow> nat go" where
  "partition_of n key = (if n = 0 then Inl DivideByZero else Inr (ihash key mod n))"

text \<open>The hash is reduced as an integer when it is evaluated.\<close>

lemma unat_mod_uint: "unat w mod n = nat (uint w mod int n)"
  by (metis nat_int uint_nat zmod_int)

lemma partition_of_code [code]:
  "partition_of n key = (if n = 0 then Inl DivideByZero
     else Inr (nat (uint (fnv1a key fnv_offset AND 0x7fffffff) mod int n)))"
  by (simp only: partition_of_def ihash_def unat_mod_uint)

section \<open>The map task\<close>

definition readText :: "fs \<Rightarrow> string \<Rightarrow> string go" where
  "readText f name = (case f name of Some (Text t) \<Rightarrow> Inr t | _ \<Rightarrow> Inl (Fatal ''cannot open''))"

text \<open>Create, or truncate, the intermediate files of the task.\<close>

definition createInter :: "fs \<Rightarrow> nat \<Rightarrow> nat \<Rightarrow> fs" where
  "createInter f mapId n = fold (\<lambda>i g. g(interName mapId i \<mapsto> Json [])) [0..<n] f"

definition appendKV :: "fs \<Rightarrow> string \<Rightarrow> KeyValue \<Rightarrow> fs go" where
  "appendKV f name kv = (case f name of
     Some (Json kvs) \<Rightarrow> Inr (f(name \<mapsto> Json (kvs @ [kv])))
   | None \<Rightarrow> Inr (f(name \<mapsto> Json [kv]))
   | _ \<Rightarrow> Inl (Fatal ''error writing to partition''))"

fun writeLoop :: "fs \<Rightarrow> nat \<Rightarrow> nat \<Rightarrow> KeyValue list \<Rightarrow> fs go" where
  "writeLoop f mapId n [] = Inr f"
| "writeLoop f mapId n (kv # kva) =
     go_bind (partition_of n (Key kv)) (\<lambda>p.
     go_bind (appendKV f (interName mapId p) kv) (\<lambda>g. writeLoop g mapId n kva))"

definition DoMap :: "(string \<Rightarrow> string \<Rightarrow> KeyValue list) \<Rightarrow> string \<Rightarrow> nat \<Rightarrow> nat \<Rightarrow> fs \<Rightarrow> fs go" where
  "DoMap mapf file n mapId f =
     go_bind (readText f file) (\<lambda>text.
     let kva = mapf file text in writeLoop (createInter f mapId n) mapId n kva)"

section \<open>The reduce task\<close>

definition readJson :: "fs \<Rightarrow> string \<Rightarrow> KeyValue list go" where
  "readJson f name = (case f name of Some (Json kvs) \<Rightarrow> Inr kvs
     | Some _ \<Rightarrow> Inr [] | None \<Rightarrow> Inl (Fatal ''error opening file reduce''))"

fun readLoop :: "fs \<Rightarrow> nat \<Rightarrow> nat list \<Rightarrow> KeyValue list \<Rightarrow> KeyValue list go" where
  "readLoop f r [] acc = Inr acc"
| "readLoop f r (i # is) acc = go_bind (readJson f (interName i r)) (\<lambda>kvs. readLoop f r is (acc @ kvs))"

text \<open>The inner loop: from \<open>j\<close> on, the first position whose key differs from that at \<open>i\<close>.\<close>

function groupEnd :: "KeyValue list \<Rightarrow> nat \<Rightarrow> nat \<Rightarrow> nat" where
  "groupEnd xs i j = (if j < length xs \<and> Key (xs ! j) = Key (xs ! i) then groupEnd xs i (j + 1) else j)"
  by pat_completeness auto
termination
  by (relation "measure (\<lambda>(xs, i, j). length xs - j)") auto

declare groupEnd.simps [simp del]

lemma groupEnd_ge: "j \<le> groupEnd xs i j"
  by (induction xs i j rule: groupEnd.induct) (subst groupEnd.simps, auto)

definition line :: "string \<Rightarrow> string \<Rightarrow> string" where
  "line key output = key @ '' '' @ output @ [CHR 0x0A]"

text \<open>The outer loop: one line for every group of equal keys.\<close>

function reduceLoop :: "(string \<Rightarrow> string list \<Rightarrow> string) \<Rightarrow> KeyValue list \<Rightarrow> nat \<Rightarrow> string list \<Rightarrow> string list" where
  "reduceLoop reducef xs i out =
     (if i < length xs then
        let j = groupEnd xs i (i + 1);
            values = map (\<lambda>k. Value (xs ! k)) [i..<j];
            output = reducef (Key (xs ! i)) values
        in reduceLoop reducef xs j (out @ [line (Key (xs ! i)) output])
      else out)"
  by pat_completeness auto
termination
proof (relation "measure (\<lambda>(reducef, xs, i, out). length xs - i)", goal_cases)
  case (2 reducef xs i out j vs res)
  then show ?case using groupEnd_ge [of "i + 1" xs i] by auto
qed simp

declare reduceLoop.simps [simp del]

definition DoReduce ::
    "(KeyValue list \<Rightarrow> KeyValue list) \<Rightarrow> (string \<Rightarrow> string list \<Rightarrow> string) \<Rightarrow> nat \<Rightarrow> nat \<Rightarrow> fs \<Rightarrow> fs go" where
  "DoReduce sorter reducef r nMap f =
     go_bind (readLoop f r [0..<nMap] []) (\<lambda>intermediate.
     Inr (f(outName r \<mapsto> Lines (reduceLoop reducef (sorter intermediate) 0 []))))"

section \<open>The sequential program\<close>

fun mapAll :: "(string \<Rightarrow> string \<Rightarrow> KeyValue list) \<Rightarrow> fs \<Rightarrow> string list \<Rightarrow> KeyValue list \<Rightarrow> KeyValue list go" where
  "mapAll mapf f [] acc = Inr acc"
| "mapAll mapf f (file # files) acc =
     go_bind (readText f file) (\<lambda>text. mapAll mapf f files (acc @ mapf file text))"

definition mrsequential ::
    "(KeyValue list \<Rightarrow> KeyValue list) \<Rightarrow> (string \<Rightarrow> string \<Rightarrow> KeyValue list) \<Rightarrow> (string \<Rightarrow> string list \<Rightarrow> string)
      \<Rightarrow> string list \<Rightarrow> fs \<Rightarrow> fs go" where
  "mrsequential sorter mapf reducef files f =
     go_bind (mapAll mapf f files []) (\<lambda>intermediate.
     Inr (f(''mr-out-0'' \<mapsto> Lines (reduceLoop reducef (sorter intermediate) 0 []))))"

end
