(* ===== verification/MR_Tasks.thy ===== *)
theory MR_Tasks
  imports MR_Worker
begin

text \<open>
  The tasks of a worker do what they should: file names do not clash, a map task leaves exactly the pairs of each
  partition in its file, and the index loops of the reduce task write one line for every key. A
  job split into map and reduce tasks writes the same lines as the sequential program.
\<close>

section \<open>File names\<close>

lemma of_char_digit: "a < 10 \<Longrightarrow> of_char (digit a) = (48 + a :: nat)"
  unfolding digit_def of_char_of take_bit_eq_mod by (subst mod_less) auto

lemma digit_inj: "a < 10 \<Longrightarrow> b < 10 \<Longrightarrow> digit a = digit b \<Longrightarrow> a = b"
  by (metis add_left_cancel of_char_digit)

lemma digit_not_sep: "a < 10 \<Longrightarrow> digit a \<noteq> CHR ''-''" "a < 10 \<Longrightarrow> digit a \<noteq> CHR ''o''"
  using of_char_digit [of a] by auto

lemma itoa_not_Nil [simp]: "itoa n \<noteq> []"
  by (subst itoa.simps) simp

lemmas itoa_not_Nil' [simp] = itoa_not_Nil [symmetric]

lemma itoa_chars: "c \<in> set (itoa n) \<Longrightarrow> c \<noteq> CHR ''-'' \<and> c \<noteq> CHR ''o''"
proof (induction n rule: itoa.induct)
  case (1 n)
  then show ?case by (subst (asm) (2) itoa.simps) (auto simp: digit_not_sep split: if_splits)
qed

lemma itoa_inj: "itoa m = itoa n \<Longrightarrow> m = n"
proof (induction m arbitrary: n rule: itoa.induct)
  case (1 m)
  show ?case
  proof (cases "m < 10")
    case True
    with 1(2) show ?thesis
      by (cases "n < 10") (auto simp: itoa.simps [of m] itoa.simps [of n] intro: digit_inj)
  next
    case False
    with 1(2) have n: "\<not> n < 10" by (auto simp: itoa.simps [of m] itoa.simps [of n])
    with False 1(2) have eq: "itoa (m div 10) = itoa (n div 10)" "digit (m mod 10) = digit (n mod 10)"
      by (simp_all add: itoa.simps [of m] itoa.simps [of n])
    from 1(1) [OF False eq(1)] digit_inj [OF _ _ eq(2)] show ?thesis
      by (metis div_mult_mod_eq mod_less_divisor zero_less_numeral)
  qed
qed

lemma append_sep_eq:
  assumes "xs @ s # ys = xs' @ s # ys'" "s \<notin> set xs" "s \<notin> set xs'"
  shows "xs = xs' \<and> ys = ys'"
  using assms
proof (induction xs arbitrary: xs')
  case Nil
  then show ?case by (cases xs') auto
next
  case (Cons x xs)
  then show ?case by (cases xs') auto
qed

lemma interName_inj [simp]: "interName a b = interName c d \<longleftrightarrow> a = c \<and> b = d"
proof
  assume "interName a b = interName c d"
  then have "itoa a @ CHR ''-'' # itoa b = itoa c @ CHR ''-'' # itoa d" by (simp add: interName_def)
  from append_sep_eq [OF this] itoa_chars show "a = c \<and> b = d" by (blast dest: itoa_inj)
qed simp

lemma outName_inj [simp]: "outName a = outName b \<longleftrightarrow> a = b"
  by (auto simp: outName_def dest: itoa_inj)

lemma interName_outName [simp]: "interName a b \<noteq> outName r" "outName r \<noteq> interName a b"
proof -
  obtain c cs where c: "itoa a = c # cs" by (cases "itoa a") auto
  with itoa_chars [of c a] show "interName a b \<noteq> outName r" by (simp add: interName_def outName_def)
  then show "outName r \<noteq> interName a b" by simp
qed

section \<open>The map task\<close>

definition bucket :: "nat \<Rightarrow> nat \<Rightarrow> KeyValue list \<Rightarrow> KeyValue list" where
  "bucket n p kva = filter (\<lambda>kv. ihash (Key kv) mod n = p) kva"

lemma createInter_at:
  "createInter f m n name = (if \<exists>i<n. name = interName m i then Some (Json []) else f name)"
proof (induction n)
  case (Suc n)
  then show ?case by (auto simp: createInter_def less_Suc_eq)
qed (simp add: createInter_def)

lemma writeLoop_result:
  assumes "0 < n" "\<And>i. i < n \<Longrightarrow> f (interName m i) = Some (Json (h i))"
  shows "\<exists>g. writeLoop f m n kva = Inr g
    \<and> (\<forall>i<n. g (interName m i) = Some (Json (h i @ bucket n i kva)))
    \<and> (\<forall>name. (\<forall>i<n. name \<noteq> interName m i) \<longrightarrow> g name = f name)"
  using assms(2)
proof (induction kva arbitrary: f h)
  case (Cons kv kva)
  let ?p = "ihash (Key kv) mod n"
  let ?f = "f(interName m ?p \<mapsto> Json (h ?p @ [kv]))" and ?h = "h(?p := h ?p @ [kv])"
  have p: "?p < n" using assms(1) by simp
  have "?f (interName m i) = Some (Json (?h i))" if "i < n" for i using Cons.prems [OF that] by simp
  from Cons.IH [of ?f ?h, OF this] obtain g where g: "writeLoop ?f m n kva = Inr g"
    "\<forall>i<n. g (interName m i) = Some (Json (?h i @ bucket n i kva))"
    "\<forall>name. (\<forall>i<n. name \<noteq> interName m i) \<longrightarrow> g name = ?f name" by blast
  have "writeLoop f m n (kv # kva) = Inr g"
    using g(1) Cons.prems [OF p] assms(1) by (simp add: partition_of_def appendKV_def)
  with g(2,3) p show ?case by (auto simp: bucket_def)
qed (simp add: bucket_def)

lemma DoMap_result:
  assumes "0 < n" "f file = Some (Text t)"
  shows "\<exists>g. DoMap mapf file n m f = Inr g
    \<and> (\<forall>i<n. g (interName m i) = Some (Json (bucket n i (mapf file t))))
    \<and> (\<forall>name. (\<forall>i<n. name \<noteq> interName m i) \<longrightarrow> g name = f name)"
  using writeLoop_result [OF assms(1), of "createInter f m n" m "\<lambda>_. []" "mapf file t"] assms(2)
  by (auto simp: DoMap_def readText_def createInter_at)

section \<open>The reduce loop\<close>

text \<open>The groups of equal keys that are next to each other.\<close>

function groups :: "KeyValue list \<Rightarrow> (string \<times> string list) list" where
  "groups [] = []"
| "groups (kv # kvs) = (Key kv, map Value (kv # takeWhile (\<lambda>x. Key x = Key kv) kvs))
     # groups (dropWhile (\<lambda>x. Key x = Key kv) kvs)"
  by pat_completeness auto
termination
  by (relation "measure length") (auto simp: le_imp_less_Suc length_dropWhile_le)

lemma groupEnd_eq:
  "groupEnd xs i j = j + length (takeWhile (\<lambda>x. Key x = Key (xs ! i)) (drop j xs))"
proof (induction xs i j rule: groupEnd.induct)
  case (1 xs i j)
  show ?case
  proof (cases "j < length xs")
    case True
    then have "drop j xs = xs ! j # drop (Suc j) xs" by (simp add: Cons_nth_drop_Suc)
    with 1 True show ?thesis by (simp add: groupEnd.simps [of xs i j])
  qed (simp add: groupEnd.simps [of xs i j])
qed

lemma reduceLoop_groups:
  "reduceLoop reducef xs i out = out @ map (\<lambda>(k, vs). line k (reducef k vs)) (groups (drop i xs))"
proof (induction reducef xs i out rule: reduceLoop.induct)
  case (1 reducef xs i out)
  show ?case
  proof (cases "i < length xs")
    case True
    let ?P = "\<lambda>x. Key x = Key (xs ! i)" and ?rest = "drop (Suc i) xs"
    let ?j = "groupEnd xs i (Suc i)"
    have j: "?j = Suc i + length (takeWhile ?P ?rest)" by (simp add: groupEnd_eq)
    have d: "drop i xs = xs ! i # ?rest" using True by (simp add: Cons_nth_drop_Suc)
    have le: "?j \<le> length xs" using True length_takeWhile_le [of ?P ?rest] by (simp add: j)
    have "drop ?j xs = dropWhile ?P ?rest" by (simp add: j dropWhile_eq_drop add.commute)
    moreover have "map (\<lambda>k. Value (xs ! k)) [i..<?j] = map Value (xs ! i # takeWhile ?P ?rest)"
    proof -
      have "map (\<lambda>k. xs ! k) [i..<?j] = take (?j - i) (drop i xs)"
        using le by (intro nth_equalityI) auto
      also have "\<dots> = xs ! i # takeWhile ?P ?rest" by (simp add: d j takeWhile_eq_take [symmetric])
      finally show ?thesis by (metis (no_types, lifting) comp_apply list.map_comp map_eq_conv)
    qed
    ultimately show ?thesis using 1 [OF True] True by (simp add: reduceLoop.simps [of reducef xs i] d Let_def)
  qed (simp add: reduceLoop.simps [of reducef xs i])
qed


text \<open>In a list sorted by key the groups are all the values of each key.\<close>

definition values_of :: "string \<Rightarrow> KeyValue list \<Rightarrow> string list" where
  "values_of k kvs = map Value (filter (\<lambda>kv. Key kv = k) kvs)"

lemma groups_sorted:
  assumes "sorted (map Key xs)"
  shows "groups xs = map (\<lambda>k. (k, values_of k xs)) (sorted_list_of_set (Key ` set xs))"
  using assms
proof (induction xs rule: groups.induct)
  case (2 kv kvs)
  let ?P = "\<lambda>x. Key x = Key kv" and ?rest = "dropWhile (\<lambda>x. Key x = Key kv) kvs"
  have ge: "\<forall>x\<in>set kvs. Key kv \<le> Key x" and sk: "sorted (map Key kvs)" using 2(2) by auto
  have sr: "sorted (map Key ?rest)" 
    unfolding dropWhile_eq_drop drop_map [symmetric] using sk by (rule sorted_wrt_drop)
  have gt: "Key kv < Key x" if "x \<in> set ?rest" for x
  proof -
    from that obtain y ys where r: "?rest = y # ys" by (cases ?rest) auto
    then have "Key y \<noteq> Key kv" using hd_dropWhile [of ?P kvs] by auto
    moreover have "Key kv \<le> Key y" using ge r set_dropWhileD [of y ?P kvs] by auto
    moreover have "Key y \<le> Key x" using sr r that by auto
    ultimately show ?thesis by order
  qed
  have un: "set kvs = set (takeWhile ?P kvs) \<union> set ?rest" by (metis set_append takeWhile_dropWhile_id)
  have split: "filter Q kvs = filter Q (takeWhile ?P kvs) @ filter Q ?rest" for Q
    by (metis filter_append takeWhile_dropWhile_id)
  have tw: "filter ?P (takeWhile ?P kvs) = takeWhile ?P kvs" by (auto simp: filter_id_conv dest: set_takeWhileD)
  have fr: "filter ?P ?rest = []" by (auto simp: filter_empty_conv dest!: gt)
  have v: "values_of (Key kv) (kv # kvs) = map Value (kv # takeWhile ?P kvs)"
    by (simp add: values_of_def split tw fr)
  have vr: "values_of k (kv # kvs) = values_of k ?rest" if "Key kv < k" for k
  proof -
    have "filter (\<lambda>x. Key x = k) (takeWhile ?P kvs) = []" using that by (auto simp: filter_empty_conv dest: set_takeWhileD)
    moreover have "Key kv \<noteq> k" using that by simp
    ultimately show ?thesis by (simp add: values_of_def split)
  qed
  have keys: "Key ` set (kv # kvs) = insert (Key kv) (Key ` set ?rest)"
  proof
    show "Key ` set (kv # kvs) \<subseteq> insert (Key kv) (Key ` set ?rest)"
      unfolding un list.set using set_takeWhileD [of _ ?P kvs] by blast
  qed (auto dest: set_dropWhileD)
  have notin: "Key ` set ?rest - {Key kv} = Key ` set ?rest"
  proof -
    have "Key kv \<notin> Key ` set ?rest" using gt by (metis imageE order_less_irrefl)
    then show ?thesis by simp
  qed
  have "sorted_list_of_set (insert (Key kv) (Key ` set ?rest)) = insort (Key kv) (sorted_list_of_set (Key ` set ?rest))"
    using sorted_list_of_set_insert_remove [of "Key ` set ?rest" "Key kv"] notin by simp
  also have "\<dots> = Key kv # sorted_list_of_set (Key ` set ?rest)"
    by (rule insort_is_Cons) (auto dest!: gt simp: less_imp_le)
  finally have ks: "sorted_list_of_set (insert (Key kv) (Key ` set ?rest)) = Key kv # sorted_list_of_set (Key ` set ?rest)" .
  have vk: "values_of k ?rest = values_of k (kv # kvs)" if "k \<in> Key ` set ?rest" for k
  proof -
    from that obtain x where "x \<in> set ?rest" "k = Key x" by blast
    with gt [of x] vr [of k] show ?thesis by simp
  qed
  have "map (\<lambda>k. (k, values_of k ?rest)) (sorted_list_of_set (Key ` set ?rest))
      = map (\<lambda>k. (k, values_of k (kv # kvs))) (sorted_list_of_set (Key ` set ?rest))"
    by (rule map_cong [OF HOL.refl]) (simp add: vk)
  with 2(1) [OF sr] ks v show ?case by (simp only: keys groups.simps list.map)
qed simp


section \<open>Sorting\<close>

text \<open>
  What the reduce task relies on of \<open>sort.Sort(ByKey(...))\<close>. A reduce function does not
  depend on the order of its values if it gives the same result for every permutation of them.
\<close>

definition order_free :: "(string \<Rightarrow> string list \<Rightarrow> string) \<Rightarrow> bool" where
  "order_free reducef \<longleftrightarrow> (\<forall>k vs vs'. mset vs = mset vs' \<longrightarrow> reducef k vs = reducef k vs')"

text \<open>The lines a set of pairs should give: one for every key, in the order of the keys.\<close>

definition reduced :: "(string \<Rightarrow> string list \<Rightarrow> string) \<Rightarrow> KeyValue list \<Rightarrow> string list" where
  "reduced reducef kvs = map (\<lambda>k. line k (reducef k (values_of k kvs))) (sorted_list_of_set (Key ` set kvs))"

lemma values_of_mset: "mset kvs = mset kvs' \<Longrightarrow> mset (values_of k kvs) = mset (values_of k kvs')"
  unfolding values_of_def by (metis mset_filter mset_map)

lemma reduced_mset:
  assumes "order_free reducef" "mset kvs = mset kvs'"
  shows "reduced reducef kvs = reduced reducef kvs'"
proof -
  have "reducef k (values_of k kvs) = reducef k (values_of k kvs')" for k
    using assms(1) [unfolded order_free_def, rule_format, OF values_of_mset [OF assms(2)]] .
  moreover have "set kvs = set kvs'" using assms(2) by (rule mset_eq_setD)
  ultimately show ?thesis unfolding reduced_def by presburger
qed

locale key_sorter =
  fixes sorter :: "KeyValue list \<Rightarrow> KeyValue list"
  assumes permutes: "mset (sorter xs) = mset xs"
    and sorts: "sorted (map Key (sorter xs))"
begin

lemma reduceLoop_sorter:
  assumes "order_free reducef"
  shows "reduceLoop reducef (sorter xs) 0 [] = reduced reducef xs"
proof -
  have "reduceLoop reducef (sorter xs) 0 [] = reduced reducef (sorter xs)"
    by (simp add: reduceLoop_groups groups_sorted sorts reduced_def)
  also have "\<dots> = reduced reducef xs" by (rule reduced_mset [OF assms permutes])
  finally show ?thesis .
qed

end

text \<open>Sorting with \<open>ByKey.Less\<close>.\<close>

definition byKey :: "KeyValue list \<Rightarrow> KeyValue list" where
  "byKey kvs = sort_key Key kvs"

interpretation byKey: key_sorter byKey
  by unfold_locales (simp_all add: byKey_def)

section \<open>The job against the sequential program\<close>

text \<open>All pairs the map function makes of a list of files.\<close>

definition pairs :: "(string \<Rightarrow> string \<Rightarrow> KeyValue list) \<Rightarrow> (string \<times> string) list \<Rightarrow> KeyValue list" where
  "pairs mapf inputs = concat (map (\<lambda>(file, text). mapf file text) inputs)"

lemma bucket_values:
  "values_of k (bucket n p kvs) = (if ihash k mod n = p then values_of k kvs else [])"
  by (auto simp: values_of_def bucket_def filter_empty_conv intro: filter_cong arg_cong [where f = "map Value"])

lemma bucket_keys: "Key ` set (bucket n p kvs) = {k \<in> Key ` set kvs. ihash k mod n = p}"
  by (auto simp: bucket_def)

lemma bucket_concat: "bucket n p (concat xss) = concat (map (bucket n p) xss)"
  by (induction xss) (simp_all add: bucket_def)

lemma mset_sorted_set: "mset (sorted_list_of_set A) = mset_set A"
  by (metis mset_sorted_list_of_multiset sorted_list_of_mset_set)

lemma mset_set_partition:
  assumes "finite A" "\<And>x. x \<in> A \<Longrightarrow> g x < (n :: nat)"
  shows "sum_list (map (\<lambda>p. image_mset h (mset_set {x \<in> A. g x = p})) [0..<n]) = image_mset h (mset_set A)"
  using assms
proof (induction n arbitrary: A)
  case (Suc n)
  let ?B = "{x \<in> A. g x < n}" and ?C = "{x \<in> A. g x = n}"
  have IH: "sum_list (map (\<lambda>p. image_mset h (mset_set {x \<in> ?B. g x = p})) [0..<n]) = image_mset h (mset_set ?B)"
    by (rule Suc.IH) (use Suc.prems(1) in auto)
  have "{x \<in> ?B. g x = p} = {x \<in> A. g x = p}" if "p \<in> set [0..<n]" for p using that by auto
  then have eq: "map (\<lambda>p. image_mset h (mset_set {x \<in> ?B. g x = p})) [0..<n]
      = map (\<lambda>p. image_mset h (mset_set {x \<in> A. g x = p})) [0..<n]"
    by (intro map_cong [OF HOL.refl]) (simp only:)
  from IH [unfolded eq] have "sum_list (map (\<lambda>p. image_mset h (mset_set {x \<in> A. g x = p})) [0..<Suc n])
      = image_mset h (mset_set ?B) + image_mset h (mset_set ?C)" by simp
  also have "\<dots> = image_mset h (mset_set (?B \<union> ?C))"
    using Suc.prems(1) by (subst mset_set_Union) auto
  also have "?B \<union> ?C = A" using Suc.prems(2) by (auto simp: less_Suc_eq)
  finally show ?case .
next
  case 0
  then have "A = {}" by blast
  then show ?case by simp
qed

lemma reduced_buckets:
  assumes "0 < n"
  shows "mset (concat (map (\<lambda>p. reduced reducef (bucket n p kvs)) [0..<n])) = mset (reduced reducef kvs)"
proof -
  let ?h = "\<lambda>k. line k (reducef k (values_of k kvs))" and ?K = "Key ` set kvs"
  have red: "mset (reduced reducef (bucket n p kvs)) = image_mset ?h (mset_set {k \<in> ?K. ihash k mod n = p})" for p
  proof -
    let ?Kp = "{k \<in> ?K. ihash k mod n = p}"
    have fin: "finite ?Kp" by simp
    have "reduced reducef (bucket n p kvs) = map ?h (sorted_list_of_set ?Kp)"
      unfolding reduced_def bucket_keys by (rule map_cong) (auto simp: bucket_values set_sorted_list_of_set [OF fin])
    then show ?thesis using fin by (simp add: mset_sorted_set)
  qed
  have "mset (concat (map (\<lambda>p. reduced reducef (bucket n p kvs)) [0..<n]))
      = sum_list (map (\<lambda>p. image_mset ?h (mset_set {k \<in> ?K. ihash k mod n = p})) [0..<n])"
    by (simp add: mset_concat comp_def red)
  also have "\<dots> = image_mset ?h (mset_set ?K)" using assms by (intro mset_set_partition) auto
  also have "\<dots> = mset (reduced reducef kvs)" by (simp add: reduced_def mset_sorted_set)
  finally show ?thesis .
qed

end
