(* ===== verification/MR_Apps.thy ===== *)
theory MR_Apps
  imports MR_Tasks
begin

text \<open>
  The MapReduce applications under \<open>src/mr-main/mrapps\<close>. Contents are lists of characters;
  \<open>unicode.IsLetter\<close> is a parameter \<open>isLetter\<close>. Iterating over a Go map visits the keys in an order
  that is not specified, so \<open>indexer.go\<close> has a parameter \<open>order\<close> for it. The calls that make an application crash or sleep
  have no result; a crash is a worker that dies.

  The contract of an application is the locale \<open>mr_plugin\<close>: its reduce function must not depend on the order of the
  values of a key.
\<close>

section \<open>The contract of an application\<close>

locale mr_plugin =
  fixes mapf :: "string \<Rightarrow> string \<Rightarrow> KeyValue list" and reducef :: "string \<Rightarrow> string list \<Rightarrow> string"
  assumes free: "order_free reducef"
begin

text \<open>The result does not depend on the order of the input files.\<close>

lemma inputs_permute:
  assumes "mset inputs = mset inputs'"
  shows "reduced reducef (pairs mapf inputs) = reduced reducef (pairs mapf inputs')"
proof (rule reduced_mset [OF free])
  have "mset (pairs mapf xs) = sum_mset (image_mset (\<lambda>x. mset (mapf (fst x) (snd x))) (mset xs))" for xs
    by (induction xs) (auto simp: pairs_def)
  with assms show "mset (pairs mapf inputs) = mset (pairs mapf inputs')" by simp
qed

end

section \<open>Strings\<close>

text \<open>\<open>strings.FieldsFunc\<close>: the maximal runs of characters that are not separators.\<close>

fun fieldsLoop :: "(char \<Rightarrow> bool) \<Rightarrow> string \<Rightarrow> string \<Rightarrow> string list" where
  "fieldsLoop sep cur [] = (if cur = [] then [] else [cur])"
| "fieldsLoop sep cur (c # cs) =
     (if sep c then (if cur = [] then fieldsLoop sep [] cs else cur # fieldsLoop sep [] cs)
      else fieldsLoop sep (cur @ [c]) cs)"

definition fieldsFunc :: "string \<Rightarrow> (char \<Rightarrow> bool) \<Rightarrow> string list" where
  "fieldsFunc s sep = fieldsLoop sep [] s"

text \<open>\<open>strings.Split\<close> at one character.\<close>

fun splitAt :: "char \<Rightarrow> string \<Rightarrow> string list" where
  "splitAt sep [] = [[]]"
| "splitAt sep (c # cs) = (if c = sep then [] # splitAt sep cs
     else case splitAt sep cs of w # ws \<Rightarrow> (c # w) # ws | [] \<Rightarrow> [[c]])"

definition isSpace :: "char \<Rightarrow> bool" where
  "isSpace c \<longleftrightarrow> (let k = of_char c :: nat in 9 \<le> k \<and> k \<le> 13 \<or> k = 32)"

definition trimSpace :: "string \<Rightarrow> string" where
  "trimSpace s = rev (dropWhile isSpace (rev (dropWhile isSpace s)))"

text \<open>\<open>strconv.Atoi\<close> without its error: 0 for a syntax error, the nearest 64-bit value for a range error.\<close>

definition isDigit :: "char \<Rightarrow> bool" where
  "isDigit c \<longleftrightarrow> (let k = of_char c :: nat in 48 \<le> k \<and> k \<le> 57)"

fun digitsVal :: "int \<Rightarrow> string \<Rightarrow> int" where
  "digitsVal acc [] = acc"
| "digitsVal acc (c # cs) = digitsVal (10 * acc + (of_char c - 48)) cs"

definition clip64 :: "int \<Rightarrow> int" where
  "clip64 i = max (- (2 ^ 63)) (min (2 ^ 63 - 1) i)"

definition atoi :: "string \<Rightarrow> int" where
  "atoi s = (case s of [] \<Rightarrow> 0
     | c # cs \<Rightarrow> let neg = (c = CHR ''-''); ds = (if c = CHR ''-'' \<or> c = CHR ''+'' then cs else s)
                in if ds = [] \<or> \<not> list_all isDigit ds then 0
                   else clip64 (if neg then - digitsVal 0 ds else digitsVal 0 ds))"

definition itoaInt :: "int \<Rightarrow> string" where
  "itoaInt i = (if i < 0 then CHR ''-'' # itoa (nat (- i)) else itoa (nat i))"

fun join :: "string \<Rightarrow> string list \<Rightarrow> string" where
  "join sep [] = []"
| "join sep [s] = s"
| "join sep (s # ss) = s @ sep @ join sep ss"

definition kv :: "string \<Rightarrow> string \<Rightarrow> KeyValue" where
  "kv k v = \<lparr>Key = k, Value = v\<rparr>"

section \<open>The applications\<close>

text \<open>\<open>wc.go\<close>\<close>

fun wcLoop :: "string list \<Rightarrow> KeyValue list \<Rightarrow> KeyValue list" where
  "wcLoop [] kva = kva"
| "wcLoop (w # ws) kva = wcLoop ws (kva @ [kv w ''1''])"

definition wcMap :: "(char \<Rightarrow> bool) \<Rightarrow> string \<Rightarrow> string \<Rightarrow> KeyValue list" where
  "wcMap isLetter file contents = wcLoop (fieldsFunc contents (\<lambda>r. \<not> isLetter r)) []"

definition wcReduce :: "string \<Rightarrow> string list \<Rightarrow> string" where
  "wcReduce key vs = itoa (length vs)"

text \<open>\<open>indexer.go\<close>\<close>

definition indexerMap :: "(string set \<Rightarrow> string list) \<Rightarrow> (char \<Rightarrow> bool) \<Rightarrow> string \<Rightarrow> string \<Rightarrow> KeyValue list" where
  "indexerMap order isLetter document text =
     map (\<lambda>w. kv w document) (order (set (fieldsFunc text (\<lambda>x. \<not> isLetter x))))"

definition indexerReduce :: "string \<Rightarrow> string list \<Rightarrow> string" where
  "indexerReduce key vs = (let sorted = sort vs in itoa (length sorted) @ '' '' @ join '','' sorted)"

text \<open>\<open>credit.go\<close>\<close>

definition creditLine :: "string \<Rightarrow> KeyValue list go" where
  "creditLine l = (let words = splitAt (CHR '','') l in
     if slen words < 4 then Inr []
     else go_bind (idx words 1) (\<lambda>agency. go_bind (idx words 2) (\<lambda>year. go_bind (idx words 3) (\<lambda>w3.
       let creditScore = atoi (trimSpace w3) in
       if year \<noteq> ''2023'' \<or> creditScore \<le> 400 then Inr [] else Inr [kv agency ''1'']))))"

fun creditLoop :: "string list \<Rightarrow> KeyValue list \<Rightarrow> KeyValue list go" where
  "creditLoop [] acc = Inr acc"
| "creditLoop (l # ls) acc = go_bind (creditLine l) (\<lambda>new. creditLoop ls (acc @ new))"

definition creditMap :: "string \<Rightarrow> string \<Rightarrow> KeyValue list go" where
  "creditMap file contents =
     go_bind (slice_from (splitAt (CHR 0x0A) contents) 1) (\<lambda>ls. creditLoop ls [])"

definition creditReduce :: "string \<Rightarrow> string list \<Rightarrow> string" where
  "creditReduce key vs = itoaInt (foldl (\<lambda>sum v. sum + atoi v) 0 vs)"

text \<open>\<open>crash.go\<close>, once \<open>maybeCrash\<close> has let the worker live\<close>

definition crashMap :: "string \<Rightarrow> string \<Rightarrow> KeyValue list" where
  "crashMap file contents = [kv ''a'' file, kv ''b'' (itoa (length file)), kv ''c'' (itoa (length contents)), kv ''d'' ''xyzzy'']"

definition crashReduce :: "string \<Rightarrow> string list \<Rightarrow> string" where
  "crashReduce key vs = join '' '' (sort vs)"

text \<open>\<open>nocrash.go\<close>, whose \<open>maybeCrash\<close> never exits\<close>

definition nocrashMap :: "string \<Rightarrow> string \<Rightarrow> KeyValue list" where
  "nocrashMap file contents = [kv ''a'' file, kv ''b'' (itoa (length file)), kv ''c'' (itoa (length contents)), kv ''d'' ''xyzzy'']"

definition nocrashReduce :: "string \<Rightarrow> string list \<Rightarrow> string" where
  "nocrashReduce key vs = join '' '' (sort vs)"

text \<open>\<open>Reduce\<close> of \<open>mtiming.go\<close> and \<open>Map\<close> of \<open>rtiming.go\<close>; the other two functions of these count live processes\<close>

definition mtimingReduce :: "string \<Rightarrow> string list \<Rightarrow> string" where
  "mtimingReduce key vs = join '' '' (sort vs)"

definition rtimingMap :: "string \<Rightarrow> string \<Rightarrow> KeyValue list" where
  "rtimingMap file contents = map (\<lambda>c. kv [c] ''1'') ''abcdefghij''"

text \<open>\<open>early_exit.go\<close>\<close>

definition earlyExitMap :: "string \<Rightarrow> string \<Rightarrow> KeyValue list" where
  "earlyExitMap file contents = [kv file ''1'']"

definition earlyExitReduce :: "string \<Rightarrow> string list \<Rightarrow> string" where
  "earlyExitReduce key vs = itoa (length vs)"

section \<open>The applications meet the contract\<close>

lemma order_freeI:
  "(\<And>k vs vs'. mset vs = mset vs' \<Longrightarrow> reducef k vs = reducef k vs') \<Longrightarrow> order_free reducef"
  unfolding order_free_def by blast

lemma sort_mset: "mset vs = mset vs' \<Longrightarrow> sort vs = sort vs'" for vs :: "string list"
  by (metis mset_sort properties_for_sort sorted_sort)

lemma sum_atoi: "foldl (\<lambda>sum v. sum + atoi v) a vs = a + sum_mset (image_mset atoi (mset vs))"
  by (induction vs arbitrary: a) auto

lemma order_free_apps:
  "order_free wcReduce" "order_free earlyExitReduce" "order_free indexerReduce" "order_free crashReduce" "order_free creditReduce"
proof -
  show "order_free wcReduce" unfolding wcReduce_def by (rule order_freeI) (metis mset_eq_length)
  show "order_free earlyExitReduce" unfolding earlyExitReduce_def by (rule order_freeI) (metis mset_eq_length)
  show "order_free indexerReduce" unfolding indexerReduce_def by (rule order_freeI) (metis sort_mset)
  show "order_free crashReduce" unfolding crashReduce_def by (rule order_freeI) (metis sort_mset)
  show "order_free creditReduce" unfolding creditReduce_def sum_atoi by (rule order_freeI) metis
qed

interpretation wc: mr_plugin "wcMap isLetter" wcReduce for isLetter
  by unfold_locales (rule order_free_apps)

interpretation indexer: mr_plugin "indexerMap order isLetter" indexerReduce for order isLetter
  by unfold_locales (rule order_free_apps)

interpretation crash: mr_plugin crashMap crashReduce
  by unfold_locales (rule order_free_apps)

text \<open>The crash test compares a parallel run of \<open>crash.go\<close> with a sequential run of \<open>nocrash.go\<close>: they are the same functions.\<close>

lemma crash_same: "nocrashMap = crashMap" "nocrashReduce = crashReduce" "mtimingReduce = crashReduce"
  by (simp_all add: fun_eq_iff nocrashMap_def crashMap_def nocrashReduce_def crashReduce_def mtimingReduce_def)

interpretation nocrash: mr_plugin nocrashMap nocrashReduce
  by unfold_locales (simp add: crash_same order_free_apps)

interpretation early_exit: mr_plugin earlyExitMap earlyExitReduce
  by unfold_locales (rule order_free_apps)


section \<open>What the applications compute\<close>

lemma fieldsLoop_concat: "concat (fieldsLoop sep cur s) = cur @ filter (\<lambda>c. \<not> sep c) s"
  by (induction s arbitrary: cur) auto

lemma fieldsLoop_words:
  "list_all (\<lambda>c. \<not> sep c) cur \<Longrightarrow> \<forall>w\<in>set (fieldsLoop sep cur s). w \<noteq> [] \<and> list_all (\<lambda>c. \<not> sep c) w"
proof (induction s arbitrary: cur)
  case (Cons c s)
  from Cons.IH [of "[]"] Cons.IH [of "cur @ [c]"] Cons.prems show ?case by simp
qed simp

lemma splitAt_not_Nil [simp]: "splitAt sep s \<noteq> []"
  by (induction s) (auto split: list.splits)

lemma splitAt_join: "join [sep] (splitAt sep s) = s"
proof (induction s)
  case (Cons c s)
  show ?case
  proof (cases "splitAt sep s")
    case (Cons w ws)
    with \<open>join [sep] (splitAt sep s) = s\<close> show ?thesis by (cases ws) auto
  qed simp
qed simp

lemma wcLoop_eq: "wcLoop ws kva = kva @ map (\<lambda>w. kv w ''1'') ws"
  by (induction ws arbitrary: kva) auto

lemma values_of_kv: "values_of k (map (\<lambda>w. kv w v) ws) = replicate (count_list ws k) v"
  by (induction ws) (auto simp: values_of_def kv_def)

definition wcWords :: "(char \<Rightarrow> bool) \<Rightarrow> (string \<times> string) list \<Rightarrow> string list" where
  "wcWords isLetter inputs = concat (map (\<lambda>(f, t). fieldsFunc t (\<lambda>c. \<not> isLetter c)) inputs)"

lemma wc_pairs: "pairs (wcMap isLetter) inputs = map (\<lambda>w. kv w ''1'') (wcWords isLetter inputs)"
  by (simp add: pairs_def wcMap_def wcLoop_eq wcWords_def map_concat split_def comp_def)

text \<open>Word count counts words. The output for a set of files has one line for every word in them, in
  alphabetical order, with the number of its occurrences; words are the maximal runs of letters.\<close>

lemma wc_counts:
  "reduced wcReduce (pairs (wcMap isLetter) inputs) =
     map (\<lambda>w. line w (itoa (count_list (wcWords isLetter inputs) w))) (sorted_list_of_set (set (wcWords isLetter inputs)))
   \<and> (\<forall>w\<in>set (fieldsFunc t (\<lambda>c. \<not> isLetter c)). w \<noteq> [] \<and> list_all isLetter w)
   \<and> concat (fieldsFunc t (\<lambda>c. \<not> isLetter c)) = filter isLetter t"
proof (intro conjI)
  have "Key ` set (map (\<lambda>w. kv w ''1'') ws) = set ws" for ws by (auto simp: kv_def image_image)
  then show "reduced wcReduce (pairs (wcMap isLetter) inputs) =
     map (\<lambda>w. line w (itoa (count_list (wcWords isLetter inputs) w))) (sorted_list_of_set (set (wcWords isLetter inputs)))"
    by (simp add: reduced_def wc_pairs values_of_kv wcReduce_def)
  show "\<forall>w\<in>set (fieldsFunc t (\<lambda>c. \<not> isLetter c)). w \<noteq> [] \<and> list_all isLetter w"
    using fieldsLoop_words [of "\<lambda>c. \<not> isLetter c" "[]" t] by (simp add: fieldsFunc_def)
  show "concat (fieldsFunc t (\<lambda>c. \<not> isLetter c)) = filter isLetter t"
    by (simp add: fieldsFunc_def fieldsLoop_concat)
qed

text \<open>A row of a credit file counts for an agency.\<close>

definition qualifies :: "string \<Rightarrow> string \<Rightarrow> bool" where
  "qualifies agency l \<longleftrightarrow> (let words = splitAt (CHR '','') l in
     4 \<le> length words \<and> words ! 1 = agency \<and> words ! 2 = ''2023'' \<and> 400 < atoi (trimSpace (words ! 3)))"

lemma creditLine_values:
  "\<exists>kvs. creditLine l = Inr kvs \<and> (\<forall>k. values_of k kvs = (if qualifies k l then [''1''] else []))"
  by (cases "4 \<le> length (splitAt (CHR '','') l)")
     (auto simp: creditLine_def qualifies_def Let_def values_of_def kv_def slen_def go_simps)

lemma creditLoop_values:
  "\<exists>kvs. creditLoop ls acc = Inr kvs
    \<and> (\<forall>k. values_of k kvs = values_of k acc @ replicate (length (filter (qualifies k) ls)) ''1'')"
proof (induction ls arbitrary: acc)
  case (Cons l ls)
  from creditLine_values [of l] obtain new where new: "creditLine l = Inr new"
    "\<forall>k. values_of k new = (if qualifies k l then [''1''] else [])" by blast
  from Cons.IH [of "acc @ new"] obtain kvs where "creditLoop ls (acc @ new) = Inr kvs"
    "\<forall>k. values_of k kvs = values_of k (acc @ new) @ replicate (length (filter (qualifies k) ls)) ''1''" by blast
  with new show ?case by (auto simp: values_of_def)
qed simp

lemma atoi_1: "atoi ''1'' = 1"
  by code_simp

text \<open>The credit application counts people. For every file its map function returns without an index error, and the reduce
  function applied to what it emits for an agency prints the number of rows after the header
  that name the agency, the year 2023 and a score above 400.\<close>

lemma credit_counts:
  "\<exists>kvs. creditMap file contents = Inr kvs \<and> (\<forall>agency. creditReduce agency (values_of agency kvs)
     = itoa (length (filter (qualifies agency) (tl (splitAt (CHR 0x0A) contents)))))"
proof -
  let ?ls = "tl (splitAt (CHR 0x0A) contents)"
  obtain kvs where "creditLoop ?ls [] = Inr kvs" "\<forall>k. values_of k kvs = replicate (length (filter (qualifies k) ?ls)) ''1''"
    using creditLoop_values [of ?ls "[]"] by (auto simp: values_of_def)
  moreover have "foldl (\<lambda>sum v. sum + atoi v) a (replicate m ''1'') = a + int m" for a m
    by (induction m arbitrary: a) (simp_all add: atoi_1)
  moreover have "slice_from (splitAt (CHR 0x0A) contents) 1 = Inr ?ls"
    by (cases "splitAt (CHR 0x0A) contents") (simp_all add: go_simps slen_def drop_Suc)
  ultimately show ?thesis by (simp add: creditMap_def creditReduce_def itoaInt_def)
qed

definition creditPlugin :: "string \<Rightarrow> string \<Rightarrow> KeyValue list" where
  "creditPlugin file contents = projr (creditMap file contents)"

interpretation credit: mr_plugin creditPlugin creditReduce
  by unfold_locales (rule order_free_apps)

lemma digitsVal_append: "digitsVal acc (xs @ [c]) = 10 * digitsVal acc xs + (of_char c - 48)"
  by (induction acc xs rule: digitsVal.induct) auto

lemma digitsVal_itoa: "digitsVal 0 (itoa n) = int n"
proof (induction n rule: itoa.induct)
  case (1 n)
  have c: "of_char (digit d) = (48 + int d)" if "d < 10" for d
    using of_char_digit [OF that] by (metis of_nat_add of_nat_numeral of_nat_of_char)
  show ?case
  proof (cases "n < 10")
    case True
    then show ?thesis by (simp add: itoa.simps [of n] c)
  next
    case False
    have "10 * int (n div 10) + int (n mod 10) = int n" by (metis mult_div_mod_eq of_nat_add of_nat_mult of_nat_numeral)
    with False 1 show ?thesis by (simp add: itoa.simps [of n] digitsVal_append c)
  qed
qed


lemma itoa_digits: "c \<in> set (itoa n) \<Longrightarrow> isDigit c"
proof (induction n rule: itoa.induct)
  case (1 n)
  have d: "isDigit (digit k)" if "k < 10" for k using of_char_digit [OF that] that by (simp add: isDigit_def Let_def)
  show ?case
  proof (cases "n < 10")
    case True
    with 1(2) show ?thesis by (simp add: itoa.simps [of n] d)
  next
    case False
    with 1(2) have "c \<in> set (itoa (n div 10)) \<or> c = digit (n mod 10)" by (auto simp: itoa.simps [of n])
    with 1(1) [OF False] d [of "n mod 10"] show ?thesis by auto
  qed
qed

text \<open>Numbers survive printing and reading: \<open>strconv.Atoi\<close> gives back every number below \<open>2^63\<close> that
  \<open>strconv.Itoa\<close> printed, so a count can be the value of a later map or reduce step.\<close>

lemma atoi_itoa:
  assumes "n < 2 ^ 63" shows "atoi (itoa n) = int n"
proof -
  obtain c cs where c: "itoa n = c # cs" by (cases "itoa n") auto
  have "isDigit c" using itoa_digits [of c n] c by simp
  then have "c \<noteq> CHR ''-''" "c \<noteq> CHR ''+''" by (auto simp: isDigit_def Let_def)
  moreover have "list_all isDigit (itoa n)" using itoa_digits by (auto simp: list_all_iff)
  moreover have "int n < 2 ^ 63" using assms by (metis of_nat_less_iff of_nat_numeral of_nat_power)
  ultimately show ?thesis using digitsVal_itoa [of n] by (simp add: atoi_def c clip64_def)
qed

definition docsWith :: "(char \<Rightarrow> bool) \<Rightarrow> string \<Rightarrow> (string \<times> string) list \<Rightarrow> string list" where
  "docsWith isLetter w inputs = map fst (filter (\<lambda>x. w \<in> set (fieldsFunc (snd x) (\<lambda>c. \<not> isLetter c))) inputs)"

text \<open>The indexer lists documents. Whatever order a Go map is iterated in, the reduce function of a word is given the names of
  the documents that contain the word, each document of the input once, and prints their number and
  their names in order.\<close>

lemma indexer_lists:
  assumes "\<And>S. finite S \<Longrightarrow> set (order S) = S \<and> distinct (order S)"
  shows "values_of w (pairs (indexerMap order isLetter) inputs) = docsWith isLetter w inputs
    \<and> indexerReduce w (values_of w (pairs (indexerMap order isLetter) inputs))
      = itoa (length (docsWith isLetter w inputs)) @ '' '' @ join '','' (sort (docsWith isLetter w inputs))"
proof -
  have one: "values_of w (map (\<lambda>v. kv v d) vs) = (if w \<in> set vs then [d] else [])" if "distinct vs" for d vs
    using that by (induction vs) (auto simp: values_of_def kv_def filter_empty_conv)
  have "values_of w (pairs (indexerMap order isLetter) inputs) = docsWith isLetter w inputs"
  proof (induction inputs)
    case (Cons x inputs)
    let ?S = "set (fieldsFunc (snd x) (\<lambda>c. \<not> isLetter c))"
    have "values_of w (indexerMap order isLetter (fst x) (snd x)) = (if w \<in> ?S then [fst x] else [])"
      using one [of "order ?S" "fst x"] assms(1) [of ?S] by (simp add: indexerMap_def)
    with Cons show ?case by (simp add: pairs_def docsWith_def values_of_def split_beta)
  qed (simp add: pairs_def docsWith_def values_of_def)
  then show ?thesis by (simp add: indexerReduce_def Let_def)
qed

end
