(* ===== verification/MR_Coordinator.thy ===== *)
theory MR_Coordinator
  imports Prelude
begin

text \<open>
  \<open>src/mr/coordinator.go\<close> and the RPC types of \<open>src/mr/rpc.go\<close>: the coordinator of a MapReduce job. Every
  handler runs under \<open>c.mu\<close> and is one function on the record \<open>Coordinator\<close>. \<open>GetTask\<close> starts a goroutine
  \<open>DetectStraggler\<close> that sleeps ten seconds; it returns the arguments of that goroutine, which the
  job model below keeps as a pending timer. The socket set up by \<open>server\<close> is not modelled.
\<close>

section \<open>Data\<close>

record Task =
  num :: int
  status :: string
  filename :: string

record Coordinator =
  mapTasks :: "Task list"
  reduceTasks :: "Task list"
  mapsLeft :: int
  reducesLeft :: int
  nReduce :: int

record GetTaskReply =
  gt_FileName :: string
  gt_TaskType :: string
  gt_NReduce :: int
  gt_Id :: int
  gt_NMap :: int
  gt_Done :: bool

definition zeroGetTaskReply :: GetTaskReply where
  "zeroGetTaskReply = \<lparr>gt_FileName = [], gt_TaskType = [], gt_NReduce = 0, gt_Id = 0, gt_NMap = 0, gt_Done = False\<rparr>"

section \<open>Handlers\<close>

text \<open>The loop over the tasks: mark the first unstarted one and return it.\<close>

fun assign :: "Task list \<Rightarrow> (Task list \<times> Task) option" where
  "assign [] = None"
| "assign (task # tasks) =
     (if status task = ''unstarted'' then Some (task\<lparr>status := ''in progress''\<rparr> # tasks, task)
      else map_option (\<lambda>(ts, t). (task # ts, t)) (assign tasks))"

definition GetTask :: "Coordinator \<Rightarrow> Coordinator \<times> GetTaskReply \<times> (int \<times> string) option" where
  "GetTask c =
     (if mapsLeft c \<noteq> 0
      then case assign (mapTasks c) of
          Some (ts, task) \<Rightarrow> (c\<lparr>mapTasks := ts\<rparr>,
             zeroGetTaskReply\<lparr>gt_FileName := filename task, gt_TaskType := ''map'', gt_NReduce := nReduce c,
               gt_Id := num task\<rparr>, Some (num task, ''map''))
        | None \<Rightarrow> (c, zeroGetTaskReply, None)
      else if reducesLeft c = 0 then (c, zeroGetTaskReply\<lparr>gt_Done := True\<rparr>, None)
      else case assign (reduceTasks c) of
          Some (ts, task) \<Rightarrow> (c\<lparr>reduceTasks := ts\<rparr>,
             zeroGetTaskReply\<lparr>gt_TaskType := ''reduce'', gt_Id := num task, gt_NMap := slen (mapTasks c)\<rparr>,
             Some (num task, ''reduce''))
        | None \<Rightarrow> (c, zeroGetTaskReply, None))"

text \<open>\<open>tasks[idx].status == "in progress"\<close>, and the write of another status to it.\<close>

definition inProgress :: "Task list \<Rightarrow> int \<Rightarrow> bool go" where
  "inProgress ts i = go_bind (idx ts i) (\<lambda>t. Inr (status t = ''in progress''))"

definition setStatus :: "Task list \<Rightarrow> int \<Rightarrow> string \<Rightarrow> Task list go" where
  "setStatus ts i st = go_bind (idx ts i) (\<lambda>t. set_idx ts i (t\<lparr>status := st\<rparr>))"

text \<open>\<open>DetectStraggler\<close> after its sleep.\<close>

definition DetectStraggler :: "Coordinator \<Rightarrow> int \<Rightarrow> string \<Rightarrow> Coordinator go" where
  "DetectStraggler c i taskType =
     go_bind (if taskType = ''map'' then inProgress (mapTasks c) i else Inr False) (\<lambda>isMap.
       if isMap then go_bind (setStatus (mapTasks c) i ''unstarted'') (\<lambda>ts. Inr (c\<lparr>mapTasks := ts\<rparr>))
       else go_bind (if taskType = ''reduce'' then inProgress (reduceTasks c) i else Inr False) (\<lambda>isReduce.
         if isReduce then go_bind (setStatus (reduceTasks c) i ''unstarted'') (\<lambda>ts. Inr (c\<lparr>reduceTasks := ts\<rparr>))
         else Inr c))"

definition MarkComplete :: "Coordinator \<Rightarrow> int \<Rightarrow> string \<Rightarrow> Coordinator go" where
  "MarkComplete c i taskType =
     go_bind (if taskType = ''map'' then inProgress (mapTasks c) i else Inr False) (\<lambda>isMap.
       if isMap then go_bind (setStatus (mapTasks c) i ''completed'') (\<lambda>ts.
           Inr (c\<lparr>mapTasks := ts, mapsLeft := mapsLeft c - 1\<rparr>))
       else go_bind (if taskType = ''reduce'' then inProgress (reduceTasks c) i else Inr False) (\<lambda>isReduce.
         if isReduce then go_bind (setStatus (reduceTasks c) i ''completed'') (\<lambda>ts.
             Inr (c\<lparr>reduceTasks := ts, reducesLeft := reducesLeft c - 1\<rparr>))
         else Inr c))"

definition Done :: "Coordinator \<Rightarrow> bool" where
  "Done c \<longleftrightarrow> reducesLeft c = 0"

definition MakeCoordinator :: "string list \<Rightarrow> nat \<Rightarrow> Coordinator" where
  "MakeCoordinator files n =
     \<lparr>mapTasks = map (\<lambda>(i, file). \<lparr>num = int i, status = ''unstarted'', filename = file\<rparr>) (enumerate 0 files),
      reduceTasks = map (\<lambda>i. \<lparr>num = int i, status = ''unstarted'', filename = []\<rparr>) [0..<n],
      mapsLeft = slen files, reducesLeft = int n, nReduce = int n\<rparr>"

section \<open>Lists of tasks\<close>

text \<open>The number of each task is its position, and its status is one of three.\<close>

definition wf_tasks :: "Task list \<Rightarrow> bool" where
  "wf_tasks ts \<longleftrightarrow> (\<forall>i<length ts. num (ts ! i) = int i
     \<and> status (ts ! i) \<in> {''unstarted'', ''in progress'', ''completed''})"

definition completed :: "Task list \<Rightarrow> nat \<Rightarrow> bool" where
  "completed ts i \<longleftrightarrow> status (ts ! i) = ''completed''"

definition incomplete :: "Task list \<Rightarrow> int" where
  "incomplete ts = slen (filter (\<lambda>t. status t \<noteq> ''completed'') ts)"

lemma assign_None: "assign ts = None \<longleftrightarrow> (\<forall>t\<in>set ts. status t \<noteq> ''unstarted'')"
  by (induction ts) auto

lemma assign_Some:
  "assign ts = Some (ts', t) \<Longrightarrow> \<exists>i<length ts. ts ! i = t \<and> status t = ''unstarted''
     \<and> ts' = ts[i := t\<lparr>status := ''in progress''\<rparr>] \<and> (\<forall>j<i. status (ts ! j) \<noteq> ''unstarted'')"
proof (induction ts arbitrary: ts')
  case (Cons x xs)
  show ?case
  proof (cases "status x = ''unstarted''")
    case True
    with Cons.prems show ?thesis by (intro exI [of _ 0]) auto
  next
    case False
    with Cons.prems obtain ys where ys: "assign xs = Some (ys, t)" "ts' = x # ys" by auto
    from Cons.IH [OF ys(1)] obtain i where "i < length xs" "xs ! i = t" "status t = ''unstarted''"
      "ys = xs[i := t\<lparr>status := ''in progress''\<rparr>]" "\<forall>j<i. status (xs ! j) \<noteq> ''unstarted''" by blast
    with ys(2) False show ?thesis
      by (intro exI [of _ "Suc i"]) (auto simp: less_Suc_eq_0_disj)
  qed
qed simp

lemma incomplete_upd:
  assumes "i < length ts"
  shows "incomplete (ts[i := t]) = incomplete ts
     - (if status (ts ! i) = ''completed'' then 0 else 1) + (if status t = ''completed'' then 0 else 1)"
  using assms unfolding incomplete_def slen_def
proof (induction ts arbitrary: i)
  case (Cons x xs)
  show ?case
  proof (cases i)
    case (Suc k)
    with Cons.IH [of k] Cons.prems show ?thesis by auto
  qed (use Cons.prems in auto)
qed simp

lemma incomplete_nonneg [simp]: "0 \<le> incomplete ts"
  by (simp add: incomplete_def slen_def)

lemma incomplete_0: "incomplete ts = 0 \<longleftrightarrow> (\<forall>i<length ts. completed ts i)"
  by (auto simp: incomplete_def slen_def completed_def filter_empty_conv all_set_conv_all_nth)

lemma wf_tasks_upd:
  "wf_tasks ts \<Longrightarrow> i < length ts \<Longrightarrow> num t = int i \<Longrightarrow> status t \<in> {''unstarted'', ''in progress'', ''completed''}
    \<Longrightarrow> wf_tasks (ts[i := t])"
  by (simp add: wf_tasks_def nth_list_update)

lemma setStatus_ok:
  "i < length ts \<Longrightarrow> setStatus ts (int i) st = Inr (ts[i := (ts ! i)\<lparr>status := st\<rparr>])"
  by (simp add: setStatus_def go_simps slen_def)

lemma inProgress_ok: "i < length ts \<Longrightarrow> inProgress ts (int i) = Inr (status (ts ! i) = ''in progress'')"
  by (simp add: inProgress_def go_simps slen_def)

section \<open>The invariant of the coordinator\<close>

text \<open>
  The counters are exact, no reduce task has been touched while a map task is left, and every task
  that is in progress has a timer that will give it back.
\<close>

definition timed :: "Task list \<Rightarrow> string \<Rightarrow> (int \<times> string) list \<Rightarrow> bool" where
  "timed ts ty tms \<longleftrightarrow> (\<forall>i<length ts. status (ts ! i) = ''in progress'' \<longrightarrow> (int i, ty) \<in> set tms)"

definition valid_ref :: "Coordinator \<Rightarrow> int \<Rightarrow> string \<Rightarrow> bool" where
  "valid_ref c i ty \<longleftrightarrow> 0 \<le> i \<and> (ty = ''map'' \<and> i < slen (mapTasks c)
     \<or> ty = ''reduce'' \<and> i < slen (reduceTasks c) \<and> mapsLeft c = 0)"

definition coord_inv :: "string list \<Rightarrow> nat \<Rightarrow> Coordinator \<Rightarrow> (int \<times> string) list \<Rightarrow> bool" where
  "coord_inv names n c tms \<longleftrightarrow> wf_tasks (mapTasks c) \<and> wf_tasks (reduceTasks c)
     \<and> map filename (mapTasks c) = names \<and> length (reduceTasks c) = n \<and> nReduce c = int n
     \<and> mapsLeft c = incomplete (mapTasks c) \<and> reducesLeft c = incomplete (reduceTasks c)
     \<and> (mapsLeft c \<noteq> 0 \<longrightarrow> (\<forall>t\<in>set (reduceTasks c). status t = ''unstarted''))
     \<and> timed (mapTasks c) ''map'' tms \<and> timed (reduceTasks c) ''reduce'' tms
     \<and> (\<forall>(i, ty)\<in>set tms. valid_ref c i ty)"

lemma coord_inv_init: "coord_inv names n (MakeCoordinator names n) []"
proof -
  have w: "wf_tasks (mapTasks (MakeCoordinator names n))" "wf_tasks (reduceTasks (MakeCoordinator names n))"
    by (auto simp: wf_tasks_def MakeCoordinator_def nth_enumerate_eq)
  have i: "incomplete (mapTasks (MakeCoordinator names n)) = slen names" "incomplete (reduceTasks (MakeCoordinator names n)) = int n"
    by (simp_all add: incomplete_def MakeCoordinator_def slen_def split_beta)
  have "map filename (mapTasks (MakeCoordinator names n)) = names"
    by (rule nth_equalityI) (auto simp: MakeCoordinator_def nth_enumerate_eq)
  with w i show ?thesis
    by (auto simp: coord_inv_def timed_def) (auto simp: MakeCoordinator_def nth_enumerate_eq)
qed

definition withStatus :: "Task list \<Rightarrow> nat \<Rightarrow> string \<Rightarrow> Task list" where
  "withStatus ts i st = ts[i := (ts ! i)\<lparr>status := st\<rparr>]"

definition left :: "string \<Rightarrow> int" where
  "left st = (if st = ''completed'' then 1 else 0)"

lemma withStatus_simps [simp]:
  "length (withStatus ts i st) = length ts"
  "map filename (withStatus ts i st) = map filename ts"
  by (simp_all add: withStatus_def map_update list_update_same_conv) (simp add: map_update [symmetric] list_eq_iff_nth_eq nth_list_update)

lemma status_withStatus:
  "i < length ts \<Longrightarrow> j < length ts \<Longrightarrow> status (withStatus ts i st ! j) = (if j = i then st else status (ts ! j))"
  by (simp add: withStatus_def nth_list_update)

lemma completed_withStatus:
  "i < length ts \<Longrightarrow> j < length ts \<Longrightarrow> completed (withStatus ts i st) j = (if j = i then st = ''completed'' else completed ts j)"
  by (simp add: completed_def status_withStatus)

lemma wf_withStatus:
  "wf_tasks ts \<Longrightarrow> i < length ts \<Longrightarrow> st \<in> {''unstarted'', ''in progress'', ''completed''} \<Longrightarrow> wf_tasks (withStatus ts i st)"
  unfolding withStatus_def by (rule wf_tasks_upd) (auto simp: wf_tasks_def)

lemma incomplete_withStatus:
  "i < length ts \<Longrightarrow> status (ts ! i) \<noteq> ''completed'' \<Longrightarrow> incomplete (withStatus ts i st) = incomplete ts - left st"
  by (simp add: withStatus_def incomplete_upd left_def)

lemma incomplete_pos:
  "i < length ts \<Longrightarrow> status (ts ! i) \<noteq> ''completed'' \<Longrightarrow> 0 < incomplete ts"
  using incomplete_0 [of ts] incomplete_nonneg [of ts] by (auto simp: completed_def order_less_le)

lemma timed_withStatus:
  assumes "timed ts ty tms" "i < length ts" "st = ''in progress'' \<Longrightarrow> (int i, ty) \<in> set tms'"
    and "set tms \<subseteq> insert (int i, ty) (set tms')"
  shows "timed (withStatus ts i st) ty tms'"
  using assms by (auto simp: timed_def status_withStatus split: if_splits)

lemma timed_other:
  "timed ts ty tms \<Longrightarrow> set tms \<subseteq> insert (i, ty') (set tms') \<Longrightarrow> ty \<noteq> ty' \<Longrightarrow> timed ts ty tms'"
  by (auto simp: timed_def)

lemma coord_inv_map:
  assumes inv: "coord_inv names n c tms" and i: "i < length (mapTasks c)" "status (mapTasks c ! i) \<noteq> ''completed''"
    and st: "st \<in> {''unstarted'', ''in progress'', ''completed''}" "st = ''in progress'' \<Longrightarrow> (int i, ''map'') \<in> set tms'"
    and tms: "set tms \<subseteq> insert (int i, ''map'') (set tms')" "set tms' \<subseteq> insert (int i, ''map'') (set tms)"
  shows "coord_inv names n (c\<lparr>mapTasks := withStatus (mapTasks c) i st, mapsLeft := mapsLeft c - left st\<rparr>) tms'"
proof -
  let ?c = "c\<lparr>mapTasks := withStatus (mapTasks c) i st, mapsLeft := mapsLeft c - left st\<rparr>"
  have pos: "0 < mapsLeft c" using incomplete_pos [OF i] inv by (simp add: coord_inv_def)
  then have "ty = ''map''" "valid_ref ?c k ty" if "(k, ty) \<in> set tms'" for k ty
    using inv that tms(2) i(1) by (auto simp: coord_inv_def valid_ref_def slen_def)
  moreover have "timed (mapTasks ?c) ''map'' tms'"
    using timed_withStatus [OF _ i(1) st(2) tms(1)] inv by (simp add: coord_inv_def)
  moreover have "timed (reduceTasks ?c) ''reduce'' tms'"
    using timed_other [OF _ tms(1)] inv by (simp add: coord_inv_def)
  ultimately show ?thesis
    using inv i st(1) pos wf_withStatus [OF _ i(1) st(1)] incomplete_withStatus [OF i] by (auto simp: coord_inv_def)
qed

lemma coord_inv_reduce:
  assumes inv: "coord_inv names n c tms" and i: "i < length (reduceTasks c)" "status (reduceTasks c ! i) \<noteq> ''completed''"
    and st: "st \<in> {''unstarted'', ''in progress'', ''completed''}" "st = ''in progress'' \<Longrightarrow> (int i, ''reduce'') \<in> set tms'"
    and tms: "set tms \<subseteq> insert (int i, ''reduce'') (set tms')" "set tms' \<subseteq> insert (int i, ''reduce'') (set tms)"
    and maps: "mapsLeft c = 0"
  shows "coord_inv names n (c\<lparr>reduceTasks := withStatus (reduceTasks c) i st, reducesLeft := reducesLeft c - left st\<rparr>) tms'"
proof -
  let ?c = "c\<lparr>reduceTasks := withStatus (reduceTasks c) i st, reducesLeft := reducesLeft c - left st\<rparr>"
  have "valid_ref ?c k ty" if "(k, ty) \<in> set tms'" for k ty
    using inv that tms(2) i(1) maps by (auto simp: coord_inv_def valid_ref_def slen_def)
  moreover have "timed (reduceTasks ?c) ''reduce'' tms'"
    using timed_withStatus [OF _ i(1) st(2) tms(1)] inv by (simp add: coord_inv_def)
  moreover have "timed (mapTasks ?c) ''map'' tms'"
    using timed_other [OF _ tms(1)] inv by (simp add: coord_inv_def)
  ultimately show ?thesis
    using inv i st(1) maps wf_withStatus [OF _ i(1) st(1)] incomplete_withStatus [OF i] by (auto simp: coord_inv_def)
qed


section \<open>The handlers\<close>

lemma withStatus_eq: "ts[i := (ts ! i)\<lparr>status := st\<rparr>] = withStatus ts i st"
  by (simp add: withStatus_def)

lemma GetTask_cases [consumes 1, case_names Map Reduce Idle Finished]:
  assumes "coord_inv names n c tms"
  obtains
    i where "mapsLeft c \<noteq> 0" "i < length (mapTasks c)" "status (mapTasks c ! i) = ''unstarted''"
      "GetTask c = (c\<lparr>mapTasks := withStatus (mapTasks c) i ''in progress''\<rparr>,
         \<lparr>gt_FileName = names ! i, gt_TaskType = ''map'', gt_NReduce = int n, gt_Id = int i, gt_NMap = 0, gt_Done = False\<rparr>,
         Some (int i, ''map''))"
  | i where "mapsLeft c = 0" "i < length (reduceTasks c)" "status (reduceTasks c ! i) = ''unstarted''"
      "GetTask c = (c\<lparr>reduceTasks := withStatus (reduceTasks c) i ''in progress''\<rparr>,
         \<lparr>gt_FileName = [], gt_TaskType = ''reduce'', gt_NReduce = 0, gt_Id = int i, gt_NMap = slen names, gt_Done = False\<rparr>,
         Some (int i, ''reduce''))"
  | "GetTask c = (c, zeroGetTaskReply, None)" "\<not> (mapsLeft c = 0 \<and> reducesLeft c = 0)"
      "\<forall>t\<in>set (if mapsLeft c = 0 then reduceTasks c else mapTasks c). status t \<noteq> ''unstarted''"
  | "GetTask c = (c, zeroGetTaskReply\<lparr>gt_Done := True\<rparr>, None)" "mapsLeft c = 0" "reducesLeft c = 0"
proof (cases "assign (if mapsLeft c = 0 then reduceTasks c else mapTasks c)")
  case None
  then have no: "\<forall>t\<in>set (if mapsLeft c = 0 then reduceTasks c else mapTasks c). status t \<noteq> ''unstarted''"
    using assign_None by blast
  show ?thesis
  proof (cases "mapsLeft c = 0 \<and> reducesLeft c = 0")
    case True
    with that(4) show ?thesis by (simp add: GetTask_def)
  next
    case False
    with None have "GetTask c = (c, zeroGetTaskReply, None)" by (auto simp: GetTask_def)
    from that(3) [OF this False no] show ?thesis .
  qed
next
  case (Some r)
  then obtain ts t where r: "assign (if mapsLeft c = 0 then reduceTasks c else mapTasks c) = Some (ts, t)" by (cases r) auto
  show ?thesis
  proof (cases "mapsLeft c = 0")
    case False
    with r assign_Some [of "mapTasks c" ts t] obtain i where i: "i < length (mapTasks c)" "mapTasks c ! i = t"
      "status t = ''unstarted''" "ts = (mapTasks c)[i := t\<lparr>status := ''in progress''\<rparr>]" by auto
    moreover have "num t = int i" "filename t = names ! i" "nReduce c = int n"
      using assms i(1,2) by (auto simp: coord_inv_def wf_tasks_def)
    ultimately show ?thesis using that(1) [of i] False r
      by (simp add: GetTask_def zeroGetTaskReply_def withStatus_def)
  next
    case True
    show ?thesis
    proof (cases "reducesLeft c = 0")
      case True
      with \<open>mapsLeft c = 0\<close> that(4) show ?thesis by (simp add: GetTask_def)
    next
      case False
      from True r assign_Some [of "reduceTasks c" ts t] obtain i where i: "i < length (reduceTasks c)" "reduceTasks c ! i = t"
        "status t = ''unstarted''" "ts = (reduceTasks c)[i := t\<lparr>status := ''in progress''\<rparr>]" by auto
      moreover have "num t = int i" "length (mapTasks c) = length names"
        using assms i(1,2) by (auto simp: coord_inv_def wf_tasks_def)
      ultimately show ?thesis using that(2) [of i] True False r
        by (simp add: GetTask_def zeroGetTaskReply_def withStatus_def slen_def)
    qed
  qed
qed

lemma MarkComplete_map:
  "i < length (mapTasks c) \<Longrightarrow> MarkComplete c (int i) ''map'' = Inr (if status (mapTasks c ! i) = ''in progress''
     then c\<lparr>mapTasks := withStatus (mapTasks c) i ''completed'', mapsLeft := mapsLeft c - left ''completed''\<rparr> else c)"
  by (simp add: MarkComplete_def inProgress_ok setStatus_ok withStatus_def left_def)

lemma MarkComplete_reduce:
  "i < length (reduceTasks c) \<Longrightarrow> MarkComplete c (int i) ''reduce'' = Inr (if status (reduceTasks c ! i) = ''in progress''
     then c\<lparr>reduceTasks := withStatus (reduceTasks c) i ''completed'', reducesLeft := reducesLeft c - left ''completed''\<rparr> else c)"
  by (simp add: MarkComplete_def inProgress_ok setStatus_ok withStatus_def left_def)

lemma DetectStraggler_map:
  "i < length (mapTasks c) \<Longrightarrow> DetectStraggler c (int i) ''map'' = Inr (if status (mapTasks c ! i) = ''in progress''
     then c\<lparr>mapTasks := withStatus (mapTasks c) i ''unstarted'', mapsLeft := mapsLeft c - left ''unstarted''\<rparr> else c)"
  by (simp add: DetectStraggler_def inProgress_ok setStatus_ok withStatus_def left_def)

lemma DetectStraggler_reduce:
  "i < length (reduceTasks c) \<Longrightarrow> DetectStraggler c (int i) ''reduce'' = Inr (if status (reduceTasks c ! i) = ''in progress''
     then c\<lparr>reduceTasks := withStatus (reduceTasks c) i ''unstarted'', reducesLeft := reducesLeft c - left ''unstarted''\<rparr> else c)"
  by (simp add: DetectStraggler_def inProgress_ok setStatus_ok withStatus_def left_def)

lemma valid_ref_cases:
  assumes "valid_ref c k ty"
  obtains (Map) i where "k = int i" "ty = ''map''" "i < length (mapTasks c)"
  | (Reduce) i where "k = int i" "ty = ''reduce''" "i < length (reduceTasks c)" "mapsLeft c = 0"
  using assms by (auto simp: valid_ref_def slen_def intro: that [of "nat k"])

text \<open>What the environment of the coordinator may see change.\<close>

definition grows :: "Coordinator \<Rightarrow> Coordinator \<Rightarrow> bool" where
  "grows c c' \<longleftrightarrow> length (mapTasks c') = length (mapTasks c) \<and> length (reduceTasks c') = length (reduceTasks c)
     \<and> (\<forall>i<length (mapTasks c). completed (mapTasks c) i \<longrightarrow> completed (mapTasks c') i)
     \<and> (\<forall>i<length (reduceTasks c). completed (reduceTasks c) i \<longrightarrow> completed (reduceTasks c') i)
     \<and> (mapsLeft c = 0 \<longrightarrow> mapsLeft c' = 0)"

lemma grows_refl [simp]: "grows c c"
  by (simp add: grows_def)

lemma grows_map:
  "i < length (mapTasks c) \<Longrightarrow> status (mapTasks c ! i) \<noteq> ''completed'' \<Longrightarrow> mapsLeft c \<noteq> 0
    \<Longrightarrow> grows c (c\<lparr>mapTasks := withStatus (mapTasks c) i st, mapsLeft := m\<rparr>)"
  by (auto simp: grows_def completed_withStatus) (simp_all add: completed_def)

lemma grows_reduce:
  "i < length (reduceTasks c) \<Longrightarrow> status (reduceTasks c ! i) \<noteq> ''completed''
    \<Longrightarrow> grows c (c\<lparr>reduceTasks := withStatus (reduceTasks c) i st, reducesLeft := m\<rparr>)"
  by (auto simp: grows_def completed_withStatus) (simp_all add: completed_def)

lemma valid_ref_grows: "grows c c' \<Longrightarrow> valid_ref c k ty \<Longrightarrow> valid_ref c' k ty"
  by (auto simp: grows_def valid_ref_def slen_def)

lemma coord_inv_maps_left:
  "coord_inv names n c tms \<Longrightarrow> i < length (mapTasks c) \<Longrightarrow> status (mapTasks c ! i) \<noteq> ''completed'' \<Longrightarrow> mapsLeft c \<noteq> 0"
  using incomplete_pos [of i "mapTasks c"] by (auto simp: coord_inv_def)

lemma coord_DetectStraggler:
  assumes inv: "coord_inv names n c tms" and k: "k < length tms"
  shows "\<exists>c'. DetectStraggler c (fst (tms ! k)) (snd (tms ! k)) = Inr c' \<and> coord_inv names n c' (dropNth k tms) \<and> grows c c'"
proof -
  obtain a ty where t: "tms ! k = (a, ty)" by (cases "tms ! k")
  have v: "valid_ref c a ty" using inv k t nth_mem [OF k] by (auto simp: coord_inv_def)
  note sub = set_dropNth(1) [OF k, unfolded t] set_dropNth(2) [of k tms]
  from v show ?thesis
  proof (cases rule: valid_ref_cases)
    case (Map i)
    show ?thesis
    proof (cases "status (mapTasks c ! i) = ''in progress''")
      case True
      with Map sub coord_inv_maps_left [OF inv Map(3)]
        coord_inv_map [OF inv Map(3), of "''unstarted''" "dropNth k tms"] show ?thesis
        by (auto simp: t DetectStraggler_map intro!: grows_map)
    next
      case False
      have "coord_inv names n c (dropNth k tms)"
        using inv sub Map False by (auto simp: coord_inv_def timed_def)
      with False Map show ?thesis by (simp add: t DetectStraggler_map)
    qed
  next
    case (Reduce i)
    show ?thesis
    proof (cases "status (reduceTasks c ! i) = ''in progress''")
      case True
      with Reduce sub coord_inv_reduce [OF inv Reduce(3), of "''unstarted''" "dropNth k tms"] show ?thesis
        by (auto simp: t DetectStraggler_reduce intro!: grows_reduce)
    next
      case False
      have "coord_inv names n c (dropNth k tms)"
        using inv sub Reduce False by (auto simp: coord_inv_def timed_def)
      with False Reduce show ?thesis by (simp add: t DetectStraggler_reduce)
    qed
  qed
qed

lemma coord_MarkComplete:
  assumes inv: "coord_inv names n c tms" and v: "valid_ref c k ty"
  shows "\<exists>c'. MarkComplete c k ty = Inr c' \<and> coord_inv names n c' tms \<and> grows c c'
    \<and> (\<forall>i<length (mapTasks c). completed (mapTasks c') i \<longrightarrow> completed (mapTasks c) i \<or> (k, ty) = (int i, ''map''))
    \<and> (\<forall>i<length (reduceTasks c). completed (reduceTasks c') i \<longrightarrow> completed (reduceTasks c) i \<or> (k, ty) = (int i, ''reduce''))"
  using v
proof (cases rule: valid_ref_cases)
  case (Map i)
  show ?thesis
  proof (cases "status (mapTasks c ! i) = ''in progress''")
    case True
    with Map coord_inv_maps_left [OF inv Map(3)] coord_inv_map [OF inv Map(3), of "''completed''" tms] show ?thesis
      by (auto simp: MarkComplete_map completed_withStatus intro!: grows_map)
  qed (use Map inv in \<open>auto simp: MarkComplete_map\<close>)
next
  case (Reduce i)
  show ?thesis
  proof (cases "status (reduceTasks c ! i) = ''in progress''")
    case True
    with Reduce coord_inv_reduce [OF inv Reduce(3), of "''completed''" tms] show ?thesis
      by (auto simp: MarkComplete_reduce completed_withStatus intro!: grows_reduce)
  qed (use Reduce inv in \<open>auto simp: MarkComplete_reduce\<close>)
qed


end
