(* ===== verification/MR_Job.thy ===== *)
theory MR_Job
  imports MR_Apps MR_Coordinator
begin

text \<open>
  A whole MapReduce job: the coordinator, the pending \<open>DetectStraggler\<close> timers, the file system and the workers
  that hold a task (the loop of \<open>Worker\<close> in \<open>src/mr/worker.go\<close>). Workers may die at any time, be slow, and run a task
  that was given to somebody else meanwhile. A task is run as one step here; that this matters is shown
  at the end.
\<close>

section \<open>The model\<close>

record held =
  task :: GetTaskReply
  ran :: bool

record job =
  coord :: Coordinator
  timers :: "(int \<times> string) list"
  files :: fs
  workers :: "held list"

datatype job_label = Ask | Work nat | Report nat | Die nat | Expire nat

text \<open>A worker calls \<open>GetTask\<close>; without a task it sleeps or, when the job is done, leaves its loop.\<close>

definition ask :: "job \<Rightarrow> job outcome" where
  "ask j = (case GetTask (coord j) of (c, reply, timer) \<Rightarrow>
     Next (j\<lparr>coord := c, timers := timers j @ (case timer of None \<Rightarrow> [] | Some t \<Rightarrow> [t]),
             workers := workers j @ (if \<not> gt_Done reply \<and> gt_TaskType reply \<in> {''map'', ''reduce''}
                                     then [\<lparr>task = reply, ran = False\<rparr>] else [])\<rparr>))"

definition runTask ::
    "(KeyValue list \<Rightarrow> KeyValue list) \<Rightarrow> (string \<Rightarrow> string \<Rightarrow> KeyValue list) \<Rightarrow> (string \<Rightarrow> string list \<Rightarrow> string)
      \<Rightarrow> GetTaskReply \<Rightarrow> fs \<Rightarrow> fs go" where
  "runTask sorter mapf reducef t f =
     (if gt_TaskType t = ''map'' then DoMap mapf (gt_FileName t) (nat (gt_NReduce t)) (nat (gt_Id t)) f
      else if gt_TaskType t = ''reduce'' then DoReduce sorter reducef (nat (gt_Id t)) (nat (gt_NMap t)) f
      else Inr f)"

definition work ::
    "(KeyValue list \<Rightarrow> KeyValue list) \<Rightarrow> (string \<Rightarrow> string \<Rightarrow> KeyValue list) \<Rightarrow> (string \<Rightarrow> string list \<Rightarrow> string)
      \<Rightarrow> job \<Rightarrow> nat \<Rightarrow> job outcome" where
  "work sorter mapf reducef j k =
     (if k < length (workers j) \<and> \<not> ran (workers j ! k)
      then out_bind (runTask sorter mapf reducef (task (workers j ! k)) (files j)) (\<lambda>f.
           Next (j\<lparr>files := f, workers := (workers j)[k := (workers j ! k)\<lparr>ran := True\<rparr>]\<rparr>))
      else Disabled)"

definition report :: "job \<Rightarrow> nat \<Rightarrow> job outcome" where
  "report j k =
     (if k < length (workers j) \<and> ran (workers j ! k)
      then out_bind (MarkComplete (coord j) (gt_Id (task (workers j ! k))) (gt_TaskType (task (workers j ! k)))) (\<lambda>c.
           Next (j\<lparr>coord := c, workers := dropNth k (workers j)\<rparr>))
      else Disabled)"

definition die :: "job \<Rightarrow> nat \<Rightarrow> job outcome" where
  "die j k = (if k < length (workers j) then Next (j\<lparr>workers := dropNth k (workers j)\<rparr>) else Disabled)"

definition expire :: "job \<Rightarrow> nat \<Rightarrow> job outcome" where
  "expire j k =
     (if k < length (timers j)
      then out_bind (DetectStraggler (coord j) (fst (timers j ! k)) (snd (timers j ! k))) (\<lambda>c.
           Next (j\<lparr>coord := c, timers := dropNth k (timers j)\<rparr>))
      else Disabled)"

fun jobExec ::
    "(KeyValue list \<Rightarrow> KeyValue list) \<Rightarrow> (string \<Rightarrow> string \<Rightarrow> KeyValue list) \<Rightarrow> (string \<Rightarrow> string list \<Rightarrow> string)
      \<Rightarrow> job \<Rightarrow> job_label \<Rightarrow> job outcome" where
  "jobExec sorter mapf reducef j Ask = ask j"
| "jobExec sorter mapf reducef j (Work k) = work sorter mapf reducef j k"
| "jobExec sorter mapf reducef j (Report k) = report j k"
| "jobExec sorter mapf reducef j (Die k) = die j k"
| "jobExec sorter mapf reducef j (Expire k) = expire j k"

definition initJob :: "(string \<times> string) list \<Rightarrow> nat \<Rightarrow> fs \<Rightarrow> job" where
  "initJob inputs n f = \<lparr>coord = MakeCoordinator (map fst inputs) n, timers = [], files = f, workers = []\<rparr>"


section \<open>What the files hold\<close>

definition good_names :: "(string \<times> string) list \<Rightarrow> bool" where
  "good_names inputs \<longleftrightarrow> (\<forall>x\<in>set inputs. (\<forall>a b. fst x \<noteq> interName a b) \<and> (\<forall>r. fst x \<noteq> outName r))"

definition inputs_there :: "(string \<times> string) list \<Rightarrow> fs \<Rightarrow> bool" where
  "inputs_there inputs f \<longleftrightarrow> (\<forall>x\<in>set inputs. f (fst x) = Some (Text (snd x)))"

definition map_done :: "(string \<Rightarrow> string \<Rightarrow> KeyValue list) \<Rightarrow> (string \<times> string) list \<Rightarrow> nat \<Rightarrow> fs \<Rightarrow> nat \<Rightarrow> bool" where
  "map_done mapf inputs n f i \<longleftrightarrow>
     (\<forall>p<n. f (interName i p) = Some (Json (bucket n p (mapf (fst (inputs ! i)) (snd (inputs ! i))))))"

definition reduce_done ::
    "(string \<Rightarrow> string \<Rightarrow> KeyValue list) \<Rightarrow> (string \<Rightarrow> string list \<Rightarrow> string) \<Rightarrow> (string \<times> string) list \<Rightarrow> nat \<Rightarrow> fs \<Rightarrow> nat \<Rightarrow> bool" where
  "reduce_done mapf reducef inputs n f r \<longleftrightarrow> f (outName r) = Some (Lines (reduced reducef (bucket n r (pairs mapf inputs))))"

definition mapReply :: "(string \<times> string) list \<Rightarrow> nat \<Rightarrow> nat \<Rightarrow> GetTaskReply" where
  "mapReply inputs n i = \<lparr>gt_FileName = fst (inputs ! i), gt_TaskType = ''map'', gt_NReduce = int n, gt_Id = int i,
     gt_NMap = 0, gt_Done = False\<rparr>"

definition reduceReply :: "(string \<times> string) list \<Rightarrow> nat \<Rightarrow> GetTaskReply" where
  "reduceReply inputs r = \<lparr>gt_FileName = [], gt_TaskType = ''reduce'', gt_NReduce = 0, gt_Id = int r,
     gt_NMap = slen inputs, gt_Done = False\<rparr>"

text \<open>What stays in place when a task is run.\<close>

definition keeps :: "(string \<Rightarrow> string \<Rightarrow> KeyValue list) \<Rightarrow> (string \<Rightarrow> string list \<Rightarrow> string) \<Rightarrow> (string \<times> string) list \<Rightarrow> nat \<Rightarrow> fs \<Rightarrow> fs \<Rightarrow> bool" where
  "keeps mapf reducef inputs n f g \<longleftrightarrow> inputs_there inputs g
     \<and> (\<forall>i. map_done mapf inputs n f i \<longrightarrow> map_done mapf inputs n g i)
     \<and> (\<forall>r. reduce_done mapf reducef inputs n f r \<longrightarrow> reduce_done mapf reducef inputs n g r)"

lemma runTask_map:
  assumes "0 < n" "good_names inputs" "inputs_there inputs f" "i < length inputs"
  shows "\<exists>g. runTask sorter mapf reducef (mapReply inputs n i) f = Inr g
    \<and> map_done mapf inputs n g i \<and> keeps mapf reducef inputs n f g"
proof -
  let ?x = "inputs ! i"
  have x: "f (fst ?x) = Some (Text (snd ?x))" using assms(3,4) by (simp add: inputs_there_def)
  from DoMap_result [where mapf = mapf and f = f and n = n and m = i, OF assms(1) x]
  obtain g where g: "DoMap mapf (fst ?x) n i f = Inr g"
    "\<forall>p<n. g (interName i p) = Some (Json (bucket n p (mapf (fst ?x) (snd ?x))))"
    "\<forall>name. (\<forall>p<n. name \<noteq> interName i p) \<longrightarrow> g name = f name" by blast
  have "g (fst x) = f (fst x)" if "x \<in> set inputs" for x using g(3) assms(2) that by (auto simp: good_names_def)
  moreover have "map_done mapf inputs n g k" if "map_done mapf inputs n f k" for k
    using that g(2,3) by (cases "k = i") (auto simp: map_done_def)
  moreover have "g (outName r) = f (outName r)" for r using g(3) by simp
  ultimately have "keeps mapf reducef inputs n f g"
    using assms(3) by (simp add: keeps_def inputs_there_def reduce_done_def)
  with g show ?thesis by (auto simp: runTask_def mapReply_def map_done_def)
qed

lemma readLoop_buckets:
  assumes "\<And>i. i \<in> set is \<Longrightarrow> f (interName i r) = Some (Json (h i))"
  shows "readLoop f r is acc = Inr (acc @ concat (map h is))"
  using assms by (induction "is" arbitrary: acc) (auto simp: readJson_def)

lemma concat_buckets:
  "concat (map (\<lambda>i. bucket n r (mapf (fst (inputs ! i)) (snd (inputs ! i)))) [0..<length inputs]) = bucket n r (pairs mapf inputs)"
  using map_upt_nth [of "\<lambda>x. bucket n r (mapf (fst x) (snd x))" inputs]
  by (simp add: pairs_def split_beta bucket_concat comp_def)

context key_sorter
begin

lemma runTask_reduce:
  assumes "order_free reducef" "good_names inputs" "inputs_there inputs f" "r < n"
    and "\<And>i. i < length inputs \<Longrightarrow> map_done mapf inputs n f i"
  shows "\<exists>g. runTask sorter mapf reducef (reduceReply inputs r) f = Inr g
    \<and> reduce_done mapf reducef inputs n g r \<and> keeps mapf reducef inputs n f g"
proof -
  let ?g = "f(outName r \<mapsto> Lines (reduced reducef (bucket n r (pairs mapf inputs))))"
  have "readLoop f r [0..<length inputs] [] = Inr (bucket n r (pairs mapf inputs))"
    using readLoop_buckets [of "[0..<length inputs]" f r "\<lambda>i. bucket n r (mapf (fst (inputs ! i)) (snd (inputs ! i)))" "[]"]
      assms(4,5) by (simp add: map_done_def concat_buckets)
  then have "runTask sorter mapf reducef (reduceReply inputs r) f = Inr ?g"
    using reduceLoop_sorter [OF assms(1)] by (simp add: runTask_def reduceReply_def DoReduce_def slen_def)
  moreover have "keeps mapf reducef inputs n f ?g"
    using assms(2,3) by (auto simp: keeps_def inputs_there_def good_names_def map_done_def reduce_done_def)
  ultimately show ?thesis by (simp add: reduce_done_def)
qed

end


section \<open>The invariant of a job\<close>

definition held_ok :: "(string \<times> string) list \<Rightarrow> nat \<Rightarrow> Coordinator \<Rightarrow> held \<Rightarrow> bool" where
  "held_ok inputs n c h \<longleftrightarrow> (\<exists>i<length inputs. task h = mapReply inputs n i)
     \<or> (\<exists>r<n. task h = reduceReply inputs r \<and> mapsLeft c = 0)"

definition ran_task :: "job \<Rightarrow> GetTaskReply \<Rightarrow> bool" where
  "ran_task j t \<longleftrightarrow> (\<exists>h\<in>set (workers j). ran h \<and> task h = t)"

definition job_inv ::
    "(string \<Rightarrow> string \<Rightarrow> KeyValue list) \<Rightarrow> (string \<Rightarrow> string list \<Rightarrow> string) \<Rightarrow> (string \<times> string) list \<Rightarrow> nat \<Rightarrow> job \<Rightarrow> bool" where
  "job_inv mapf reducef inputs n j \<longleftrightarrow> coord_inv (map fst inputs) n (coord j) (timers j)
     \<and> inputs_there inputs (files j)
     \<and> (\<forall>h\<in>set (workers j). held_ok inputs n (coord j) h)
     \<and> (\<forall>i<length inputs. completed (mapTasks (coord j)) i \<or> ran_task j (mapReply inputs n i) \<longrightarrow> map_done mapf inputs n (files j) i)
     \<and> (\<forall>r<n. completed (reduceTasks (coord j)) r \<or> ran_task j (reduceReply inputs r) \<longrightarrow> reduce_done mapf reducef inputs n (files j) r)"

lemma held_ok_grows: "grows c c' \<Longrightarrow> held_ok inputs n c h \<Longrightarrow> held_ok inputs n c' h"
  by (auto simp: held_ok_def grows_def)

lemma coord_inv_lengths:
  "coord_inv (map fst inputs) n c tms \<Longrightarrow> length (mapTasks c) = length inputs \<and> length (reduceTasks c) = n"
  by (auto simp: coord_inv_def dest: arg_cong [where f = length])

lemma held_ok_ref:
  "coord_inv (map fst inputs) n c tms \<Longrightarrow> held_ok inputs n c h \<Longrightarrow> valid_ref c (gt_Id (task h)) (gt_TaskType (task h))"
  using coord_inv_lengths [of inputs n c tms] by (auto simp: held_ok_def valid_ref_def mapReply_def reduceReply_def slen_def)

lemma maps_all_done:
  assumes "job_inv mapf reducef inputs n j" "mapsLeft (coord j) = 0" "i < length inputs"
  shows "map_done mapf inputs n (files j) i"
proof -
  have c: "coord_inv (map fst inputs) n (coord j) (timers j)" using assms(1) by (simp add: job_inv_def)
  then have "incomplete (mapTasks (coord j)) = 0" using assms(2) by (simp add: coord_inv_def)
  then have "completed (mapTasks (coord j)) i"
    using incomplete_0 coord_inv_lengths [OF c] assms(3) by auto
  with assms(1,3) show ?thesis by (simp add: job_inv_def)
qed

text \<open>A step that only changes the coordinator and the workers.\<close>

lemma job_inv_coord:
  assumes inv: "job_inv mapf reducef inputs n j"
    and c': "coord_inv (map fst inputs) n c' tms'" "grows (coord j) c'"
    and ws: "\<forall>h\<in>set ws. h \<in> set (workers j) \<or> \<not> ran h \<and> held_ok inputs n c' h"
    and fin: "\<forall>i<length inputs. completed (mapTasks c') i \<longrightarrow> completed (mapTasks (coord j)) i \<or> ran_task j (mapReply inputs n i)"
      "\<forall>r<n. completed (reduceTasks c') r \<longrightarrow> completed (reduceTasks (coord j)) r \<or> ran_task j (reduceReply inputs r)"
  shows "job_inv mapf reducef inputs n (j\<lparr>coord := c', timers := tms', workers := ws\<rparr>)"
proof -
  let ?j = "j\<lparr>coord := c', timers := tms', workers := ws\<rparr>"
  have "ran_task ?j t \<Longrightarrow> ran_task j t" for t using ws by (auto simp: ran_task_def)
  moreover have "\<forall>h\<in>set ws. held_ok inputs n c' h"
    using ws inv held_ok_grows [OF c'(2)] by (auto simp: job_inv_def)
  ultimately show ?thesis using inv c'(1) fin by (auto simp: job_inv_def)
qed

text \<open>A step that runs a task.\<close>

lemma job_inv_files:
  assumes inv: "job_inv mapf reducef inputs n j" and k: "k < length (workers j)"
    and g: "keeps mapf reducef inputs n (files j) g"
    and new: "\<And>i. i < length inputs \<Longrightarrow> task (workers j ! k) = mapReply inputs n i \<Longrightarrow> map_done mapf inputs n g i"
      "\<And>r. r < n \<Longrightarrow> task (workers j ! k) = reduceReply inputs r \<Longrightarrow> reduce_done mapf reducef inputs n g r"
  shows "job_inv mapf reducef inputs n (j\<lparr>files := g, workers := (workers j)[k := (workers j ! k)\<lparr>ran := True\<rparr>]\<rparr>)"
proof -
  let ?ws = "(workers j)[k := (workers j ! k)\<lparr>ran := True\<rparr>]" and ?h = "workers j ! k"
  let ?j = "j\<lparr>files := g, workers := ?ws\<rparr>"
  have sub: "set ?ws \<subseteq> insert (?h\<lparr>ran := True\<rparr>) (set (workers j))" by (rule set_update_subset_insert)
  then have ran: "ran_task ?j t \<Longrightarrow> ran_task j t \<or> task ?h = t" for t by (auto simp: ran_task_def)
  have "held_ok inputs n (coord j) (?h\<lparr>ran := True\<rparr>)"
    using inv nth_mem [OF k] by (auto simp: job_inv_def held_ok_def)
  then have "\<forall>h\<in>set ?ws. held_ok inputs n (coord j) h" using sub inv by (auto simp: job_inv_def)
  moreover have "map_done mapf inputs n g i" if "i < length inputs"
      "completed (mapTasks (coord j)) i \<or> ran_task ?j (mapReply inputs n i)" for i
    using that ran [of "mapReply inputs n i"] new(1) [of i] inv g by (auto simp: job_inv_def keeps_def)
  moreover have "reduce_done mapf reducef inputs n g r" if "r < n"
      "completed (reduceTasks (coord j)) r \<or> ran_task ?j (reduceReply inputs r)" for r
    using that ran [of "reduceReply inputs r"] new(2) [of r] inv g by (auto simp: job_inv_def keeps_def)
  ultimately show ?thesis using inv g by (simp add: job_inv_def keeps_def)
qed

lemma job_inv_init:
  assumes "inputs_there inputs f"
  shows "job_inv mapf reducef inputs n (initJob inputs n f)"
  using assms coord_inv_init [of "map fst inputs" n]
  by (auto simp: job_inv_def initJob_def ran_task_def completed_def MakeCoordinator_def nth_enumerate_eq)

lemma mapReply_inj [simp]: "mapReply inputs n i = mapReply inputs n i' \<longleftrightarrow> i = i'" "reduceReply inputs r = reduceReply inputs r' \<longleftrightarrow> r = r'"
  "mapReply inputs n i \<noteq> reduceReply inputs r" "reduceReply inputs r \<noteq> mapReply inputs n i"
  by (auto simp: mapReply_def reduceReply_def)

lemma job_ask:
  assumes inv: "job_inv mapf reducef inputs n j"
  shows "\<exists>j'. ask j = Next j' \<and> job_inv mapf reducef inputs n j' \<and> grows (coord j) (coord j')"
proof -
  have c: "coord_inv (map fst inputs) n (coord j) (timers j)" using inv by (simp add: job_inv_def)
  note len = coord_inv_lengths [OF c]
  from c show ?thesis
  proof (cases rule: GetTask_cases)
    case (Map i)
    let ?c = "(coord j)\<lparr>mapTasks := withStatus (mapTasks (coord j)) i ''in progress''\<rparr>"
    let ?tms = "timers j @ [(int i, ''map'')]" and ?ws = "workers j @ [\<lparr>task = mapReply inputs n i, ran = False\<rparr>]"
    have c': "coord_inv (map fst inputs) n ?c ?tms"
      using coord_inv_map [OF c Map(2), of "''in progress''" ?tms] Map(3) by (auto simp: left_def)
    have g: "grows (coord j) ?c"
      using grows_map [OF Map(2), of "mapsLeft (coord j)" "''in progress''"] Map(1,3) by simp
    have "job_inv mapf reducef inputs n (j\<lparr>coord := ?c, timers := ?tms, workers := ?ws\<rparr>)"
      by (rule job_inv_coord [OF inv c' g]) (use Map len in \<open>auto simp: held_ok_def completed_withStatus\<close>)
    with Map(4) g len Map(2) show ?thesis by (simp add: ask_def mapReply_def)
  next
    case (Reduce i)
    let ?c = "(coord j)\<lparr>reduceTasks := withStatus (reduceTasks (coord j)) i ''in progress''\<rparr>"
    let ?tms = "timers j @ [(int i, ''reduce'')]" and ?ws = "workers j @ [\<lparr>task = reduceReply inputs i, ran = False\<rparr>]"
    have c': "coord_inv (map fst inputs) n ?c ?tms"
      using coord_inv_reduce [OF c Reduce(2), of "''in progress''" ?tms] Reduce(1,3) by (auto simp: left_def)
    have g: "grows (coord j) ?c"
      using grows_reduce [OF Reduce(2), of "reducesLeft (coord j)" "''in progress''"] Reduce(3) by simp
    have "job_inv mapf reducef inputs n (j\<lparr>coord := ?c, timers := ?tms, workers := ?ws\<rparr>)"
      by (rule job_inv_coord [OF inv c' g]) (use Reduce len in \<open>auto simp: held_ok_def completed_withStatus\<close>)
    with Reduce(4) g show ?thesis by (simp add: ask_def reduceReply_def slen_def)
  next
    case Idle
    with inv show ?thesis by (simp add: ask_def zeroGetTaskReply_def)
  next
    case Finished
    with inv show ?thesis by (simp add: ask_def)
  qed
qed


lemma job_report:
  assumes inv: "job_inv mapf reducef inputs n j" and k: "k < length (workers j)" "ran (workers j ! k)"
  shows "\<exists>j'. report j k = Next j' \<and> job_inv mapf reducef inputs n j' \<and> grows (coord j) (coord j')"
proof -
  let ?h = "workers j ! k"
  have c: "coord_inv (map fst inputs) n (coord j) (timers j)" using inv by (simp add: job_inv_def)
  have h: "held_ok inputs n (coord j) ?h" using inv nth_mem [OF k(1)] by (simp add: job_inv_def)
  have r: "ran_task j (task ?h)" using nth_mem [OF k(1)] k(2) by (auto simp: ran_task_def)
  from coord_MarkComplete [OF c held_ok_ref [OF c h]] obtain c' where
    c': "MarkComplete (coord j) (gt_Id (task ?h)) (gt_TaskType (task ?h)) = Inr c'" "coord_inv (map fst inputs) n c' (timers j)" "grows (coord j) c'"
    "\<forall>i<length (mapTasks (coord j)). completed (mapTasks c') i \<longrightarrow> completed (mapTasks (coord j)) i
       \<or> (gt_Id (task ?h), gt_TaskType (task ?h)) = (int i, ''map'')"
    "\<forall>i<length (reduceTasks (coord j)). completed (reduceTasks c') i \<longrightarrow> completed (reduceTasks (coord j)) i
       \<or> (gt_Id (task ?h), gt_TaskType (task ?h)) = (int i, ''reduce'')" by auto
  have "job_inv mapf reducef inputs n (j\<lparr>coord := c', timers := timers j, workers := dropNth k (workers j)\<rparr>)"
  proof (rule job_inv_coord [OF inv c'(2,3)])
    show "\<forall>h\<in>set (dropNth k (workers j)). h \<in> set (workers j) \<or> \<not> ran h \<and> held_ok inputs n c' h"
      using set_dropNth(2) [of k "workers j"] by auto
    show "\<forall>i<length inputs. completed (mapTasks c') i \<longrightarrow> completed (mapTasks (coord j)) i \<or> ran_task j (mapReply inputs n i)"
      using c'(4) h r coord_inv_lengths [OF c] by (auto simp: held_ok_def mapReply_def reduceReply_def)
    show "\<forall>r<n. completed (reduceTasks c') r \<longrightarrow> completed (reduceTasks (coord j)) r \<or> ran_task j (reduceReply inputs r)"
      using c'(5) h r coord_inv_lengths [OF c] by (auto simp: held_ok_def mapReply_def reduceReply_def)
  qed
  with c'(1,3) k show ?thesis by (simp add: report_def)
qed

lemma job_die:
  assumes inv: "job_inv mapf reducef inputs n j" and k: "k < length (workers j)"
  shows "\<exists>j'. die j k = Next j' \<and> job_inv mapf reducef inputs n j' \<and> grows (coord j) (coord j')"
proof -
  have c: "coord_inv (map fst inputs) n (coord j) (timers j)" using inv by (simp add: job_inv_def)
  have "job_inv mapf reducef inputs n (j\<lparr>coord := coord j, timers := timers j, workers := dropNth k (workers j)\<rparr>)"
    by (rule job_inv_coord [OF inv c]) (use set_dropNth(2) [of k "workers j"] in auto)
  with k show ?thesis by (simp add: die_def)
qed

lemma DetectStraggler_completed:
  assumes "coord_inv names n c tms" "valid_ref c k ty" "DetectStraggler c k ty = Inr c'"
  shows "i < length (mapTasks c) \<Longrightarrow> completed (mapTasks c') i \<Longrightarrow> completed (mapTasks c) i"
    and "i < length (reduceTasks c) \<Longrightarrow> completed (reduceTasks c') i \<Longrightarrow> completed (reduceTasks c) i"
  using assms(2) by (cases rule: valid_ref_cases; use assms(3) in
      \<open>auto simp: DetectStraggler_map DetectStraggler_reduce completed_withStatus split: if_splits\<close>)+

lemma job_expire:
  assumes inv: "job_inv mapf reducef inputs n j" and k: "k < length (timers j)"
  shows "\<exists>j'. expire j k = Next j' \<and> job_inv mapf reducef inputs n j' \<and> grows (coord j) (coord j')"
proof -
  have c: "coord_inv (map fst inputs) n (coord j) (timers j)" using inv by (simp add: job_inv_def)
  from coord_DetectStraggler [OF c k] obtain c' where
    c': "DetectStraggler (coord j) (fst (timers j ! k)) (snd (timers j ! k)) = Inr c'"
      "coord_inv (map fst inputs) n c' (dropNth k (timers j))" "grows (coord j) c'" by blast
  have v: "valid_ref (coord j) (fst (timers j ! k)) (snd (timers j ! k))"
    using c nth_mem [OF k] by (auto simp: coord_inv_def)
  have "job_inv mapf reducef inputs n (j\<lparr>coord := c', timers := dropNth k (timers j), workers := workers j\<rparr>)"
    using DetectStraggler_completed [OF c v c'(1)] coord_inv_lengths [OF c]
    by (intro job_inv_coord [OF inv c'(2,3)]) auto
  with c'(1,3) k show ?thesis by (simp add: expire_def)
qed

context key_sorter
begin

lemma job_work:
  assumes hyps: "order_free reducef" "good_names inputs" "0 < n"
    and inv: "job_inv mapf reducef inputs n j" and k: "k < length (workers j)" and fresh: "\<not> ran (workers j ! k)"
  shows "\<exists>j'. work sorter mapf reducef j k = Next j' \<and> job_inv mapf reducef inputs n j' \<and> coord j' = coord j
    \<and> workers j' = (workers j)[k := (workers j ! k)\<lparr>ran := True\<rparr>]"
proof -
  let ?h = "workers j ! k"
  have f: "inputs_there inputs (files j)" using inv by (simp add: job_inv_def)
  have "held_ok inputs n (coord j) ?h" using inv nth_mem [OF k] by (simp add: job_inv_def)
  then consider i where "i < length inputs" "task ?h = mapReply inputs n i"
    | r where "r < n" "task ?h = reduceReply inputs r" "mapsLeft (coord j) = 0" by (auto simp: held_ok_def)
  then obtain g where g: "runTask sorter mapf reducef (task ?h) (files j) = Inr g" "keeps mapf reducef inputs n (files j) g"
    "\<And>i. i < length inputs \<Longrightarrow> task ?h = mapReply inputs n i \<Longrightarrow> map_done mapf inputs n g i"
    "\<And>r. r < n \<Longrightarrow> task ?h = reduceReply inputs r \<Longrightarrow> reduce_done mapf reducef inputs n g r"
  proof cases
    case (1 i)
    from runTask_map [where mapf = mapf and reducef = reducef and sorter = sorter, OF hyps(3,2) f 1(1)] obtain g where
      g: "runTask sorter mapf reducef (mapReply inputs n i) (files j) = Inr g" "map_done mapf inputs n g i"
      "keeps mapf reducef inputs n (files j) g" by blast
    show thesis by (rule that [of g]) (use g 1(2) in simp_all)
  next
    case (2 r)
    from runTask_reduce [where mapf = mapf, OF hyps(1,2) f 2(1) maps_all_done [OF inv 2(3)]] obtain g where
      g: "runTask sorter mapf reducef (reduceReply inputs r) (files j) = Inr g" "reduce_done mapf reducef inputs n g r"
      "keeps mapf reducef inputs n (files j) g" by blast
    show thesis by (rule that [of g]) (use g 2(2) in simp_all)
  qed
  have "job_inv mapf reducef inputs n (j\<lparr>files := g, workers := (workers j)[k := ?h\<lparr>ran := True\<rparr>]\<rparr>)"
    by (rule job_inv_files [OF inv k g(2)]) (rule g(3,4), assumption+)+
  with g(1) k fresh show ?thesis by (simp add: work_def)
qed

lemma job_exec:
  assumes hyps: "order_free reducef" "good_names inputs" "0 < n" and inv: "job_inv mapf reducef inputs n j"
  shows "jobExec sorter mapf reducef j l = Disabled
    \<or> (\<exists>j'. jobExec sorter mapf reducef j l = Next j' \<and> job_inv mapf reducef inputs n j' \<and> grows (coord j) (coord j'))"
proof (cases l)
  case Ask
  then show ?thesis using job_ask [OF inv] by simp
next
  case (Work k)
  then show ?thesis using job_work [OF hyps inv, of k] by (cases "k < length (workers j) \<and> \<not> ran (workers j ! k)") (auto simp: work_def)
next
  case (Report k)
  then show ?thesis using job_report [OF inv, of k]
    by (cases "k < length (workers j) \<and> ran (workers j ! k)") (auto simp: report_def)
next
  case (Die k)
  then show ?thesis using job_die [OF inv, of k] by (cases "k < length (workers j)") (auto simp: die_def)
next
  case (Expire k)
  then show ?thesis using job_expire [OF inv, of k] by (cases "k < length (timers j)") (auto simp: expire_def)
qed

end

section \<open>Runs of a job\<close>

definition jobStep ::
    "(KeyValue list \<Rightarrow> KeyValue list) \<Rightarrow> (string \<Rightarrow> string \<Rightarrow> KeyValue list) \<Rightarrow> (string \<Rightarrow> string list \<Rightarrow> string)
      \<Rightarrow> job \<Rightarrow> job_label \<Rightarrow> job \<Rightarrow> bool" where
  "jobStep sorter mapf reducef j l j' \<longleftrightarrow> jobExec sorter mapf reducef j l = Next j'"

fun jobRun ::
    "(KeyValue list \<Rightarrow> KeyValue list) \<Rightarrow> (string \<Rightarrow> string \<Rightarrow> KeyValue list) \<Rightarrow> (string \<Rightarrow> string list \<Rightarrow> string)
      \<Rightarrow> job \<Rightarrow> job_label list \<Rightarrow> job option" where
  "jobRun sorter mapf reducef j [] = Some j"
| "jobRun sorter mapf reducef j (l # ls) =
     (case jobExec sorter mapf reducef j l of Next j' \<Rightarrow> jobRun sorter mapf reducef j' ls | _ \<Rightarrow> None)"

lemma jobRun_append:
  "jobRun sorter mapf reducef j ls = Some j' \<Longrightarrow> jobRun sorter mapf reducef j (ls @ ls') = jobRun sorter mapf reducef j' ls'"
  by (induction ls arbitrary: j) (auto split: outcome.splits)

text \<open>A job whose inputs are in place, with names that clash with no file of the job.\<close>

definition jobStart :: "(string \<times> string) list \<Rightarrow> nat \<Rightarrow> job \<Rightarrow> bool" where
  "jobStart inputs n j \<longleftrightarrow> good_names inputs \<and> 0 < n \<and> (\<exists>f. inputs_there inputs f \<and> j = initJob inputs n f)"

abbreviation jobReach where
  "jobReach sorter mapf reducef inputs n \<equiv> reachable (jobStart inputs n) (jobStep sorter mapf reducef)"

context key_sorter
begin

lemma reach_job_inv:
  assumes "order_free reducef" "jobReach sorter mapf reducef inputs n j"
  shows "job_inv mapf reducef inputs n j \<and> good_names inputs \<and> 0 < n"
  using assms(2)
proof (induction rule: reachable_invariant)
  case (init j)
  then show ?case using job_inv_init by (auto simp: jobStart_def)
next
  case (step j l j')
  then show ?case using job_exec [OF assms(1), of inputs n mapf j l] by (auto simp: jobStep_def)
qed

lemma complete_one:
  assumes hyps: "order_free reducef" "good_names inputs" "0 < n" and inv: "job_inv mapf reducef inputs n j"
    and idle: "fst (snd (GetTask (coord j))) \<noteq> zeroGetTaskReply" "\<not> (mapsLeft (coord j) = 0 \<and> reducesLeft (coord j) = 0)"
  shows "\<exists>ls j'. jobRun sorter mapf reducef j ls = Some j' \<and> job_inv mapf reducef inputs n j'
    \<and> mapsLeft (coord j') + reducesLeft (coord j') < mapsLeft (coord j) + reducesLeft (coord j)"
proof -
  let ?k = "length (workers j)"
  have c: "coord_inv (map fst inputs) n (coord j) (timers j)" using inv by (simp add: job_inv_def)
  from job_ask [OF inv] obtain j1 where j1: "ask j = Next j1" "job_inv mapf reducef inputs n j1" by blast
  from c obtain t where w: "workers j1 = workers j @ [\<lparr>task = t, ran = False\<rparr>]"
    and less: "\<And>c'. MarkComplete (coord j1) (gt_Id t) (gt_TaskType t) = Inr c'
       \<Longrightarrow> mapsLeft c' + reducesLeft c' < mapsLeft (coord j) + reducesLeft (coord j)"
  proof (cases rule: GetTask_cases)
    case (Map i)
    with j1(1) coord_inv_lengths [OF c] have j: "workers j1 = workers j @ [\<lparr>task = mapReply inputs n i, ran = False\<rparr>]"
      "coord j1 = (coord j)\<lparr>mapTasks := withStatus (mapTasks (coord j)) i ''in progress''\<rparr>"
      by (auto simp: ask_def mapReply_def)
    show ?thesis by (rule that [OF j(1)]) (use Map(2) in \<open>auto simp: j(2) mapReply_def MarkComplete_map status_withStatus left_def\<close>)
  next
    case (Reduce i)
    with j1(1) have j: "workers j1 = workers j @ [\<lparr>task = reduceReply inputs i, ran = False\<rparr>]"
      "coord j1 = (coord j)\<lparr>reduceTasks := withStatus (reduceTasks (coord j)) i ''in progress''\<rparr>"
      by (auto simp: ask_def reduceReply_def slen_def)
    show ?thesis by (rule that [OF j(1)]) (use Reduce(2) in \<open>auto simp: j(2) reduceReply_def MarkComplete_reduce status_withStatus left_def\<close>)
  qed (use idle in auto)
  have k: "?k < length (workers j1)" "\<not> ran (workers j1 ! ?k)" by (simp_all add: w)
  from job_work [OF hyps j1(2) k] obtain j2 where j2: "work sorter mapf reducef j1 ?k = Next j2" "job_inv mapf reducef inputs n j2"
    "coord j2 = coord j1" "workers j2 = (workers j1)[?k := (workers j1 ! ?k)\<lparr>ran := True\<rparr>]" by blast
  have k2: "?k < length (workers j2)" "ran (workers j2 ! ?k)" "task (workers j2 ! ?k) = t" by (simp_all add: j2(4) w)
  from job_report [OF j2(2) k2(1,2)] obtain j3 where j3: "report j2 ?k = Next j3" "job_inv mapf reducef inputs n j3" by blast
  then obtain c' where "MarkComplete (coord j1) (gt_Id t) (gt_TaskType t) = Inr c'" "coord j3 = c'"
    using k2 j2(3) by (auto simp: report_def out_bind_eq_Next split: if_splits)
  from less [OF this(1)] this(2) j1(1) j2(1) j3 show ?thesis
    by (intro exI [of _ "[Ask, Work ?k, Report ?k]"] exI [of _ j3]) simp
qed

text \<open>When every task left is in progress, a timer gives one of them back.\<close>

lemma free_one:
  assumes inv: "job_inv mapf reducef inputs n j" and idle: "GetTask (coord j) = (coord j, zeroGetTaskReply, None)"
    and busy: "\<forall>t\<in>set (if mapsLeft (coord j) = 0 then reduceTasks (coord j) else mapTasks (coord j)). status t \<noteq> ''unstarted''"
    and more: "\<not> (mapsLeft (coord j) = 0 \<and> reducesLeft (coord j) = 0)"
  shows "\<exists>k j'. expire j k = Next j' \<and> job_inv mapf reducef inputs n j' \<and> fst (snd (GetTask (coord j'))) \<noteq> zeroGetTaskReply
    \<and> mapsLeft (coord j') = mapsLeft (coord j) \<and> reducesLeft (coord j') = reducesLeft (coord j)"
proof -
  let ?c = "coord j" and ?ty = "if mapsLeft (coord j) = 0 then ''reduce'' else ''map''"
  let ?ts = "if mapsLeft ?c = 0 then reduceTasks ?c else mapTasks ?c"
  have c: "coord_inv (map fst inputs) n ?c (timers j)" using inv by (simp add: job_inv_def)
  have "incomplete ?ts \<noteq> 0" using c more by (auto simp: coord_inv_def)
  then obtain i where i: "i < length ?ts" "status (?ts ! i) \<noteq> ''completed''" using incomplete_0 [of ?ts] by (auto simp: completed_def)
  have "wf_tasks ?ts" "timed ?ts ?ty (timers j)" using c by (auto simp: coord_inv_def)
  with i busy nth_mem [OF i(1)] have st: "status (?ts ! i) = ''in progress''" "(int i, ?ty) \<in> set (timers j)"
    by (auto simp: wf_tasks_def timed_def)
  then obtain k where k: "k < length (timers j)" "timers j ! k = (int i, ?ty)" by (auto simp: in_set_conv_nth)
  from job_expire [OF inv k(1)] obtain j' where j': "expire j k = Next j'" "job_inv mapf reducef inputs n j'" by blast
  then have d: "DetectStraggler ?c (int i) ?ty = Inr (coord j')"
    using k by (auto simp: expire_def out_bind_eq_Next split: if_splits)
  then have d': "coord j' = (if mapsLeft ?c = 0 then ?c\<lparr>reduceTasks := withStatus ?ts i ''unstarted''\<rparr>
      else ?c\<lparr>mapTasks := withStatus ?ts i ''unstarted''\<rparr>)"
    using i(1) st(1) by (auto simp: DetectStraggler_map DetectStraggler_reduce left_def split: if_splits)
  have same: "mapsLeft (coord j') = mapsLeft ?c" "reducesLeft (coord j') = reducesLeft ?c"
    "(if mapsLeft ?c = 0 then reduceTasks (coord j') else mapTasks (coord j')) = withStatus ?ts i ''unstarted''"
    by (simp_all add: d')
  have "coord_inv (map fst inputs) n (coord j') (timers j')" using j'(2) by (simp add: job_inv_def)
  then have "fst (snd (GetTask (coord j'))) \<noteq> zeroGetTaskReply"
  proof (cases rule: GetTask_cases)
    case Idle
    have "withStatus ?ts i ''unstarted'' ! i \<in> set (withStatus ?ts i ''unstarted'')" using i(1) by (intro nth_mem) simp
    with Idle(3) same have "status (withStatus ?ts i ''unstarted'' ! i) \<noteq> ''unstarted''" by simp
    with status_withStatus [OF i(1) i(1)] show ?thesis by simp
  qed (auto simp: zeroGetTaskReply_def)
  with j' same show ?thesis by blast
qed

lemma can_finish:
  assumes hyps: "order_free reducef" "good_names inputs" "0 < n" and inv: "job_inv mapf reducef inputs n j"
  shows "\<exists>ls j'. jobRun sorter mapf reducef j ls = Some j' \<and> mapsLeft (coord j') = 0 \<and> reducesLeft (coord j') = 0"
  using inv
proof (induction "nat (mapsLeft (coord j) + reducesLeft (coord j))" arbitrary: j rule: less_induct)
  case less
  let ?left = "\<lambda>j. mapsLeft (coord j) + reducesLeft (coord j)"
  have c: "coord_inv (map fst inputs) n (coord j) (timers j)" using less.prems by (simp add: job_inv_def)
  show ?case
  proof (cases "mapsLeft (coord j) = 0 \<and> reducesLeft (coord j) = 0")
    case True
    then show ?thesis by (intro exI [of _ "[]"]) simp
  next
    case False
    have "\<exists>ls j1. jobRun sorter mapf reducef j ls = Some j1 \<and> job_inv mapf reducef inputs n j1
      \<and> fst (snd (GetTask (coord j1))) \<noteq> zeroGetTaskReply
      \<and> mapsLeft (coord j1) = mapsLeft (coord j) \<and> reducesLeft (coord j1) = reducesLeft (coord j)"
      using c
    proof (cases rule: GetTask_cases)
      case Idle
      from free_one [OF less.prems Idle(1,3) False] obtain k j1 where "expire j k = Next j1" "job_inv mapf reducef inputs n j1"
        "fst (snd (GetTask (coord j1))) \<noteq> zeroGetTaskReply" "mapsLeft (coord j1) = mapsLeft (coord j)"
        "reducesLeft (coord j1) = reducesLeft (coord j)" by blast
      then show ?thesis by (intro exI [of _ "[Expire k]"] exI [of _ j1]) simp
    qed (use less.prems False in \<open>auto intro!: exI [of _ "[]"] simp: zeroGetTaskReply_def\<close>)
    then obtain ls1 j1 where j1: "jobRun sorter mapf reducef j ls1 = Some j1" "job_inv mapf reducef inputs n j1"
      "fst (snd (GetTask (coord j1))) \<noteq> zeroGetTaskReply" "mapsLeft (coord j1) = mapsLeft (coord j)"
      "reducesLeft (coord j1) = reducesLeft (coord j)" by blast
    from complete_one [OF hyps j1(2,3)] False j1(4,5) obtain ls2 j2 where
      j2: "jobRun sorter mapf reducef j1 ls2 = Some j2" "job_inv mapf reducef inputs n j2" "?left j2 < ?left j" by auto
    have "0 \<le> ?left j2" using j2(2) by (simp add: job_inv_def coord_inv_def)
    with j2(3) have "nat (?left j2) < nat (?left j)" by simp
    from less.hyps [OF this j2(2)] obtain ls3 j3 where
      j3: "jobRun sorter mapf reducef j2 ls3 = Some j3" "mapsLeft (coord j3) = 0" "reducesLeft (coord j3) = 0" by blast
    have "jobRun sorter mapf reducef j (ls1 @ ls2 @ ls3) = Some j3"
      using jobRun_append [OF j1(1), of "ls2 @ ls3"] jobRun_append [OF j2(1), of ls3] j3(1) by simp
    with j3(2,3) show ?thesis by blast
  qed
qed

end

section \<open>Properties\<close>



text \<open>A job of two files with one reduce task; the first worker dies with its task and a timer gives it back.\<close>

lemma jobRun_reach:
  "jobRun sorter mapf reducef j ls = Some j' \<Longrightarrow> jobReach sorter mapf reducef inputs n j \<Longrightarrow> jobReach sorter mapf reducef inputs n j'"
proof (induction ls arbitrary: j)
  case (Cons l ls)
  then obtain u where u: "jobExec sorter mapf reducef j l = Next u" "jobRun sorter mapf reducef u ls = Some j'"
    by (auto split: outcome.splits)
  have "jobReach sorter mapf reducef inputs n u"
    by (rule reachable_step [OF Cons.prems(2)]) (use u(1) in \<open>auto simp: jobStep_def\<close>)
  with u(2) Cons.IH show ?case by blast
qed simp

definition demoInputs :: "(string \<times> string) list" where
  "demoInputs = [(''x'', ''a b''), (''y'', ''c'')]"

definition demoFiles :: fs where
  "demoFiles = [''x'' \<mapsto> Text ''a b'', ''y'' \<mapsto> Text ''c'']"

definition demoLabels :: "job_label list" where
  "demoLabels = [Ask, Ask, Die 0, Work 0, Report 0, Expire 0, Ask, Work 0, Report 0, Ask, Work 0, Report 0]"

definition demoJob :: job where
  "demoJob = the (jobRun byKey crashMap crashReduce (initJob demoInputs 1 demoFiles) demoLabels)"

lemma demoJob_run: "jobRun byKey crashMap crashReduce (initJob demoInputs 1 demoFiles) demoLabels = Some demoJob"
proof -
  have "\<not> Option.is_none (jobRun byKey crashMap crashReduce (initJob demoInputs 1 demoFiles) demoLabels)"
    by code_simp
  then show ?thesis by (simp add: demoJob_def Option.is_none_def)
qed

lemma demo_inputs: "inputs_there demoInputs demoFiles" "good_names demoInputs"
  by (auto simp: inputs_there_def demoInputs_def demoFiles_def good_names_def interName_def outName_def)

lemma demoJob_reach: "jobReach byKey crashMap crashReduce demoInputs 1 demoJob"
proof (rule jobRun_reach [OF demoJob_run])
  have "jobStart demoInputs 1 (initJob demoInputs 1 demoFiles)" using demo_inputs by (auto simp: jobStart_def)
  then show "jobReach byKey crashMap crashReduce demoInputs 1 (initJob demoInputs 1 demoFiles)" by (rule reachable_init)
qed

lemma demoJob_done: "Done (coord demoJob)"
  unfolding demoJob_def by code_simp



text \<open>C22: No job is stuck. From every state a job can reach, however many workers have died or stall with a task,
  there is a continuation with fresh workers in which it finishes: every task that is not completed is either
  waiting to be given out or has a pending timer that gives it back.\<close>

theorem job_can_finish:
  assumes "key_sorter sorter" "order_free reducef" "jobReach sorter mapf reducef inputs n j"
  shows "\<exists>ls j'. jobRun sorter mapf reducef j ls = Some j' \<and> Done (coord j')"
proof -
  from key_sorter.reach_job_inv [OF assms] have inv: "job_inv mapf reducef inputs n j" "good_names inputs" "0 < n" by auto
  from key_sorter.can_finish [OF assms(1,2) inv(2,3,1)] show ?thesis unfolding Done_def by blast
qed

theorem job_can_finish_witness:
  "\<exists>ls j'. jobRun byKey crashMap crashReduce demoJob ls = Some j' \<and> Done (coord j')"
  by (rule job_can_finish [OF byKey.key_sorter_axioms crash.free demoJob_reach])



text \<open>C24: The counters are exact and phases do not mix. In every state a job can reach \<open>mapsLeft\<close> and \<open>reducesLeft\<close>
  are the numbers of map and reduce tasks that are not completed, a reduce task is handed out only when every map task
  is completed, and \<open>Done\<close> says true exactly when all reduce tasks are completed.\<close>

theorem coordinator_phases:
  assumes "key_sorter sorter" "order_free reducef" "jobReach sorter mapf reducef inputs n j"
  shows "mapsLeft (coord j) = incomplete (mapTasks (coord j)) \<and> reducesLeft (coord j) = incomplete (reduceTasks (coord j))
    \<and> (gt_TaskType (fst (snd (GetTask (coord j)))) = ''reduce'' \<longrightarrow> (\<forall>i<length inputs. completed (mapTasks (coord j)) i))
    \<and> (Done (coord j) \<longleftrightarrow> (\<forall>r<n. completed (reduceTasks (coord j)) r))"
proof -
  from key_sorter.reach_job_inv [OF assms] have c: "coord_inv (map fst inputs) n (coord j) (timers j)" by (simp add: job_inv_def)
  have "mapsLeft (coord j) = 0" if "gt_TaskType (fst (snd (GetTask (coord j)))) = ''reduce''"
    using c that by (cases rule: GetTask_cases) (auto simp: zeroGetTaskReply_def)
  with c incomplete_0 coord_inv_lengths [OF c] show ?thesis by (auto simp: coord_inv_def Done_def)
qed


theorem coordinator_phases_witness:
  "Done (coord demoJob) \<and> reducesLeft (coord demoJob) = incomplete (reduceTasks (coord demoJob))"
  using coordinator_phases [OF byKey.key_sorter_axioms crash.free demoJob_reach] demoJob_done by blast

section \<open>Two workers on one map task\<close>

text \<open>
  The writes of a map task one by one: \<open>DoMap\<close> first truncates its files and then appends pair after
  pair. A straggler whose task was given to another worker is not stopped.
\<close>

datatype map_act = CreateFiles | AppendPair KeyValue

fun doAct :: "nat \<Rightarrow> nat \<Rightarrow> fs \<Rightarrow> map_act \<Rightarrow> fs go" where
  "doAct mapId n f CreateFiles = Inr (createInter f mapId n)"
| "doAct mapId n f (AppendPair x) =
     go_bind (partition_of n (Key x)) (\<lambda>p. appendKV f (interName mapId p) x)"

fun doActs :: "nat \<Rightarrow> nat \<Rightarrow> fs \<Rightarrow> map_act list \<Rightarrow> fs go" where
  "doActs mapId n f [] = Inr f"
| "doActs mapId n f (a # as) = go_bind (doAct mapId n f a) (\<lambda>g. doActs mapId n g as)"

definition mapActs :: "KeyValue list \<Rightarrow> map_act list" where
  "mapActs kva = CreateFiles # map AppendPair kva"

lemma doActs_writeLoop: "doActs mapId n f (map AppendPair kva) = writeLoop f mapId n kva"
proof (induction kva arbitrary: f)
  case (Cons x kva)
  show ?case
    by (cases "partition_of n (Key x)"; cases "appendKV f (interName mapId (projr (partition_of n (Key x)))) x")
       (auto simp: Cons.IH)
qed simp

text \<open>C25: A straggler can spoil a task that is run again. The writes of \<open>DoMap\<close> are those of \<open>mapActs\<close>; when two workers
  run the same map task and their writes interleave, a pair can be in the intermediate file
  twice, so the reduce task counts it twice. The task is not written to a temporary file that is renamed.\<close>

theorem straggler_duplicates_pairs:
  "DoMap (\<lambda>f t. kva) file n mapId f = go_bind (readText f file) (\<lambda>t. doActs mapId n f (mapActs kva))
   \<and> (\<exists>as\<in>shuffles (mapActs [kv ''a'' ''1'', kv ''b'' ''1'']) (mapActs [kv ''a'' ''1'', kv ''b'' ''1'']). \<exists>g.
        doActs 0 1 Map.empty as = Inr g \<and> g (interName 0 0) = Some (Json [kv ''a'' ''1'', kv ''b'' ''1'', kv ''b'' ''1'']))"
proof
  show "DoMap (\<lambda>f t. kva) file n mapId f = go_bind (readText f file) (\<lambda>t. doActs mapId n f (mapActs kva))"
    by (simp add: DoMap_def mapActs_def doActs_writeLoop)
  let ?a = "AppendPair (kv ''a'' ''1'')" and ?b = "AppendPair (kv ''b'' ''1'')"
  let ?as = "[CreateFiles, ?a, CreateFiles, ?a, ?b, ?b]"
  have "?as \<in> shuffles (mapActs [kv ''a'' ''1'', kv ''b'' ''1'']) (mapActs [kv ''a'' ''1'', kv ''b'' ''1''])"
    by (simp add: mapActs_def Cons_in_shuffles_iff)
  moreover have "\<exists>g. doActs 0 1 Map.empty ?as = Inr g \<and> g (interName 0 0) = Some (Json [kv ''a'' ''1'', kv ''b'' ''1'', kv ''b'' ''1''])"
    by (simp add: partition_of_def createInter_def appendKV_def)
  ultimately show "\<exists>as\<in>shuffles (mapActs [kv ''a'' ''1'', kv ''b'' ''1'']) (mapActs [kv ''a'' ''1'', kv ''b'' ''1'']). \<exists>g.
        doActs 0 1 Map.empty as = Inr g \<and> g (interName 0 0) = Some (Json [kv ''a'' ''1'', kv ''b'' ''1'', kv ''b'' ''1''])"
    by blast
qed

end
