(* ===== verification/Bank.thy ===== *)
theory Bank
  imports Prelude "HOL-Library.Word"
begin

text \<open>
  The bank (\<open>src/bank/bank.go\<close>): accounts with one mutex each and one mutex for the bank, used by
  goroutines that each make one call.

  Balances are Go's 64 bit \<open>int\<close>, compared as signed numbers. A goroutine is the call it makes and
  the statement it is at; \<open>bankStep\<close> runs it to its next statement that locks, unlocks, or reads or
  writes what other goroutines see. A mutex records who has locked it. \<open>journal\<close> is not in the code: it
  lists the calls with their results in the order they took effect. The dummy notifications
  and the debug output are left out.
\<close>

section \<open>Data\<close>

type_synonym mutex = "nat option"
type_synonym money = "64 word"

record Account =
  balance :: money
  acctLock :: mutex

record Bank =
  bankLock :: mutex
  accounts :: "int \<rightharpoonup> Account"

definition BankInit :: Bank where
  "BankInit = \<lparr>bankLock = None, accounts = Map.empty\<rparr>"

datatype call =
    CreateAccount int
  | Deposit int money
  | Withdraw int money
  | Transfer int int money bool
  | GetBalance int
  | DepositAndCompare int money money

datatype result = RUnit | RBool bool | RInt money

text \<open>Where a goroutine is; the constructors carry its local variables.\<close>

datatype pc =
    Begin
  | Create_check int | Create_unlock
  | Dep_lock int money | Dep_unlock int money | Dep_read int money | Dep_write int money money | Dep_leave int
  | Wd_check int money | Wd_lock int money | Wd_test int money | Wd_write int money money | Wd_leave int bool
  | Tr_check int int money bool | Tr_send int int money bool | Tr_recv int int money bool
  | Tr_unlock int int money bool | Tr_test int int money bool | Tr_sub int int money bool | Tr_add int int money
  | Tr_leave int int bool | Tr_leave2 int bool
  | Get_find int | Get_lock int | Get_read int | Get_leave int money
  | Returned result

record thread =
  call :: call
  pc :: pc

record bank_sys =
  bank :: Bank
  threads :: "thread list"
  journal :: "(nat \<times> call \<times> result) list"

section \<open>Statements\<close>

definition lockBank :: "nat \<Rightarrow> Bank \<Rightarrow> pc \<Rightarrow> (Bank \<times> pc \<times> (call \<times> result) option) outcome" where
  "lockBank i b p = (if bankLock b = None then Next (b\<lparr>bankLock := Some i\<rparr>, p, None) else Disabled)"

definition unlockBank :: "Bank \<Rightarrow> pc \<Rightarrow> (Bank \<times> pc \<times> (call \<times> result) option) outcome" where
  "unlockBank b p = (if bankLock b = None then Panicked (Fatal ''unlock of unlocked mutex'')
     else Next (b\<lparr>bankLock := None\<rparr>, p, None))"

text \<open>A statement on an account whose pointer may be nil.\<close>

definition onAccount :: "Bank \<Rightarrow> int \<Rightarrow> (Account \<Rightarrow> 'a outcome) \<Rightarrow> 'a outcome" where
  "onAccount b k f = (case accounts b k of None \<Rightarrow> Panicked NilDereference | Some a \<Rightarrow> f a)"

definition setAccount :: "Bank \<Rightarrow> int \<Rightarrow> Account \<Rightarrow> Bank" where
  "setAccount b k a = b\<lparr>accounts := (accounts b)(k \<mapsto> a)\<rparr>"

definition lockAcct :: "nat \<Rightarrow> Bank \<Rightarrow> int \<Rightarrow> pc \<Rightarrow> (Bank \<times> pc \<times> (call \<times> result) option) outcome" where
  "lockAcct i b k p = onAccount b k (\<lambda>a. if acctLock a = None then Next (setAccount b k (a\<lparr>acctLock := Some i\<rparr>), p, None) else Disabled)"

definition unlockAcct :: "Bank \<Rightarrow> int \<Rightarrow> pc \<Rightarrow> (Bank \<times> pc \<times> (call \<times> result) option) outcome" where
  "unlockAcct b k p = onAccount b k (\<lambda>a. if acctLock a = None then Panicked (Fatal ''unlock of unlocked mutex'')
     else Next (setAccount b k (a\<lparr>acctLock := None\<rparr>), p, None))"

fun entry :: "call \<Rightarrow> pc" where
  "entry (CreateAccount k) = Create_check k"
| "entry (Deposit k m) = Dep_lock k m"
| "entry (Withdraw k m) = Wd_check k m"
| "entry (Transfer s r m ov) = Tr_check s r m ov"
| "entry (GetBalance k) = Get_find k"
| "entry (DepositAndCompare k m th) = Dep_lock k m"

text \<open>\<open>Deposit\<close> and \<open>GetBalance\<close> return to their caller, which may be \<open>DepositAndCompare\<close>.\<close>

fun depositReturn :: "call \<Rightarrow> pc" where
  "depositReturn (DepositAndCompare k m th) = Get_find k"
| "depositReturn c = Returned RUnit"

fun balanceReturn :: "call \<Rightarrow> money \<Rightarrow> pc" where
  "balanceReturn (DepositAndCompare k m th) v = Returned (RBool (th \<le>s v))"
| "balanceReturn c v = Returned (RInt v)"

fun bankStep :: "nat \<Rightarrow> call \<Rightarrow> pc \<Rightarrow> Bank \<Rightarrow> (Bank \<times> pc \<times> (call \<times> result) option) outcome" where
  "bankStep i c Begin b = (case c of GetBalance k \<Rightarrow> Next (b, entry c, None) | _ \<Rightarrow> lockBank i b (entry c))"
\<comment> \<open>CreateAccount\<close>
| "bankStep i c (Create_check k) b = (if accounts b k \<noteq> None then Panicked (Panic ''Account already exists'')
     else Next (setAccount b k \<lparr>balance = 0, acctLock = None\<rparr>, Create_unlock, Some (CreateAccount k, RUnit)))"
| "bankStep i c Create_unlock b = unlockBank b (Returned RUnit)"
\<comment> \<open>Deposit; the account is not nil once its mutex is locked\<close>
| "bankStep i c (Dep_lock k m) b = lockAcct i b k (Dep_unlock k m)"
| "bankStep i c (Dep_unlock k m) b = unlockBank b (Dep_read k m)"
| "bankStep i c (Dep_read k m) b = onAccount b k (\<lambda>a. Next (b, Dep_write k m (balance a + m), None))"
| "bankStep i c (Dep_write k m new) b = onAccount b k (\<lambda>a.
     Next (setAccount b k (a\<lparr>balance := new\<rparr>), Dep_leave k, Some (Deposit k m, RUnit)))"
| "bankStep i c (Dep_leave k) b = unlockAcct b k (depositReturn c)"
\<comment> \<open>Withdraw\<close>
| "bankStep i c (Wd_check k m) b = (if accounts b k = None then Panicked (Panic ''Account does not exist'')
     else unlockBank b (Wd_lock k m))"
| "bankStep i c (Wd_lock k m) b = lockAcct i b k (Wd_test k m)"
| "bankStep i c (Wd_test k m) b = onAccount b k (\<lambda>a.
     if m \<le>s balance a then Next (b, Wd_write k m (balance a - m), None)
     else Next (b, Wd_leave k False, Some (Withdraw k m, RBool False)))"
| "bankStep i c (Wd_write k m new) b = onAccount b k (\<lambda>a.
     Next (setAccount b k (a\<lparr>balance := new\<rparr>), Wd_leave k True, Some (Withdraw k m, RBool True)))"
| "bankStep i c (Wd_leave k res) b = unlockAcct b k (Returned (RBool res))"
\<comment> \<open>Transfer\<close>
| "bankStep i c (Tr_check s r m ov) b =
     (if accounts b s = None then Panicked (Panic ''Sender account does not exist'')
      else if accounts b r = None then Panicked (Panic ''Receiver account does not exist'')
      else Next (b, Tr_send s r m ov, None))"
| "bankStep i c (Tr_send s r m ov) b = lockAcct i b s (Tr_recv s r m ov)"
| "bankStep i c (Tr_recv s r m ov) b = lockAcct i b r (Tr_unlock s r m ov)"
| "bankStep i c (Tr_unlock s r m ov) b = unlockBank b (Tr_test s r m ov)"
| "bankStep i c (Tr_test s r m ov) b = onAccount b s (\<lambda>a.
     if m \<le>s balance a \<or> ov then Next (b, Tr_sub s r m ov, None)
     else Next (b, Tr_leave s r False, Some (Transfer s r m ov, RBool False)))"
| "bankStep i c (Tr_sub s r m ov) b = onAccount b s (\<lambda>a.
     Next (setAccount b s (a\<lparr>balance := balance a - m\<rparr>), Tr_add s r m, Some (Transfer s r m ov, RBool True)))"
| "bankStep i c (Tr_add s r m) b = onAccount b r (\<lambda>a.
     Next (setAccount b r (a\<lparr>balance := balance a + m\<rparr>), Tr_leave s r True, None))"
| "bankStep i c (Tr_leave s r res) b = unlockAcct b s (Tr_leave2 r res)"
| "bankStep i c (Tr_leave2 r res) b = unlockAcct b r (Returned (RBool res))"
\<comment> \<open>GetBalance\<close>
| "bankStep i c (Get_find k) b = onAccount b k (\<lambda>a. Next (b, Get_lock k, None))"
| "bankStep i c (Get_lock k) b = lockAcct i b k (Get_read k)"
| "bankStep i c (Get_read k) b = onAccount b k (\<lambda>a. Next (b, Get_leave k (balance a), Some (GetBalance k, RInt (balance a))))"
| "bankStep i c (Get_leave k v) b = unlockAcct b k (balanceReturn c v)"
| "bankStep i c (Returned res) b = Disabled"

text \<open>A step of the system: goroutine \<open>i\<close> runs.\<close>

definition bankExec :: "bank_sys \<Rightarrow> nat \<Rightarrow> bank_sys outcome" where
  "bankExec s i =
     (if i < length (threads s)
      then case bankStep i (call (threads s ! i)) (pc (threads s ! i)) (bank s) of
          Disabled \<Rightarrow> Disabled
        | Panicked e \<Rightarrow> Panicked e
        | Next (b, p, ev) \<Rightarrow> Next (s\<lparr>bank := b, threads := (threads s)[i := (threads s ! i)\<lparr>pc := p\<rparr>],
              journal := journal s @ (case ev of None \<Rightarrow> [] | Some e \<Rightarrow> [(i, e)])\<rparr>)
      else Disabled)"

definition bankStart :: "call list \<Rightarrow> bank_sys" where
  "bankStart calls = \<lparr>bank = BankInit, threads = map (\<lambda>c. \<lparr>call = c, pc = Begin\<rparr>) calls, journal = []\<rparr>"

abbreviation bankReach :: "call list \<Rightarrow> bank_sys \<Rightarrow> bool" where
  "bankReach calls \<equiv> reachable (\<lambda>s. s = bankStart calls) (\<lambda>s i t. bankExec s i = Next t)"

fun bankRun :: "bank_sys \<Rightarrow> nat list \<Rightarrow> bank_sys option" where
  "bankRun s [] = Some s"
| "bankRun s (i # is) = (case bankExec s i of Next t \<Rightarrow> bankRun t is | _ \<Rightarrow> None)"


section \<open>Who holds which mutex\<close>

fun holdsBank :: "pc \<Rightarrow> bool" where
  "holdsBank (Create_check k) = True"
| "holdsBank Create_unlock = True"
| "holdsBank (Dep_lock k m) = True"
| "holdsBank (Dep_unlock k m) = True"
| "holdsBank (Wd_check k m) = True"
| "holdsBank (Tr_check s r m ov) = True"
| "holdsBank (Tr_send s r m ov) = True"
| "holdsBank (Tr_recv s r m ov) = True"
| "holdsBank (Tr_unlock s r m ov) = True"
| "holdsBank _ = False"

fun holds :: "pc \<Rightarrow> int \<Rightarrow> bool" where
  "holds (Dep_unlock k m) x = (x = k)"
| "holds (Dep_read k m) x = (x = k)"
| "holds (Dep_write k m new) x = (x = k)"
| "holds (Dep_leave k) x = (x = k)"
| "holds (Wd_test k m) x = (x = k)"
| "holds (Wd_write k m new) x = (x = k)"
| "holds (Wd_leave k res) x = (x = k)"
| "holds (Tr_recv s r m ov) x = (x = s)"
| "holds (Tr_unlock s r m ov) x = (x = s \<or> x = r)"
| "holds (Tr_test s r m ov) x = (x = s \<or> x = r)"
| "holds (Tr_sub s r m ov) x = (x = s \<or> x = r)"
| "holds (Tr_add s r m) x = (x = s \<or> x = r)"
| "holds (Tr_leave s r res) x = (x = s \<or> x = r)"
| "holds (Tr_leave2 r res) x = (x = r)"
| "holds (Get_read k) x = (x = k)"
| "holds (Get_leave k v) x = (x = k)"
| "holds _ x = False"

text \<open>A goroutine with both mutexes of a transfer has two accounts.\<close>

fun two_accounts :: "pc \<Rightarrow> bool" where
  "two_accounts (Tr_unlock s r m ov) = (s \<noteq> r)"
| "two_accounts (Tr_test s r m ov) = (s \<noteq> r)"
| "two_accounts (Tr_sub s r m ov) = (s \<noteq> r)"
| "two_accounts (Tr_add s r m) = (s \<noteq> r)"
| "two_accounts (Tr_leave s r res) = (s \<noteq> r)"
| "two_accounts _ = True"

definition owns :: "Bank \<Rightarrow> nat \<Rightarrow> int \<Rightarrow> bool" where
  "owns b i k \<longleftrightarrow> (\<exists>a. accounts b k = Some a \<and> acctLock a = Some i)"

definition lock_ok :: "nat \<Rightarrow> pc \<Rightarrow> Bank \<Rightarrow> bool" where
  "lock_ok i p b \<longleftrightarrow> (bankLock b = Some i \<longleftrightarrow> holdsBank p) \<and> (\<forall>k. owns b i k \<longleftrightarrow> holds p k) \<and> two_accounts p"

lemma setAccount_simps [simp]:
  "bankLock (setAccount b k a) = bankLock b"
  "accounts (setAccount b k a) = (accounts b)(k \<mapsto> a)"
  "owns (setAccount b k a) i x \<longleftrightarrow> (if x = k then acctLock a = Some i else owns b i x)"
  "owns (b\<lparr>bankLock := l\<rparr>) i x \<longleftrightarrow> owns b i x"
  by (auto simp: setAccount_def owns_def)

lemma owns_unique: "owns b i k \<Longrightarrow> owns b j k \<Longrightarrow> i = j"
  by (auto simp: owns_def)

lemma owns_Some: "accounts b k = Some a \<Longrightarrow> owns b i k \<longleftrightarrow> acctLock a = Some i"
  and owns_None: "accounts b k = None \<Longrightarrow> \<not> owns b i k"
  by (simp_all add: owns_def)

lemmas bank_stmts = lockBank_def unlockBank_def lockAcct_def unlockAcct_def onAccount_def

lemma entry_locks [simp]: "holds (entry c) k = False" "two_accounts (entry c)" "holdsBank (entry c) \<longleftrightarrow> (\<forall>k. c \<noteq> GetBalance k)"
  by (cases c; simp)+

lemma return_locks [simp]:
  "holds (depositReturn c) k = False" "two_accounts (depositReturn c)" "\<not> holdsBank (depositReturn c)"
  "holds (balanceReturn c v) k = False" "two_accounts (balanceReturn c v)" "\<not> holdsBank (balanceReturn c v)"
  by (cases c; simp)+

lemma step_bankLock:
  assumes "bankStep i c p b = Next (b', p', ev)" "lock_ok i p b" "j \<noteq> i"
  shows "bankLock b' = Some j \<longleftrightarrow> bankLock b = Some j"
  using assms by (cases p) (auto simp: bank_stmts lock_ok_def split: if_splits option.splits call.splits)

lemma step_owns:
  assumes "bankStep i c p b = Next (b', p', ev)" "owns b i k \<longleftrightarrow> holds p k" "two_accounts p"
  shows "owns b' j k \<longleftrightarrow> (if j = i then holds p' k else owns b j k)"
  using assms
  by (cases p) (auto simp: bank_stmts owns_Some owns_None split: if_splits option.splits call.splits)

lemma step_two_accounts:
  assumes "bankStep i c p b = Next (b', p', ev)" "\<And>k. owns b i k \<longleftrightarrow> holds p k" "two_accounts p"
  shows "two_accounts p'"
proof (cases p)
  case (Tr_recv s r m ov)
  with assms(1) assms(2) [of r] show ?thesis
    by (auto simp: bank_stmts owns_Some split: if_splits option.splits)
qed (use assms(1,3) in \<open>auto simp: bank_stmts split: if_splits option.splits call.splits\<close>)

lemma step_holdsBank:
  assumes "bankStep i c p b = Next (b', p', ev)" "bankLock b = Some i \<longleftrightarrow> holdsBank p"
  shows "bankLock b' = Some i \<longleftrightarrow> holdsBank p'"
  using assms by (cases p) (auto simp: bank_stmts split: if_splits option.splits call.splits)

lemma step_lock_ok: "bankStep i c p b = Next (b', p', ev) \<Longrightarrow> lock_ok i p b \<Longrightarrow> lock_ok i p' b'"
  using step_owns [of i c p b b' p' ev _ i] step_two_accounts [of i c p b b' p' ev] step_holdsBank [of i c p b b' p' ev]
  unfolding lock_ok_def by presburger

text \<open>Only who holds the mutex of an account changes its balance, and no account disappears.\<close>

lemma step_frame:
  assumes "bankStep i c p b = Next (b', p', ev)" "accounts b k = Some a"
  shows "\<exists>a'. accounts b' k = Some a' \<and> (holds p k \<or> balance a' = balance a)"
  using assms by (cases p) (auto simp: bank_stmts split: if_splits option.splits call.splits)

section \<open>The sequential bank\<close>

type_synonym ledger = "int \<rightharpoonup> money"

fun ledgerOp :: "call \<Rightarrow> ledger \<Rightarrow> (ledger \<times> result) option" where
  "ledgerOp (CreateAccount k) l = (if l k = None then Some (l(k \<mapsto> 0), RUnit) else None)"
| "ledgerOp (Deposit k m) l = map_option (\<lambda>v. (l(k \<mapsto> v + m), RUnit)) (l k)"
| "ledgerOp (Withdraw k m) l = map_option (\<lambda>v. if m \<le>s v then (l(k \<mapsto> v - m), RBool True) else (l, RBool False)) (l k)"
| "ledgerOp (Transfer s r m ov) l = (case l s of None \<Rightarrow> None | Some v \<Rightarrow> (case l r of None \<Rightarrow> None | Some w \<Rightarrow>
     if m \<le>s v \<or> ov then (if s = r then Some (l, RBool True) else Some (l(s \<mapsto> v - m, r \<mapsto> w + m), RBool True))
     else Some (l, RBool False)))"
| "ledgerOp (GetBalance k) l = map_option (\<lambda>v. (l, RInt v)) (l k)"
| "ledgerOp (DepositAndCompare k m th) l = map_option (\<lambda>v. (l(k \<mapsto> v + m), RBool (th \<le>s v + m))) (l k)"

text \<open>Replaying a journal: every call must give the result that was recorded.\<close>

fun replay :: "(nat \<times> call \<times> result) list \<Rightarrow> ledger \<Rightarrow> ledger option" where
  "replay [] l = Some l"
| "replay ((i, c, res) # es) l = (case ledgerOp c l of
     Some (l', res') \<Rightarrow> if res' = res then replay es l' else None | None \<Rightarrow> None)"

lemma replay_append: "replay (xs @ ys) l = Option.bind (replay xs l) (replay ys)"
  by (induction xs l rule: replay.induct) (auto split: option.splits)

section \<open>What the goroutines have done\<close>

text \<open>The balances, with the money of transfers between their two writes credited.\<close>

fun pending :: "pc \<Rightarrow> int \<Rightarrow> money" where
  "pending (Tr_add s r m) k = (if k = r then m else 0)"
| "pending _ k = 0"

definition ledgerOf :: "Bank \<Rightarrow> (int \<Rightarrow> money) \<Rightarrow> ledger" where
  "ledgerOf b q = (\<lambda>k. map_option (\<lambda>a. balance a + q k) (accounts b k))"

text \<open>What the local variables of a goroutine say of the account it has locked.\<close>

fun locals_ok :: "pc \<Rightarrow> Bank \<Rightarrow> bool" where
  "locals_ok (Dep_write k m new) b = (map_option balance (accounts b k) = Some (new - m))"
| "locals_ok (Wd_write k m new) b = (\<exists>v. map_option balance (accounts b k) = Some v \<and> m \<le>s v \<and> new = v - m)"
| "locals_ok (Tr_sub s r m ov) b = ((\<exists>v. map_option balance (accounts b s) = Some v \<and> (m \<le>s v \<or> ov)) \<and> accounts b r \<noteq> None)"
| "locals_ok (Tr_test s r m ov) b = (accounts b r \<noteq> None)"
| "locals_ok (Tr_unlock s r m ov) b = (accounts b r \<noteq> None)"
| "locals_ok (Tr_recv s r m ov) b = (accounts b r \<noteq> None)"
| "locals_ok (Tr_send s r m ov) b = (accounts b s \<noteq> None \<and> accounts b r \<noteq> None)"
| "locals_ok (Wd_lock k m) b = (accounts b k \<noteq> None)"
| "locals_ok (Get_lock k) b = (accounts b k \<noteq> None)"
| "locals_ok p b = True"

lemma start_pcs [simp]: "pending (entry c) k = 0" "pending (depositReturn c) k = 0" "pending (balanceReturn c v) k = 0"
    "locals_ok (entry c) b" "locals_ok (depositReturn c) b" "locals_ok (balanceReturn c v) b"
  by (cases c; simp)+

lemma step_locals: "bankStep i c p b = Next (b', p', ev) \<Longrightarrow> locals_ok p b \<Longrightarrow> locals_ok p' b'"
  by (cases p) (auto simp: bank_stmts split: if_splits option.splits call.splits)

text \<open>A step changes the ledger the way the sequential bank does, at the statement where the call takes effect.\<close>

definition effect :: "(call \<times> result) option \<Rightarrow> ledger \<Rightarrow> ledger \<Rightarrow> bool" where
  "effect ev l l' \<longleftrightarrow> (case ev of None \<Rightarrow> l' = l | Some (c, res) \<Rightarrow> ledgerOp c l = Some (l', res))"

lemma ledgerOf_apply: "ledgerOf b q k = map_option (\<lambda>a. balance a + q k) (accounts b k)"
  by (simp add: ledgerOf_def)

lemma step_effect:
  assumes step: "bankStep i c p b = Next (b', p', ev)" and ok: "locals_ok p b" "two_accounts p"
    and q: "\<And>k. holds p k \<or> accounts b k = None \<Longrightarrow> q k = 0"
  shows "effect ev (ledgerOf b (\<lambda>k. q k + pending p k)) (ledgerOf b' (\<lambda>k. q k + pending p' k))"
  using step ok
  by (cases p) (auto simp: bank_stmts effect_def ledgerOf_apply fun_eq_iff q split: if_splits option.splits call.splits)

text \<open>What a goroutine that makes the call \<open>c\<close> and is at \<open>p\<close> has recorded.\<close>

definition depositing :: "call \<Rightarrow> int \<Rightarrow> money \<Rightarrow> bool" where
  "depositing c k m \<longleftrightarrow> c = Deposit k m \<or> (\<exists>th. c = DepositAndCompare k m th)"

definition reading :: "call \<Rightarrow> int \<Rightarrow> (call \<times> result) list \<Rightarrow> bool" where
  "reading c k l \<longleftrightarrow> c = GetBalance k \<and> l = [] \<or> (\<exists>m th. c = DepositAndCompare k m th \<and> l = [(Deposit k m, RUnit)])"

fun returnedAs :: "call \<Rightarrow> result \<Rightarrow> (call \<times> result) list \<Rightarrow> bool" where
  "returnedAs (DepositAndCompare k m th) res l = (\<exists>v. res = RBool (th \<le>s v) \<and> l = [(Deposit k m, RUnit), (GetBalance k, RInt v)])"
| "returnedAs c res l = (l = [(c, res)])"

fun recorded :: "call \<Rightarrow> pc \<Rightarrow> (call \<times> result) list \<Rightarrow> bool" where
  "recorded c Begin l = (l = [])"
| "recorded c (Create_check k) l = (c = CreateAccount k \<and> l = [])"
| "recorded c Create_unlock l = (\<exists>k. c = CreateAccount k \<and> l = [(c, RUnit)])"
| "recorded c (Dep_lock k m) l = (depositing c k m \<and> l = [])"
| "recorded c (Dep_unlock k m) l = (depositing c k m \<and> l = [])"
| "recorded c (Dep_read k m) l = (depositing c k m \<and> l = [])"
| "recorded c (Dep_write k m new) l = (depositing c k m \<and> l = [])"
| "recorded c (Dep_leave k) l = (\<exists>m. depositing c k m \<and> l = [(Deposit k m, RUnit)])"
| "recorded c (Wd_check k m) l = (c = Withdraw k m \<and> l = [])"
| "recorded c (Wd_lock k m) l = (c = Withdraw k m \<and> l = [])"
| "recorded c (Wd_test k m) l = (c = Withdraw k m \<and> l = [])"
| "recorded c (Wd_write k m new) l = (c = Withdraw k m \<and> l = [])"
| "recorded c (Wd_leave k res) l = (\<exists>m. c = Withdraw k m \<and> l = [(c, RBool res)])"
| "recorded c (Tr_check s r m ov) l = (c = Transfer s r m ov \<and> l = [])"
| "recorded c (Tr_send s r m ov) l = (c = Transfer s r m ov \<and> l = [])"
| "recorded c (Tr_recv s r m ov) l = (c = Transfer s r m ov \<and> l = [])"
| "recorded c (Tr_unlock s r m ov) l = (c = Transfer s r m ov \<and> l = [])"
| "recorded c (Tr_test s r m ov) l = (c = Transfer s r m ov \<and> l = [])"
| "recorded c (Tr_sub s r m ov) l = (c = Transfer s r m ov \<and> l = [])"
| "recorded c (Tr_add s r m) l = (\<exists>ov. c = Transfer s r m ov \<and> l = [(c, RBool True)])"
| "recorded c (Tr_leave s r res) l = (\<exists>m ov. c = Transfer s r m ov \<and> l = [(c, RBool res)])"
| "recorded c (Tr_leave2 r res) l = (\<exists>s m ov. c = Transfer s r m ov \<and> l = [(c, RBool res)])"
| "recorded c (Get_find k) l = reading c k l"
| "recorded c (Get_lock k) l = reading c k l"
| "recorded c (Get_read k) l = reading c k l"
| "recorded c (Get_leave k v) l = (\<exists>l'. reading c k l' \<and> l = l' @ [(GetBalance k, RInt v)])"
| "recorded c (Returned res) l = returnedAs c res l"

lemma step_recorded:
  assumes "bankStep i c p b = Next (b', p', ev)" "recorded c p l"
  shows "recorded c p' (l @ (case ev of None \<Rightarrow> [] | Some e \<Rightarrow> [e]))"
  using assms
  by (cases p) (auto simp: bank_stmts depositing_def reading_def split: if_splits option.splits call.splits)

section \<open>The invariant\<close>

definition entriesOf :: "nat \<Rightarrow> (nat \<times> call \<times> result) list \<Rightarrow> (call \<times> result) list" where
  "entriesOf i j = map snd (filter (\<lambda>e. fst e = i) j)"

lemma entriesOf_simps [simp]:
  "entriesOf i [] = []"
  "entriesOf i ((k, e) # j) = (if k = i then e # entriesOf i j else entriesOf i j)"
  "entriesOf i (j @ j') = entriesOf i j @ entriesOf i j'"
  by (auto simp: entriesOf_def)

definition pendings :: "thread list \<Rightarrow> int \<Rightarrow> money" where
  "pendings ts k = (\<Sum>t\<leftarrow>ts. pending (pc t) k)"

definition bank_inv :: "call list \<Rightarrow> bank_sys \<Rightarrow> bool" where
  "bank_inv calls s \<longleftrightarrow> map call (threads s) = calls
   \<and> (\<forall>i. (bankLock (bank s) = Some i \<longrightarrow> i < length calls) \<and> (\<forall>k. owns (bank s) i k \<longrightarrow> i < length calls))
   \<and> (\<forall>i<length calls. lock_ok i (pc (threads s ! i)) (bank s) \<and> locals_ok (pc (threads s ! i)) (bank s)
        \<and> recorded (calls ! i) (pc (threads s ! i)) (entriesOf i (journal s)))
   \<and> (\<forall>e\<in>set (journal s). fst e < length calls)
   \<and> replay (journal s) Map.empty = Some (ledgerOf (bank s) (pendings (threads s)))"

lemma bank_invD:
  assumes "bank_inv calls s" "i < length calls"
  shows "lock_ok i (pc (threads s ! i)) (bank s)" "locals_ok (pc (threads s ! i)) (bank s)"
    "recorded (calls ! i) (pc (threads s ! i)) (entriesOf i (journal s))"
  using assms unfolding bank_inv_def by blast+

lemma bank_inv_threads: "bank_inv calls s \<Longrightarrow> map call (threads s) = calls" "bank_inv calls s \<Longrightarrow> length (threads s) = length calls"
  unfolding bank_inv_def by (blast, metis length_map)

lemma bank_inv_owner:
  "bank_inv calls s \<Longrightarrow> bankLock (bank s) = Some i \<Longrightarrow> i < length calls"
  "bank_inv calls s \<Longrightarrow> owns (bank s) i k \<Longrightarrow> i < length calls"
  unfolding bank_inv_def by blast+

lemma bank_inv_journal:
  assumes "bank_inv calls s"
  shows "\<forall>e\<in>set (journal s). fst e < length calls" "replay (journal s) Map.empty = Some (ledgerOf (bank s) (pendings (threads s)))"
  using assms unfolding bank_inv_def by blast+

lemma lock_ok_owns: "lock_ok i p b \<Longrightarrow> owns b i k \<longleftrightarrow> holds p k"
  unfolding lock_ok_def by blast

lemma bank_inv_init: "bank_inv calls (bankStart calls)"
  by (auto simp: bank_inv_def bankStart_def BankInit_def owns_def lock_ok_def ledgerOf_def comp_def)

lemma pendings_upd:
  assumes "i < length ts"
  shows "pendings (ts[i := t]) k = pendings ts k - pending (pc (ts ! i)) k + pending (pc t) k"
  using assms by (induction ts arbitrary: i) (auto simp: pendings_def split: nat.splits)

lemma pendings_zero: "(\<And>t. t \<in> set ts \<Longrightarrow> pending (pc t) k = 0) \<Longrightarrow> pendings ts k = 0"
  unfolding pendings_def by (simp cong: map_cong)

lemma pending_holds: "pending p k \<noteq> 0 \<Longrightarrow> holds p k"
  by (cases p) (auto split: if_splits)

text \<open>The other goroutines have nothing pending on an account whose mutex a goroutine holds.\<close>

lemma pendings_others:
  assumes inv: "bank_inv calls s" and i: "i < length calls"
    and k: "holds (pc (threads s ! i)) k \<or> accounts (bank s) k = None"
  shows "pendings (threads s) k - pending (pc (threads s ! i)) k = 0"
proof -
  let ?ts = "threads s"
  have len: "length ?ts = length calls" by (rule bank_inv_threads(2) [OF inv])
  have "pending (pc t) k = 0" if t: "t \<in> set (?ts[i := (?ts ! i)\<lparr>pc := Begin\<rparr>])" for t
  proof (rule ccontr)
    assume p: "pending (pc t) k \<noteq> 0"
    from t obtain j where j: "j < length calls" "t = ?ts[i := (?ts ! i)\<lparr>pc := Begin\<rparr>] ! j" by (auto simp: in_set_conv_nth len)
    have ji: "j \<noteq> i" using p j(2) i len by auto
    with p j(2) have "pending (pc (?ts ! j)) k \<noteq> 0" by simp
    then have "holds (pc (?ts ! j)) k" by (rule pending_holds)
    then have "owns (bank s) j k" using lock_ok_owns [OF bank_invD(1) [OF inv j(1)]] by simp
    moreover have "owns (bank s) i k \<longleftrightarrow> holds (pc (?ts ! i)) k" by (rule lock_ok_owns [OF bank_invD(1) [OF inv i]])
    ultimately show False using k ji by (auto simp: owns_def)
  qed
  from pendings_zero [OF this] pendings_upd [of i ?ts "(?ts ! i)\<lparr>pc := Begin\<rparr>" k] i len show ?thesis by simp
qed


text \<open>What another goroutine knows of the accounts it has locked survives a step.\<close>

lemma locals_frame:
  assumes step: "bankStep i c p b = Next (b', p', ev)" and q: "locals_ok q b" "\<And>k. holds q k \<Longrightarrow> \<not> holds p k"
  shows "locals_ok q b'"
proof -
  have bal: "map_option balance (accounts b' k) = Some v" if k: "map_option balance (accounts b k) = Some v" "holds q k" for k v
  proof -
    from k(1) obtain a where "accounts b k = Some a" "balance a = v" by auto
    from this step_frame [OF step this(1)] q(2) [OF k(2)] show ?thesis by auto
  qed
  have there: "accounts b' k \<noteq> None" if "accounts b k \<noteq> None" for k
  proof -
    from that obtain a where "accounts b k = Some a" by auto
    from step_frame [OF step this] show ?thesis by auto
  qed
  show ?thesis
  proof (cases q)
    case (Dep_write k m new)
    with q(1) bal [of k "new - m"] show ?thesis by simp
  next
    case (Wd_write k m new)
    with q(1) obtain v where "map_option balance (accounts b k) = Some v" "m \<le>s v" "new = v - m" by auto
    with bal [OF this(1)] Wd_write show ?thesis by simp
  next
    case (Tr_sub s r m ov)
    with q(1) obtain v where "map_option balance (accounts b s) = Some v" "m \<le>s v \<or> ov" "accounts b r \<noteq> None" by auto
    with bal [OF this(1)] there [OF this(3)] Tr_sub show ?thesis by auto
  next
    case (Tr_send s r m ov)
    with q(1) there [of s] there [of r] show ?thesis by simp
  next
    case (Tr_recv s r m ov)
    with q(1) there [of r] show ?thesis by simp
  next
    case (Tr_unlock s r m ov)
    with q(1) there [of r] show ?thesis by simp
  next
    case (Tr_test s r m ov)
    with q(1) there [of r] show ?thesis by simp
  next
    case (Wd_lock k m)
    with q(1) there [of k] show ?thesis by simp
  next
    case (Get_lock k)
    with q(1) there [of k] show ?thesis by simp
  qed simp_all
qed

lemma bankExec_Next:
  assumes "bankExec s i = Next t"
  obtains b p ev where "i < length (threads s)" "bankStep i (call (threads s ! i)) (pc (threads s ! i)) (bank s) = Next (b, p, ev)"
    "t = s\<lparr>bank := b, threads := (threads s)[i := (threads s ! i)\<lparr>pc := p\<rparr>],
           journal := journal s @ (case ev of None \<Rightarrow> [] | Some e \<Rightarrow> [(i, e)])\<rparr>"
  using assms by (auto simp: bankExec_def split: if_splits outcome.splits)

lemma bank_inv_step:
  assumes inv: "bank_inv calls s" and exec: "bankExec s i = Next t"
  shows "bank_inv calls t"
proof -
  let ?p = "pc (threads s ! i)" and ?q = "\<lambda>k. pendings (threads s) k - pending (pc (threads s ! i)) k"
  from exec obtain b p ev where i: "i < length (threads s)"
    and step: "bankStep i (call (threads s ! i)) ?p (bank s) = Next (b, p, ev)"
    and t: "t = s\<lparr>bank := b, threads := (threads s)[i := (threads s ! i)\<lparr>pc := p\<rparr>],
           journal := journal s @ (case ev of None \<Rightarrow> [] | Some e \<Rightarrow> [(i, e)])\<rparr>" by (rule bankExec_Next)
  have len: "length (threads s) = length calls" by (rule bank_inv_threads(2) [OF inv])
  have ci: "call (threads s ! i) = calls ! i" using bank_inv_threads(1) [OF inv] i by auto
  have at_i: "lock_ok i ?p (bank s)" "locals_ok ?p (bank s)" "recorded (calls ! i) ?p (entriesOf i (journal s))"
    using bank_invD [OF inv, of i] i len by simp_all
  have own: "owns b j k \<longleftrightarrow> (if j = i then holds p k else owns (bank s) j k)" for j k
    using step_owns [OF step] at_i(1) by (simp add: lock_ok_def)
  have bankl: "bankLock b = Some j \<longleftrightarrow> bankLock (bank s) = Some j" if "j \<noteq> i" for j by (rule step_bankLock [OF step at_i(1) that])
  have other: "lock_ok j (pc (threads s ! j)) b \<and> locals_ok (pc (threads s ! j)) b" if j: "j \<noteq> i" "j < length calls" for j
  proof
    have lj: "lock_ok j (pc (threads s ! j)) (bank s)" "locals_ok (pc (threads s ! j)) (bank s)" by (rule bank_invD [OF inv j(2)])+
    then show "lock_ok j (pc (threads s ! j)) b" using j(1) by (simp add: lock_ok_def own bankl)
    have "\<not> holds ?p k" if "holds (pc (threads s ! j)) k" for k
      using that lj(1) at_i(1) j(1) owns_unique unfolding lock_ok_def by metis
    with locals_frame [OF step lj(2)] show "locals_ok (pc (threads s ! j)) b" by blast
  qed
  have eff: "effect ev (ledgerOf (bank s) (pendings (threads s))) (ledgerOf b (pendings (threads t)))"
  proof -
    have zero: "?q k = 0" if "holds ?p k \<or> accounts (bank s) k = None" for k
      by (rule pendings_others [OF inv _ that]) (use i len in simp)
    have two: "two_accounts ?p" using at_i(1) by (simp add: lock_ok_def)
    have "(\<lambda>k. ?q k + pending p k) = pendings (threads t)" by (rule ext) (simp add: t pendings_upd i)
    with step_effect [where q = ?q, OF step at_i(2) two zero] show ?thesis by simp
  qed
  have "replay (journal t) Map.empty = Some (ledgerOf b (pendings (threads t)))"
    using bank_inv_journal(2) [OF inv] eff by (auto simp: t replay_append effect_def split: option.splits)
  moreover have "lock_ok j (pc (threads t ! j)) b \<and> locals_ok (pc (threads t ! j)) b
      \<and> recorded (calls ! j) (pc (threads t ! j)) (entriesOf j (journal t))" if j: "j < length calls" for j
  proof (cases "j = i")
    case True
    then show ?thesis using step_lock_ok [OF step at_i(1)] step_locals [OF step at_i(2)]
        step_recorded [OF step [unfolded ci] at_i(3)] i by (auto simp: t split: option.splits)
  next
    case False
    then show ?thesis using other [OF False j] bank_invD(3) [OF inv j] by (auto simp: t split: option.splits)
  qed
  moreover have "map call (threads t) = calls"
    by (simp add: t map_update ci bank_inv_threads(1) [OF inv])
  moreover have "(bankLock b = Some j \<longrightarrow> j < length calls) \<and> (\<forall>k. owns b j k \<longrightarrow> j < length calls)" for j
  proof (cases "j = i")
    case False
    then show ?thesis using bankl [OF False] own [of j] bank_inv_owner [OF inv, of j] by auto
  qed (use i len in simp)
  moreover have "\<forall>e\<in>set (journal t). fst e < length calls" using bank_inv_journal(1) [OF inv] i len by (auto simp: t split: option.splits)
  ultimately show ?thesis unfolding bank_inv_def by (simp add: t)
qed

lemma bank_inv_reach: "bankReach calls s \<Longrightarrow> bank_inv calls s"
  by (induction rule: reachable_invariant) (auto intro: bank_inv_init bank_inv_step)

end
