(* ===== verification/Bank_Safety.thy ===== *)
theory Bank_Safety
  imports Bank
begin

text \<open>
  What the bank guarantees to goroutines that use it at once: the calls have the effect of some
  sequential order, every call returns unless an account transfers to itself, no money is lost,
  and exactly which calls panic; and two ways in which it falls short.
\<close>

section \<open>Every call returns\<close>

text \<open>The account whose mutex a goroutine is about to lock.\<close>

fun wants :: "pc \<Rightarrow> int option" where
  "wants (Dep_lock k m) = Some k"
| "wants (Wd_lock k m) = Some k"
| "wants (Tr_send s r m ov) = Some s"
| "wants (Tr_recv s r m ov) = Some r"
| "wants (Get_lock k) = Some k"
| "wants _ = None"

text \<open>A goroutine that cannot run has returned, or waits for a mutex that is locked.\<close>

lemma blocked:
  assumes "bankStep i c p b = Disabled"
  shows "(\<exists>res. p = Returned res) \<or> (p = Begin \<and> bankLock b \<noteq> None) \<or> (\<exists>k j. wants p = Some k \<and> owns b j k)"
  using assms by (cases p) (auto simp: bank_stmts owns_def split: if_splits option.splits call.splits)

lemma bank_inv_call:
  assumes "bank_inv calls s" "i < length calls"
  shows "call (threads s ! i) = calls ! i"
  using bank_inv_threads [OF assms(1)] assms(2) by (metis nth_map)

lemma bankExec_Disabled:
  assumes "bank_inv calls s" "i < length calls"
  shows "bankExec s i = Disabled \<longleftrightarrow> bankStep i (calls ! i) (pc (threads s ! i)) (bank s) = Disabled"
  by (simp add: bankExec_def bank_inv_call [OF assms] bank_inv_threads(2) [OF assms(1)] assms(2) split: outcome.splits prod.splits)

lemma holds_wants:
  assumes "holds p k" "wants p = Some k'"
  shows "\<exists>m ov. p = Tr_recv k k' m ov"
  using assms by (cases p) auto

definition no_self_transfer :: "call list \<Rightarrow> bool" where
  "no_self_transfer calls \<longleftrightarrow> list_all (\<lambda>c. case c of Transfer s r m ov \<Rightarrow> s \<noteq> r | _ \<Rightarrow> True) calls"

text \<open>The owner of an account runs, or it is a transfer that waits for its receiver, whose owner then runs.\<close>

lemma owner_runs:
  assumes inv: "bank_inv calls s" and "no_self_transfer calls" and own: "owns (bank s) j k"
  shows "\<exists>i. bankExec s i \<noteq> Disabled"
proof (rule ccontr)
  assume stuck: "\<not> ?thesis"
  have who: "i < length calls" "holds (pc (threads s ! i)) k'" if "owns (bank s) i k'" for i k'
    using that bank_inv_owner(2) [OF inv that] lock_ok_owns [OF bank_invD(1) [OF inv]] by blast+
  have waits: "\<exists>r m ov i'. pc (threads s ! i) = Tr_recv k' r m ov \<and> owns (bank s) i' r" if o: "owns (bank s) i k'" for i k'
  proof -
    have "bankStep i (calls ! i) (pc (threads s ! i)) (bank s) = Disabled"
      using stuck bankExec_Disabled [OF inv who(1) [OF o]] by simp
    from blocked [OF this] who(2) [OF o] obtain r i' where r: "wants (pc (threads s ! i)) = Some r" "owns (bank s) i' r" by auto
    from holds_wants [OF who(2) [OF o] r(1)] r(2) show ?thesis by blast
  qed
  from waits [OF own] obtain r m ov i where 1: "pc (threads s ! j) = Tr_recv k r m ov" "owns (bank s) i r" by blast
  from waits [OF 1(2)] obtain r' m' ov' where 2: "pc (threads s ! i) = Tr_recv r r' m' ov'" by blast
  have "bankLock (bank s) = Some j" "bankLock (bank s) = Some i"
    using 1(1) 2 bank_invD(1) [OF inv who(1) [OF own]] bank_invD(1) [OF inv who(1) [OF 1(2)]] by (simp_all add: lock_ok_def)
  then have "calls ! j = Transfer k k m ov" using 1(1) 2 bank_invD(3) [OF inv who(1) [OF own]] by simp
  then show False using assms(2) who(1) [OF own] by (force simp: no_self_transfer_def list_all_length)
qed

lemma some_runs:
  assumes inv: "bank_inv calls s" and self: "no_self_transfer calls"
    and j: "j < length calls" "\<nexists>res. pc (threads s ! j) = Returned res"
  shows "\<exists>i. bankExec s i \<noteq> Disabled"
proof (rule ccontr)
  assume stuck: "\<not> ?thesis"
  have dis: "bankStep i (calls ! i) (pc (threads s ! i)) (bank s) = Disabled" if "i < length calls" for i
    using stuck bankExec_Disabled [OF inv that] by simp
  have "\<not> owns (bank s) i k" for i k using owner_runs [OF inv self] stuck by blast
  then have blk: "(\<exists>res. pc (threads s ! i) = Returned res) \<or> (pc (threads s ! i) = Begin \<and> bankLock (bank s) \<noteq> None)"
    if "i < length calls" for i using blocked [OF dis [OF that]] by blast
  from blk [OF j(1)] j(2) obtain h where h: "bankLock (bank s) = Some h" by blast
  have hl: "h < length calls" by (rule bank_inv_owner(1) [OF inv h])
  have "holdsBank (pc (threads s ! h))" using bank_invD(1) [OF inv hl] h by (simp add: lock_ok_def)
  with blk [OF hl] show False by auto
qed

text \<open>How many statements a goroutine has left at most.\<close>

fun stepsLeft :: "pc \<Rightarrow> nat" where
  "stepsLeft (Returned res) = 0"
| "stepsLeft (Get_leave k v) = 1"
| "stepsLeft (Get_read k) = 2"
| "stepsLeft (Get_lock k) = 3"
| "stepsLeft (Get_find k) = 4"
| "stepsLeft (Dep_leave k) = 5"
| "stepsLeft (Dep_write k m new) = 6"
| "stepsLeft (Dep_read k m) = 7"
| "stepsLeft (Dep_unlock k m) = 8"
| "stepsLeft (Dep_lock k m) = 9"
| "stepsLeft Create_unlock = 1"
| "stepsLeft (Create_check k) = 2"
| "stepsLeft (Wd_leave k res) = 1"
| "stepsLeft (Wd_write k m new) = 2"
| "stepsLeft (Wd_test k m) = 3"
| "stepsLeft (Wd_lock k m) = 4"
| "stepsLeft (Wd_check k m) = 5"
| "stepsLeft (Tr_leave2 r res) = 1"
| "stepsLeft (Tr_leave s r res) = 2"
| "stepsLeft (Tr_add s r m) = 3"
| "stepsLeft (Tr_sub s r m ov) = 4"
| "stepsLeft (Tr_test s r m ov) = 5"
| "stepsLeft (Tr_unlock s r m ov) = 6"
| "stepsLeft (Tr_recv s r m ov) = 7"
| "stepsLeft (Tr_send s r m ov) = 8"
| "stepsLeft (Tr_check s r m ov) = 9"
| "stepsLeft Begin = 10"

lemma pc_steps [simp]: "stepsLeft (entry c) < 10" "stepsLeft (depositReturn c) < 5" "stepsLeft (balanceReturn c v) = 0"
  by (cases c; simp)+

lemma step_less: "bankStep i c p b = Next (b', p', ev) \<Longrightarrow> stepsLeft p' < stepsLeft p"
  by (cases p) (auto simp: bank_stmts split: if_splits option.splits call.splits)

definition bankWork :: "bank_sys \<Rightarrow> nat" where
  "bankWork s = (\<Sum>t\<leftarrow>threads s. stepsLeft (pc t))"

lemma sum_list_upd_less:
  fixes f :: "'a \<Rightarrow> nat"
  shows "i < length xs \<Longrightarrow> f y < f (xs ! i) \<Longrightarrow> sum_list (map f (xs[i := y])) < sum_list (map f xs)"
  by (induction xs arbitrary: i) (auto split: nat.splits)

lemma bankExec_less: "bankExec s i = Next t \<Longrightarrow> bankWork t < bankWork s"
  by (erule bankExec_Next) (simp add: bankWork_def sum_list_upd_less step_less)


section \<open>No money is lost\<close>

definition holdings :: "ledger \<Rightarrow> int" where
  "holdings l = (\<Sum>k\<in>dom l. sint (the (l k)))"

definition sound :: "ledger \<Rightarrow> int \<Rightarrow> bool" where
  "sound l d \<longleftrightarrow> finite (dom l) \<and> (\<forall>k v. l k = Some v \<longrightarrow> 0 \<le> sint v) \<and> holdings l = d"

fun deposited :: "call \<times> result \<Rightarrow> int" where
  "deposited (Deposit k m, res) = sint m"
| "deposited _ = 0"

fun withdrawn :: "call \<times> result \<Rightarrow> int" where
  "withdrawn (Withdraw k m, RBool True) = sint m"
| "withdrawn _ = 0"

text \<open>Amounts are not negative and no transfer may overdraw.\<close>

fun okCall :: "call \<Rightarrow> bool" where
  "okCall (Deposit k m) = (0 \<le> sint m)"
| "okCall (Withdraw k m) = (0 \<le> sint m)"
| "okCall (Transfer s r m ov) = (0 \<le> sint m \<and> \<not> ov)"
| "okCall (DepositAndCompare k m th) = (0 \<le> sint m)"
| "okCall _ = True"

lemma sint_add: "- (2 ^ 63) \<le> sint v + sint m \<Longrightarrow> sint v + sint m < 2 ^ 63 \<Longrightarrow> sint (v + m) = sint v + sint m" for v m :: money
  by (simp add: sint_word_ariths signed_take_bit_int_eq_self)

lemma sint_sub: "- (2 ^ 63) \<le> sint v - sint m \<Longrightarrow> sint v - sint m < 2 ^ 63 \<Longrightarrow> sint (v - m) = sint v - sint m" for v m :: money
  by (simp add: sint_word_ariths signed_take_bit_int_eq_self)

lemma sint_bounds: "- (2 ^ 63) \<le> sint v" "sint v < 2 ^ 63" for v :: money
  using sint_ge [of v] sint_lt [of v] by simp_all

lemma holdings_upd: "finite (dom l) \<Longrightarrow> holdings (l(k \<mapsto> v)) = holdings l - (case l k of None \<Rightarrow> 0 | Some w \<Rightarrow> sint w) + sint v"
proof -
  assume f: "finite (dom l)"
  have "holdings (l(k \<mapsto> v)) = sint v + (\<Sum>x\<in>dom l - {k}. sint (the (l x)))"
    using f by (simp add: holdings_def sum.insert_remove)
  moreover have "(\<Sum>x\<in>dom l - {k}. sint (the (l x))) = holdings l - (case l k of None \<Rightarrow> 0 | Some w \<Rightarrow> sint w)"
    using f by (auto simp: holdings_def sum_diff1 split: option.splits)
  ultimately show ?thesis by linarith
qed

lemma sound_upd:
  assumes "sound l d" "0 \<le> sint v"
  shows "sound (l(k \<mapsto> v)) (d - (case l k of None \<Rightarrow> 0 | Some w \<Rightarrow> sint w) + sint v)"
  using assms by (auto simp: sound_def holdings_upd split: option.splits)

lemma sound_le: "sound l d \<Longrightarrow> l k = Some v \<Longrightarrow> 0 \<le> sint v \<and> sint v \<le> d"
proof -
  assume l: "sound l d" "l k = Some v"
  then have "sint (the (l k)) \<le> holdings l" unfolding holdings_def by (intro member_le_sum) (auto simp: sound_def)
  with l show ?thesis by (auto simp: sound_def)
qed

lemma sound_op:
  assumes l: "sound l d" and c: "okCall c" "\<nexists>k m th. c = DepositAndCompare k m th"
    and op: "ledgerOp c l = Some (l', res)" and d: "d + deposited (c, res) < 2 ^ 63"
  shows "sound l' (d + deposited (c, res) - withdrawn (c, res))"
proof (cases c)
  case (CreateAccount k)
  with op sound_upd [OF l, of 0 k] show ?thesis by (auto split: if_splits)
next
  case (Deposit k m)
  with op obtain v where v: "l k = Some v" "l' = l(k \<mapsto> v + m)" by auto
  from sound_le [OF l v(1)] c(1) d Deposit have "sint (v + m) = sint v + sint m" by (intro sint_add) auto
  with sound_upd [OF l, of "v + m" k] sound_le [OF l v(1)] c(1) v Deposit show ?thesis by (simp add: algebra_simps)
next
  case (Withdraw k m)
  with op obtain v where v: "l k = Some v" by auto
  from sound_le [OF l v] c(1) d Withdraw have bnd: "0 \<le> sint v" "0 \<le> sint m" by auto
  show ?thesis
  proof (cases "m \<le>s v")
    case True
    then have "sint (v - m) = sint v - sint m" using bnd sint_bounds(2) [of v] by (intro sint_sub) (auto simp: word_sle_eq)
    with sound_upd [OF l, of "v - m" k] True op v Withdraw show ?thesis by (auto simp: word_sle_eq)
  next
    case False
    with op v l Withdraw show ?thesis by auto
  qed
next
  case (Transfer s r m ov)
  with op obtain v w where v: "l s = Some v" "l r = Some w" by (auto split: option.splits)
  show ?thesis
  proof (cases "m \<le>s v \<and> s \<noteq> r")
    case True
    with op v Transfer c(1) have l': "l' = l(s \<mapsto> v - m, r \<mapsto> w + m)" and m: "0 \<le> sint m" "sint m \<le> sint v"
      by (auto simp: word_sle_eq)
    have sub: "sint (v - m) = sint v - sint m" using m sint_bounds(2) [of v] by (intro sint_sub) auto
    let ?l = "l(s \<mapsto> v - m)"
    have 1: "sound ?l (d - sint m)" using sound_upd [OF l, of "v - m" s] m sub v(1) by simp
    have r: "?l r = Some w" using True v(2) by simp
    from sound_le [OF 1 r] d Transfer m(1) have "sint (w + m) = sint w + sint m" by (intro sint_add) auto
    with sound_upd [OF 1, of "w + m" r] sound_le [OF 1 r] m(1) r l' Transfer show ?thesis by simp
  next
    case False
    with op v l c(1) Transfer show ?thesis by (auto split: if_splits)
  qed
next
  case (GetBalance k)
  with op l show ?thesis by auto
qed (use c in auto)


definition deposits :: "(nat \<times> call \<times> result) list \<Rightarrow> int" where
  "deposits j = (\<Sum>e\<leftarrow>j. deposited (snd e))"

definition withdrawals :: "(nat \<times> call \<times> result) list \<Rightarrow> int" where
  "withdrawals j = (\<Sum>e\<leftarrow>j. withdrawn (snd e))"

fun okEntry :: "call \<Rightarrow> bool" where
  "okEntry (DepositAndCompare k m th) = False"
| "okEntry c = okCall c"

lemma okEntryD: "okEntry c \<Longrightarrow> okCall c" "okEntry c \<Longrightarrow> \<nexists>k m th. c = DepositAndCompare k m th"
  by (cases c; simp)+

lemma entry_nonneg: "okEntry c \<Longrightarrow> 0 \<le> deposited (c, res)" "okEntry c \<Longrightarrow> 0 \<le> withdrawn (c, res)"
  by (cases c; simp) (cases "(c, res)" rule: withdrawn.cases; auto)

lemma withdrawals_nonneg: "\<forall>e\<in>set j. okEntry (fst (snd e)) \<Longrightarrow> 0 \<le> withdrawals j"
  unfolding withdrawals_def by (rule sum_list_nonneg) (use entry_nonneg(2) in fastforce)

lemma replay_sound:
  assumes "replay j Map.empty = Some l" "\<forall>e\<in>set j. okEntry (fst (snd e))" "deposits j < 2 ^ 63"
  shows "sound l (deposits j - withdrawals j)"
  using assms
proof (induction j arbitrary: l rule: rev_induct)
  case Nil
  then show ?case by (auto simp: sound_def holdings_def deposits_def withdrawals_def)
next
  case (snoc e j)
  obtain i c res where e: "e = (i, c, res)" by (cases e)
  from snoc.prems(1) e obtain l0 where l0: "replay j Map.empty = Some l0" and op: "ledgerOp c l0 = Some (l, res)"
    by (auto simp: replay_append split: Option.bind_splits option.splits if_splits)
  have ok: "\<forall>e\<in>set j. okEntry (fst (snd e))" "okEntry c" using snoc.prems(2) e by auto
  have d: "deposits (j @ [e]) = deposits j + deposited (c, res)" "withdrawals (j @ [e]) = withdrawals j + withdrawn (c, res)"
    by (simp_all add: deposits_def withdrawals_def e)
  have "deposits j < 2 ^ 63" using snoc.prems(3) entry_nonneg(1) [OF ok(2), of res] d(1) by linarith
  from snoc.IH [OF l0 ok(1) this] have "sound l0 (deposits j - withdrawals j)" .
  from sound_op [OF this okEntryD [OF ok(2)] op] snoc.prems(3) withdrawals_nonneg [OF ok(1)] d show ?case
    by (simp add: algebra_simps)
qed

text \<open>What the goroutines have recorded is bounded by what they were asked.\<close>

fun depositOf :: "call \<Rightarrow> int" where
  "depositOf (Deposit k m) = sint m"
| "depositOf (DepositAndCompare k m th) = sint m"
| "depositOf _ = 0"

lemma recorded_ok:
  assumes "recorded c p l" "okCall c"
  shows "(\<forall>e\<in>set l. okEntry (fst e)) \<and> (\<Sum>e\<leftarrow>l. deposited e) \<le> depositOf c"
proof (cases p)
  case (Returned res)
  with assms show ?thesis by (cases c) auto
next
  case Begin
  with assms show ?thesis by (cases c) auto
qed (use assms in \<open>auto simp: depositing_def reading_def\<close>)

lemma sum_journal:
  fixes f :: "call \<times> result \<Rightarrow> int"
  shows "\<forall>e\<in>set j. fst e < n \<Longrightarrow> (\<Sum>e\<leftarrow>j. f (snd e)) = (\<Sum>i<n. \<Sum>e\<leftarrow>entriesOf i j. f e)"
proof (induction j)
  case (Cons e j)
  obtain k x where e: "e = (k, x)" by (cases e)
  have "(\<Sum>i<n. \<Sum>e\<leftarrow>entriesOf i (e # j). f e) = (\<Sum>i<n. (if k = i then f x else 0) + (\<Sum>e\<leftarrow>entriesOf i j. f e))"
    by (rule sum.cong) (auto simp: e)
  also have "\<dots> = f x + (\<Sum>i<n. \<Sum>e\<leftarrow>entriesOf i j. f e)" using Cons.prems by (simp add: sum.distrib e)
  finally show ?case using Cons by (simp add: e)
qed simp

definition amounts_ok :: "call list \<Rightarrow> bool" where
  "amounts_ok calls \<longleftrightarrow> list_all okCall calls \<and> (\<Sum>c\<leftarrow>calls. depositOf c) < 2 ^ 63"

lemma journal_ok:
  assumes inv: "bank_inv calls s" and ok: "amounts_ok calls"
  shows "\<forall>e\<in>set (journal s). okEntry (fst (snd e))" and "deposits (journal s) \<le> (\<Sum>c\<leftarrow>calls. depositOf c)"
proof -
  have rec: "(\<forall>e\<in>set (entriesOf i (journal s)). okEntry (fst e)) \<and> (\<Sum>e\<leftarrow>entriesOf i (journal s). deposited e) \<le> depositOf (calls ! i)"
    if "i < length calls" for i
    by (rule recorded_ok [OF bank_invD(3) [OF inv that]]) (use ok that in \<open>simp add: amounts_ok_def list_all_length\<close>)
  show "\<forall>e\<in>set (journal s). okEntry (fst (snd e))"
  proof
    fix e assume e: "e \<in> set (journal s)"
    then have "snd e \<in> set (entriesOf (fst e) (journal s))" by (force simp: entriesOf_def)
    with rec [of "fst e"] bank_inv_journal(1) [OF inv] e show "okEntry (fst (snd e))" by blast
  qed
  have "deposits (journal s) = (\<Sum>i<length calls. \<Sum>e\<leftarrow>entriesOf i (journal s). deposited e)"
    unfolding deposits_def by (rule sum_journal [OF bank_inv_journal(1) [OF inv]])
  also have "\<dots> \<le> (\<Sum>i<length calls. depositOf (calls ! i))" by (rule sum_mono) (use rec in auto)
  also have "\<dots> = (\<Sum>c\<leftarrow>calls. depositOf c)" by (simp add: sum_list_sum_nth atLeast0LessThan)
  finally show "deposits (journal s) \<le> (\<Sum>c\<leftarrow>calls. depositOf c)" .
qed

section \<open>Guarantees\<close>

definition balances :: "Bank \<Rightarrow> ledger" where
  "balances b = (\<lambda>k. map_option balance (accounts b k))"

definition midTransfer :: "pc \<Rightarrow> bool" where
  "midTransfer p \<longleftrightarrow> (case p of Tr_add s r m \<Rightarrow> True | _ \<Rightarrow> False)"

lemma pending_mid: "\<not> midTransfer p \<Longrightarrow> pending p k = 0"
  by (cases p) (auto simp: midTransfer_def)

lemma ledgerOf_settled:
  assumes "list_all (\<lambda>t. \<not> midTransfer (pc t)) (threads s)"
  shows "ledgerOf (bank s) (pendings (threads s)) = balances (bank s)"
proof -
  have "pendings (threads s) k = 0" for k
    by (rule pendings_zero) (use assms in \<open>simp add: list_all_iff pending_mid\<close>)
  then show ?thesis by (simp add: ledgerOf_def balances_def)
qed

lemma bankRun_reach: "bankRun s is = Some t \<Longrightarrow> bankReach calls s \<Longrightarrow> bankReach calls t"
proof (induction "is" arbitrary: s)
  case (Cons i "is")
  from Cons.prems(1) obtain u where u: "bankExec s i = Next u" "bankRun u is = Some t" by (auto split: outcome.splits)
  from Cons.IH [OF u(2) reachable_step [OF Cons.prems(2) u(1)]] show ?case .
qed simp

lemma bankRun_start: "bankRun (bankStart calls) is = Some t \<Longrightarrow> bankReach calls t"
  by (erule bankRun_reach) (rule reachable_init, rule refl)

definition holdsAfter :: "call list \<Rightarrow> nat list \<Rightarrow> (bank_sys \<Rightarrow> bool) \<Rightarrow> bool" where
  "holdsAfter calls is P = (case bankRun (bankStart calls) is of None \<Rightarrow> False | Some s \<Rightarrow> P s)"

lemma holdsAfterD: "holdsAfter calls is P \<Longrightarrow> \<exists>s. bankReach calls s \<and> P s"
  by (auto simp: holdsAfter_def intro: bankRun_start split: option.splits)

definition stuck :: "bank_sys \<Rightarrow> nat \<Rightarrow> bool" where
  "stuck s i \<longleftrightarrow> bankExec s i = Disabled"

lemma stuck_code [code]: "stuck s i = (case bankExec s i of Disabled \<Rightarrow> True | _ \<Rightarrow> False)"
  by (auto simp: stuck_def split: outcome.splits)

lemma bankExec_Panicked:
  assumes "bank_inv calls s" "i < length calls"
  shows "bankExec s i = Panicked e \<longleftrightarrow> bankStep i (calls ! i) (pc (threads s ! i)) (bank s) = Panicked e"
  by (simp add: bankExec_def bank_inv_call [OF assms] bank_inv_threads(2) [OF assms(1)] assms(2) split: outcome.splits prod.splits)

lemma holds_there: "lock_ok i p b \<Longrightarrow> holds p k \<Longrightarrow> \<exists>a. accounts b k = Some a \<and> acctLock a = Some i"
  using lock_ok_owns [of i p b k] by (simp add: owns_def)

lemma step_panics:
  assumes "lock_ok i p b" "locals_ok p b"
  shows "bankStep i c p b = Panicked e \<longleftrightarrow>
     (case p of
        Create_check k \<Rightarrow> accounts b k \<noteq> None \<and> e = Panic ''Account already exists''
      | Wd_check k m \<Rightarrow> accounts b k = None \<and> e = Panic ''Account does not exist''
      | Tr_check x y m ov \<Rightarrow> accounts b x = None \<and> e = Panic ''Sender account does not exist''
          \<or> accounts b x \<noteq> None \<and> accounts b y = None \<and> e = Panic ''Receiver account does not exist''
      | Dep_lock k m \<Rightarrow> accounts b k = None \<and> e = NilDereference
      | Get_find k \<Rightarrow> accounts b k = None \<and> e = NilDereference
      | _ \<Rightarrow> False)"
proof -
  have "holdsBank p \<longleftrightarrow> bankLock b = Some i" using assms(1) by (simp add: lock_ok_def)
  then show ?thesis using assms(2) holds_there [OF assms(1)]
    by (cases p) (auto simp: bank_stmts split: option.splits call.splits if_splits; metis option.distinct(1) option.inject)+
qed

text \<open>Two accounts, a deposit, a transfer and a withdrawal, interleaved.\<close>

definition demoCalls :: "call list" where
  "demoCalls = [CreateAccount 0, CreateAccount 1, Deposit 0 10, Transfer 0 1 4 False, Withdraw 0 7]"

definition demoBank :: bank_sys where
  "demoBank = the (bankRun (bankStart demoCalls)
     ([0, 0, 0, 1, 1, 1] @ [2, 2, 2, 2] @ [3, 2, 2, 3, 3, 3, 3] @ replicate 5 3 @ replicate 5 4))"

lemma demoBank_reach: "bankReach demoCalls demoBank"
proof (rule bankRun_start [of _ "[0, 0, 0, 1, 1, 1] @ [2, 2, 2, 2] @ [3, 2, 2, 3, 3, 3, 3] @ replicate 5 3 @ replicate 5 4"])
  have "\<not> Option.is_none (bankRun (bankStart demoCalls)
     ([0, 0, 0, 1, 1, 1] @ [2, 2, 2, 2] @ [3, 2, 2, 3, 3, 3, 3] @ replicate 5 3 @ replicate 5 4))" by code_simp
  then show "bankRun (bankStart demoCalls)
     ([0, 0, 0, 1, 1, 1] @ [2, 2, 2, 2] @ [3, 2, 2, 3, 3, 3, 3] @ replicate 5 3 @ replicate 5 4) = Some demoBank"
    by (simp add: demoBank_def Option.is_none_def)
qed

text \<open>C26: The bank is serializable. Whatever calls run at once and however their statements interleave, the calls
  took effect one after the other: replaying the journal on the sequential bank gives every
  recorded result and, when no transfer is between its two writes, the balances. Every call
  that has returned is in the journal exactly once, with the result it returned; \<open>DepositAndCompare\<close> is there as a
  deposit and a later reading of the balance.\<close>

theorem bank_serializable:
  assumes "bankReach calls s"
  shows "\<exists>l. replay (journal s) Map.empty = Some l
    \<and> (list_all (\<lambda>t. \<not> midTransfer (pc t)) (threads s) \<longrightarrow> balances (bank s) = l)
    \<and> (\<forall>i<length calls. \<forall>res. pc (threads s ! i) = Returned res \<longrightarrow> returnedAs (calls ! i) res (entriesOf i (journal s)))"
proof -
  from bank_inv_reach [OF assms] have inv: "bank_inv calls s" .
  have "returnedAs (calls ! i) res (entriesOf i (journal s))" if "i < length calls" "pc (threads s ! i) = Returned res" for i res
    using bank_invD(3) [OF inv that(1)] that(2) by simp
  with bank_inv_journal(2) [OF inv] ledgerOf_settled [of s] show ?thesis by simp
qed

theorem bank_serializable_witness:
  "map snd (journal demoBank) = [(CreateAccount 0, RUnit), (CreateAccount 1, RUnit), (Deposit 0 10, RUnit),
     (Transfer 0 1 4 False, RBool True), (Withdraw 0 7, RBool False)]
   \<and> replay (journal demoBank) Map.empty = Some (balances (bank demoBank))"
proof
  show "map snd (journal demoBank) = [(CreateAccount 0, RUnit), (CreateAccount 1, RUnit), (Deposit 0 10, RUnit),
     (Transfer 0 1 4 False, RBool True), (Withdraw 0 7, RBool False)]"
    unfolding demoBank_def by code_simp
  have "list_all (\<lambda>t. \<not> midTransfer (pc t)) (threads demoBank)" unfolding demoBank_def by code_simp
  with bank_serializable [OF demoBank_reach] show "replay (journal demoBank) Map.empty = Some (balances (bank demoBank))" by blast
qed

text \<open>C27: Every call returns. When no account transfers to itself, some goroutine can run as long as one has not
  returned: the order in which the mutexes are taken excludes a deadlock. Every step brings some goroutine nearer to its end, so a run
  of the bank ends, with every call returned or a panic.\<close>

theorem bank_calls_return:
  assumes "bankReach calls s" "no_self_transfer calls"
  shows "(list_all (\<lambda>t. \<exists>res. pc t = Returned res) (threads s) \<or> (\<exists>i. bankExec s i \<noteq> Disabled))
    \<and> (\<forall>i t. bankExec s i = Next t \<longrightarrow> bankWork t < bankWork s)"
proof -
  from bank_inv_reach [OF assms(1)] have inv: "bank_inv calls s" .
  have "\<exists>i. bankExec s i \<noteq> Disabled" if "\<not> list_all (\<lambda>t. \<exists>res. pc t = Returned res) (threads s)"
  proof -
    from that obtain j where "j < length calls" "\<nexists>res. pc (threads s ! j) = Returned res"
      using bank_inv_threads(2) [OF inv] by (auto simp: list_all_length)
    then show ?thesis by (rule some_runs [OF inv assms(2)])
  qed
  with bankExec_less show ?thesis by blast
qed

theorem bank_calls_return_witness:
  "bankWork (bankStart demoCalls) = 50 \<and> (\<exists>i. bankExec (bankStart demoCalls) i \<noteq> Disabled)"
proof
  show "bankWork (bankStart demoCalls) = 50" by code_simp
  have "no_self_transfer demoCalls" by code_simp
  moreover have "bankReach demoCalls (bankStart demoCalls)" by (rule reachable_init) (rule refl)
  moreover have "\<not> list_all (\<lambda>t. \<exists>res. pc t = Returned res) (threads (bankStart demoCalls))"
    by (simp add: bankStart_def demoCalls_def)
  ultimately show "\<exists>i. bankExec (bankStart demoCalls) i \<noteq> Disabled"
    using bank_calls_return [of demoCalls "bankStart demoCalls"] by blast
qed

text \<open>C28: No money is lost or made, and no account is overdrawn. When amounts are not negative, transfers may not overdraw, and all
  deposits together are below \<open>2^63\<close>, every balance is between 0 and that bound, and the balances
  add up to the deposits less the successful withdrawals: no addition or subtraction of the bank wraps around.\<close>

theorem bank_money_conserved:
  assumes "bankReach calls s" "amounts_ok calls" "list_all (\<lambda>t. \<not> midTransfer (pc t)) (threads s)"
  shows "(\<forall>k v. balances (bank s) k = Some v \<longrightarrow> 0 \<le> sint v \<and> sint v \<le> deposits (journal s) - withdrawals (journal s))
    \<and> holdings (balances (bank s)) = deposits (journal s) - withdrawals (journal s)
    \<and> deposits (journal s) \<le> (\<Sum>c\<leftarrow>calls. depositOf c)"
proof -
  from bank_inv_reach [OF assms(1)] have inv: "bank_inv calls s" .
  note j = journal_ok [OF inv assms(2)]
  have "deposits (journal s) < 2 ^ 63" using j(2) assms(2) by (simp add: amounts_ok_def)
  from replay_sound [OF bank_inv_journal(2) [OF inv] j(1) this]
  have snd: "sound (balances (bank s)) (deposits (journal s) - withdrawals (journal s))"
    by (simp add: ledgerOf_settled [OF assms(3)])
  with sound_le [OF snd] j(2) show ?thesis by (auto simp: sound_def)
qed

theorem bank_money_conserved_witness:
  "balances (bank demoBank) 0 = Some 6 \<and> balances (bank demoBank) 1 = Some 4 \<and> holdings (balances (bank demoBank)) = 10"
proof (intro conjI)
  show "balances (bank demoBank) 0 = Some 6" unfolding demoBank_def by code_simp
  show "balances (bank demoBank) 1 = Some 4" unfolding demoBank_def by code_simp
  have "amounts_ok demoCalls" by code_simp
  moreover have "list_all (\<lambda>t. \<not> midTransfer (pc t)) (threads demoBank)" unfolding demoBank_def by code_simp
  moreover have "deposits (journal demoBank) - withdrawals (journal demoBank) = 10" unfolding demoBank_def by code_simp
  ultimately show "holdings (balances (bank demoBank)) = 10" using bank_money_conserved [OF demoBank_reach] by simp
qed

text \<open>C29: Exactly which calls panic: creating an account that exists, withdrawing from or transferring between accounts of which one does not exist, with
  the messages of the code, and depositing to or reading an account that does not exist, with a nil dereference,
  because \<open>Deposit\<close> locks the account before it compares it with nil. No mutex is unlocked that is not locked.\<close>

theorem bank_panics:
  assumes "bankReach calls s" "i < length calls"
  shows "bankExec s i = Panicked e \<longleftrightarrow>
     (case pc (threads s ! i) of
        Create_check k \<Rightarrow> accounts (bank s) k \<noteq> None \<and> e = Panic ''Account already exists''
      | Wd_check k m \<Rightarrow> accounts (bank s) k = None \<and> e = Panic ''Account does not exist''
      | Tr_check a b m ov \<Rightarrow> accounts (bank s) a = None \<and> e = Panic ''Sender account does not exist''
          \<or> accounts (bank s) a \<noteq> None \<and> accounts (bank s) b = None \<and> e = Panic ''Receiver account does not exist''
      | Dep_lock k m \<Rightarrow> accounts (bank s) k = None \<and> e = NilDereference
      | Get_find k \<Rightarrow> accounts (bank s) k = None \<and> e = NilDereference
      | _ \<Rightarrow> False)"
  using step_panics [OF bank_invD(1,2) [OF bank_inv_reach [OF assms(1)] assms(2)]]
    bankExec_Panicked [OF bank_inv_reach [OF assms(1)] assms(2)] by simp

theorem bank_panics_witness:
  "bankExec (the (bankRun (bankStart [Deposit 7 1]) [0])) 0 = Panicked NilDereference"
proof -
  let ?s = "the (bankRun (bankStart [Deposit 7 1]) [0])"
  have "bankReach [Deposit 7 1] ?s"
    by (rule bankRun_start [of _ "[0]"]) (simp add: bankStart_def BankInit_def bankExec_def lockBank_def)
  moreover have "pc (threads ?s ! 0) = Dep_lock 7 1" by code_simp
  moreover have "accounts (bank ?s) 7 = None" by (simp add: bankStart_def BankInit_def bankExec_def lockBank_def)
  ultimately show ?thesis using bank_panics [of "[Deposit 7 1]" ?s 0 NilDereference] by simp
qed


text \<open>\<open>DepositAndCompare\<close> is not one step. Two calls that deposit 100 and compare with 200 can both answer that the balance
  has reached 200, while in every sequential order the first of them answers that it has not.\<close>

lemma compare_not_atomic:
  "\<exists>s. bankReach [CreateAccount 0, DepositAndCompare 0 100 200, DepositAndCompare 0 100 200] s
     \<and> pc (threads s ! 1) = Returned (RBool True) \<and> pc (threads s ! 2) = Returned (RBool True)
     \<and> ledgerOp (DepositAndCompare 0 100 200) [0 \<mapsto> 0] = Some ([0 \<mapsto> 100], RBool False)
     \<and> ledgerOp (DepositAndCompare 0 100 200) [0 \<mapsto> 100] = Some ([0 \<mapsto> 200], RBool True)"
proof -
  let ?calls = "[CreateAccount 0, DepositAndCompare 0 100 200, DepositAndCompare 0 100 200]"
  let ?is = "[0, 0, 0] @ replicate 6 1 @ replicate 10 2 @ replicate 4 (1 :: nat)"
  have "holdsAfter ?calls ?is (\<lambda>s. pc (threads s ! 1) = Returned (RBool True) \<and> pc (threads s ! 2) = Returned (RBool True))"
    by code_simp
  then obtain s where "bankReach ?calls s" "pc (threads s ! 1) = Returned (RBool True)" "pc (threads s ! 2) = Returned (RBool True)"
    by (auto dest: holdsAfterD)
  moreover have "ledgerOp (DepositAndCompare 0 100 200) [0 \<mapsto> 0] = Some ([0 \<mapsto> 100], RBool False)"
    "ledgerOp (DepositAndCompare 0 100 200) [0 \<mapsto> 100] = Some ([0 \<mapsto> 200], RBool True)" by (simp_all add: word_sle_eq)
  ultimately show ?thesis by blast
qed

end
