(* ===== verification/Weather.thy ===== *)
theory Weather
  imports Prelude Complex_Main
begin

text \<open>
  The weather aggregators (\<open>src/ws\<close>): one that collects reports over a channel and one that shares
  its sum under a mutex.

  Temperatures are whole numbers below 100, which \<open>float64\<close> adds exactly, so sums are integers;
  \<open>Rounded q\<close> is the \<open>float64\<close> nearest to \<open>q\<close> and \<open>NaN\<close> is zero divided by zero. A run is a
  sequence of events: a station answers or hangs, a report reaches the aggregator, the ticker
  fires, the reader of \<open>out\<close> takes a report, \<open>quit\<close> is signalled. A goroutine is in \<open>asked\<close> while the call of
  its station is under way, in \<open>answered\<close> when it has the report and has not delivered it.
  \<open>heard\<close> is not in the code: it lists the reports with the batch in which the aggregator got them.
\<close>

section \<open>Data\<close>

datatype float64 = NaN | Rounded rat

record WeatherReport =
  Value :: int
  Id :: int
  Batch :: int

record WeatherStation =
  station_id :: int

text \<open>What is sent on \<open>out\<close>; its \<open>Id\<close> is left blank.\<close>

record AverageReport =
  Average :: float64
  AvgBatch :: int

datatype main_pc = Select | Sending AverageReport | Stopped

record aggregator =
  batch :: int
  total :: int
  count :: int
  asked :: "(int \<times> int) list"
  answered :: "WeatherReport list"
  main :: main_pc
  out :: "AverageReport list"
  heard :: "(int \<times> WeatherReport) list"

datatype event = Answer nat int int | Deliver nat | Leave | Tick | TakeOut | Quit

section \<open>The stations\<close>

text \<open>The handler of a station; \<open>random\<close> and \<open>value\<close> are the results of \<open>rand.Intn(10)\<close> and \<open>rand.Intn(100)\<close>. It may hang.\<close>

definition GetWeatherRPCHandler :: "int \<Rightarrow> int \<Rightarrow> WeatherStation \<Rightarrow> int \<Rightarrow> WeatherReport option" where
  "GetWeatherRPCHandler random value t b = (if random = 6 then None else Some \<lparr>Value = value, Id = station_id t, Batch = b\<rparr>)"

text \<open>The closure calls station \<open>i\<close> and returns its value under its own station and batch.\<close>

definition getWeatherData :: "int \<Rightarrow> int \<Rightarrow> int \<Rightarrow> int \<Rightarrow> WeatherReport option" where
  "getWeatherData random value i b =
     map_option (\<lambda>reply. \<lparr>Value = Value reply, Id = i, Batch = b\<rparr>) (GetWeatherRPCHandler random value \<lparr>station_id = i\<rparr> b)"

text \<open>Goroutine \<open>j\<close> of those waiting for a station gets an answer, or hangs for ever.\<close>

definition answer :: "'a aggregator_scheme \<Rightarrow> nat \<Rightarrow> int \<Rightarrow> int \<Rightarrow> 'a aggregator_scheme outcome" where
  "answer a j random value =
     (if j < length (asked a) \<and> 0 \<le> random \<and> random < 10 \<and> 0 \<le> value \<and> value < 100
      then Next (a\<lparr>asked := dropNth j (asked a),
             answered := answered a @ (case getWeatherData random value (fst (asked a ! j)) (snd (asked a ! j)) of
               None \<Rightarrow> [] | Some r \<Rightarrow> [r])\<rparr>)
      else Disabled)"

section \<open>The aggregators\<close>

definition average :: "int \<Rightarrow> int \<Rightarrow> float64" where
  "average t n = (if n = 0 then NaN else Rounded (of_int t / of_int n))"

definition spawn :: "nat \<Rightarrow> int \<Rightarrow> (int \<times> int) list" where
  "spawn k b = map (\<lambda>i. (int i, b)) [0..<k]"

text \<open>\<open>if report.Batch == batch\<close>, in both aggregators\<close>

definition addReport :: "'a aggregator_scheme \<Rightarrow> WeatherReport \<Rightarrow> 'a aggregator_scheme" where
  "addReport a r = (if Batch r = batch a then a\<lparr>total := total a + Value r, count := count a + 1, heard := heard a @ [(batch a, r)]\<rparr>
     else a\<lparr>heard := heard a @ [(batch a, r)]\<rparr>)"

text \<open>After \<open>out <- report\<close>: reset the sum and ask every station for the next batch.\<close>

definition nextBatch :: "nat \<Rightarrow> 'a aggregator_scheme \<Rightarrow> AverageReport \<Rightarrow> 'a aggregator_scheme" where
  "nextBatch k a r = a\<lparr>out := out a @ [r], total := 0, count := 0, batch := batch a + 1,
     asked := asked a @ spawn k (batch a + 1), main := Select\<rparr>"

definition tickReport :: "'a aggregator_scheme \<Rightarrow> AverageReport" where
  "tickReport a = \<lparr>Average = average (total a) (count a), AvgBatch = batch a\<rparr>"

text \<open>\<open>channelAggregator\<close>: a goroutine hands its report over in the \<open>select\<close> of the main loop.\<close>

fun chanExec :: "nat \<Rightarrow> aggregator \<Rightarrow> event \<Rightarrow> aggregator outcome" where
  "chanExec k a (Answer j random value) = answer a j random value"
| "chanExec k a (Deliver j) = (if main a = Select \<and> j < length (answered a)
     then Next (addReport (a\<lparr>answered := dropNth j (answered a)\<rparr>) (answered a ! j)) else Disabled)"
| "chanExec k a Leave = Disabled"
| "chanExec k a Tick = (if main a = Select then Next (a\<lparr>main := Sending (tickReport a)\<rparr>) else Disabled)"
| "chanExec k a TakeOut = (case main a of Sending r \<Rightarrow> Next (nextBatch k a r) | _ \<Rightarrow> Disabled)"
| "chanExec k a Quit = (if main a = Select then Next (a\<lparr>main := Stopped\<rparr>) else Disabled)"

definition startAgg :: "nat \<Rightarrow> aggregator" where
  "startAgg k = \<lparr>batch = 0, total = 0, count = 0, asked = spawn k 0, answered = [], main = Select, out = [], heard = []\<rparr>"




abbreviation chanReach :: "nat \<Rightarrow> aggregator \<Rightarrow> bool" where
  "chanReach k \<equiv> reachable (\<lambda>a. a = startAgg k) (\<lambda>a e a'. chanExec k a e = Next a')"


fun chanRun :: "nat \<Rightarrow> aggregator \<Rightarrow> event list \<Rightarrow> aggregator option" where
  "chanRun k a [] = Some a"
| "chanRun k a (e # es) = (case chanExec k a e of Next a' \<Rightarrow> chanRun k a' es | _ \<Rightarrow> None)"


lemma chanRun_reach: "chanRun k a es = Some b \<Longrightarrow> chanReach k a \<Longrightarrow> chanReach k b"
proof (induction es arbitrary: a)
  case (Cons e es)
  from Cons.prems(1) obtain u where u: "chanExec k a e = Next u" "chanRun k u es = Some b" by (auto split: outcome.splits)
  from Cons.IH [OF u(2) reachable_step [OF Cons.prems(2) u(1)]] show ?case .
qed simp

section \<open>What the channel aggregator reports\<close>

text \<open>The reports of batch \<open>b\<close> that arrived while it was the current batch.\<close>

definition inTime :: "(int \<times> WeatherReport) list \<Rightarrow> int \<Rightarrow> WeatherReport list" where
  "inTime h b = map snd (filter (\<lambda>(c, r). c = b \<and> Batch r = b) h)"

definition key :: "WeatherReport \<Rightarrow> int \<times> int" where
  "key r = (Id r, Batch r)"

definition averageOf :: "WeatherReport list \<Rightarrow> float64" where
  "averageOf rs = average (\<Sum>r\<leftarrow>rs. Value r) (slen rs)"

definition calls_under_way :: "aggregator \<Rightarrow> (int \<times> int) list" where
  "calls_under_way a = asked a @ map key (answered a) @ map (key \<circ> snd) (heard a)"

definition agg_inv :: "nat \<Rightarrow> aggregator \<Rightarrow> bool" where
  "agg_inv k a \<longleftrightarrow> 0 \<le> batch a
   \<and> total a = (\<Sum>r\<leftarrow>inTime (heard a) (batch a). Value r) \<and> count a = slen (inTime (heard a) (batch a))
   \<and> (\<forall>r. main a = Sending r \<longrightarrow> r = tickReport a)
   \<and> out a = map (\<lambda>i. \<lparr>Average = averageOf (inTime (heard a) (int i)), AvgBatch = int i\<rparr>) [0..<nat (batch a)]
   \<and> list_all (\<lambda>(c, r). c \<le> batch a) (heard a)
   \<and> distinct (calls_under_way a) \<and> set (calls_under_way a) \<subseteq> {0..<int k} \<times> {0..batch a}"

lemma inTime_simps [simp]:
  "inTime [] b = []"
  "inTime (h @ [(c, r)]) b = inTime h b @ (if c = b \<and> Batch r = b then [r] else [])"
  by (simp_all add: inTime_def)

lemma spawn_props: "distinct (spawn k b)" "set (spawn k b) = {0..<int k} \<times> {b}"
proof -
  show "distinct (spawn k b)" by (simp add: spawn_def distinct_map inj_on_def)
  have "int ` {0..<k} = {0..<int k}" using image_int_atLeastLessThan [of 0 k] by simp
  then show "set (spawn k b) = {0..<int k} \<times> {b}" by (auto simp: spawn_def)
qed

lemma agg_inv_start: "agg_inv k (startAgg k)"
  using spawn_props [of k 0] by (auto simp: agg_inv_def startAgg_def calls_under_way_def slen_def)

lemma dropNth_mset: "j < length xs \<Longrightarrow> mset xs = add_mset (xs ! j) (mset (dropNth j xs))"
proof -
  assume "j < length xs"
  then have "mset xs = mset (take j xs @ xs ! j # drop (Suc j) xs)" by (simp add: id_take_nth_drop [symmetric])
  then show ?thesis by (simp add: dropNth_def)
qed

text \<open>Answers and deliveries only move a call from one stage to the next.\<close>

definition same_calls :: "(int \<times> int) list \<Rightarrow> (int \<times> int) list \<Rightarrow> bool" where
  "same_calls xs ys \<longleftrightarrow> mset ys \<subseteq># mset xs"

lemma same_calls_keep:
  assumes "same_calls xs ys" "distinct xs" "set xs \<subseteq> S"
  shows "distinct ys" "set ys \<subseteq> S"
proof -
  from assms(1) obtain zs where "mset xs = mset (ys @ zs)"
    unfolding same_calls_def by (metis ex_mset mset_append mset_subset_eq_exists_conv)
  with assms(2) show "distinct ys" by (metis distinct_append mset_eq_imp_distinct_iff)
  from assms(1,3) show "set ys \<subseteq> S" unfolding same_calls_def by (metis set_mset_mono set_mset_mset subset_trans)
qed


lemma agg_inv_answer:
  assumes inv: "agg_inv k a" and ans: "answer a j random value = Next a'"
  shows "agg_inv k a'"
proof -
  let ?rs = "case getWeatherData random value (fst (asked a ! j)) (snd (asked a ! j)) of None \<Rightarrow> [] | Some r \<Rightarrow> [r]"
  from ans have j: "j < length (asked a)" and a': "a' = a\<lparr>asked := dropNth j (asked a), answered := answered a @ ?rs\<rparr>"
    by (auto simp: answer_def split: if_splits)
  have "mset (map key ?rs) \<subseteq># {#asked a ! j#}" by (auto simp: getWeatherData_def GetWeatherRPCHandler_def key_def)
  then have "same_calls (calls_under_way a) (calls_under_way a')"
    unfolding same_calls_def calls_under_way_def a' using dropNth_mset [OF j] by (auto simp: add_mset_commute)
  from same_calls_keep [OF this] inv show ?thesis by (auto simp: agg_inv_def a' tickReport_def)
qed

lemma agg_inv_deliver:
  assumes inv: "agg_inv k a" and j: "j < length (answered a)" and main: "main a = Select"
  shows "agg_inv k (addReport (a\<lparr>answered := dropNth j (answered a)\<rparr>) (answered a ! j))" (is "agg_inv k ?a")
proof -
  have "same_calls (calls_under_way a) (calls_under_way ?a)"
    unfolding same_calls_def calls_under_way_def using dropNth_mset [OF j] by (auto simp: addReport_def)
  from same_calls_keep [OF this] inv main show ?thesis by (auto simp: agg_inv_def addReport_def)
qed

lemma agg_inv_next:
  assumes inv: "agg_inv k a" and main: "main a = Sending r"
  shows "agg_inv k (nextBatch k a r)"
proof -
  have no: "inTime (heard a) (batch a + 1) = []" using inv by (auto simp: inTime_def agg_inv_def list_all_iff filter_empty_conv)
  have r: "r = \<lparr>Average = averageOf (inTime (heard a) (batch a)), AvgBatch = batch a\<rparr>"
    using inv main by (simp add: agg_inv_def tickReport_def averageOf_def)
  have "distinct (calls_under_way (nextBatch k a r))" "set (calls_under_way (nextBatch k a r)) \<subseteq> {0..<int k} \<times> {0..batch a + 1}"
    using inv spawn_props [of k "batch a + 1"] by (auto simp: agg_inv_def calls_under_way_def nextBatch_def)
  moreover have "nat (batch a + 1) = Suc (nat (batch a))" using inv by (auto simp: agg_inv_def)
  ultimately show ?thesis using inv no r by (auto simp: agg_inv_def nextBatch_def slen_def list_all_iff)
qed

lemma agg_inv_main: "agg_inv k a \<Longrightarrow> p = Stopped \<or> p = Sending (tickReport a) \<Longrightarrow> agg_inv k (a\<lparr>main := p\<rparr>)"
  by (auto simp: agg_inv_def calls_under_way_def tickReport_def)

lemma agg_inv_step:
  assumes "agg_inv k a" "chanExec k a e = Next a'"
  shows "agg_inv k a'"
  using assms
  by (cases e) (auto simp: agg_inv_answer agg_inv_deliver agg_inv_next agg_inv_main split: if_splits main_pc.splits)

lemma agg_inv_reach: "chanReach k a \<Longrightarrow> agg_inv k a"
  by (induction rule: reachable_invariant) (auto intro: agg_inv_start agg_inv_step)



section \<open>The two aggregators\<close>







section \<open>Guarantees\<close>


text \<open>C40: Every report is the average of its batch. The reports sent have the batches 0, 1, 2 and so on, and each has the average of the
  temperatures that stations measured for its batch and that arrived while it was current, at most one of each station;
  a late report is ignored, and a batch without reports gives \<open>NaN\<close>.\<close>

theorem average_of_batch:
  assumes "chanReach k a"
  shows "out a = map (\<lambda>i. \<lparr>Average = averageOf (inTime (heard a) (int i)), AvgBatch = int i\<rparr>) [0..<nat (batch a)]
    \<and> distinct (map Id (inTime (heard a) b)) \<and> Id ` set (inTime (heard a) b) \<subseteq> {0..<int k} \<and> averageOf [] = NaN"
proof -
  from agg_inv_reach [OF assms] have inv: "agg_inv k a" .
  have "distinct (map key (map snd (heard a)))" and sub: "set (map key (map snd (heard a))) \<subseteq> {0..<int k} \<times> {0..batch a}"
    using inv by (auto simp: agg_inv_def calls_under_way_def)
  then have inj: "inj_on key (set (map snd (heard a)))" and dist: "distinct (map snd (heard a))"
    using distinct_map [of key "map snd (heard a)"] by blast+
  have it: "r \<in> set (map snd (heard a)) \<and> Batch r = b" if "r \<in> set (inTime (heard a) b)" for r
    using that by (auto simp: inTime_def)
  have "inj_on Id (set (inTime (heard a) b))"
  proof (rule inj_onI)
    fix r r' assume r: "r \<in> set (inTime (heard a) b)" "r' \<in> set (inTime (heard a) b)" "Id r = Id r'"
    with it [OF r(1)] it [OF r(2)] have "key r = key r'" by (simp add: key_def)
    with it [OF r(1)] it [OF r(2)] inj_onD [OF inj] show "r = r'" by blast
  qed
  moreover have "distinct (inTime (heard a) b)" using dist by (simp add: inTime_def distinct_map_filter)
  moreover have "Id ` set (inTime (heard a) b) \<subseteq> {0..<int k}" using sub by (force simp: inTime_def key_def)
  ultimately show ?thesis using inv by (simp add: agg_inv_def distinct_map averageOf_def average_def)
qed

theorem average_of_batch_witness:
  "out (the (chanRun 2 (startAgg 2) [Answer 1 0 20, Deliver 0, Tick, TakeOut, Answer 0 0 70, Deliver 0, Answer 0 6 0, Tick, TakeOut]))
     = [\<lparr>Average = Rounded 20, AvgBatch = 0\<rparr>, \<lparr>Average = NaN, AvgBatch = 1\<rparr>]"
proof -
  let ?a = "the (chanRun 2 (startAgg 2) [Answer 1 0 20, Deliver 0, Tick, TakeOut, Answer 0 0 70, Deliver 0, Answer 0 6 0, Tick, TakeOut])"
  have "\<not> Option.is_none (chanRun 2 (startAgg 2) [Answer 1 0 20, Deliver 0, Tick, TakeOut, Answer 0 0 70, Deliver 0, Answer 0 6 0, Tick, TakeOut])"
    by code_simp
  then have "chanReach 2 ?a" by (intro chanRun_reach [OF option.collapse [symmetric]]) (auto simp: Option.is_none_def intro: reachable_init)
  from average_of_batch [OF this]
  have "out ?a = map (\<lambda>i. \<lparr>Average = averageOf (inTime (heard ?a) (int i)), AvgBatch = int i\<rparr>) [0..<nat (batch ?a)]" by blast
  also have "\<dots> = [\<lparr>Average = Rounded 20, AvgBatch = 0\<rparr>, \<lparr>Average = NaN, AvgBatch = 1\<rparr>]" by code_simp
  finally show ?thesis .
qed

end
