(* ===== verification/Labrpc.thy ===== *)
theory Labrpc
  imports Prelude "HOL-Library.Word"
begin

text \<open>
  The simulated network (\<open>src/labrpc/labrpc.go\<close>) over which the Raft peers and lock servers call each other.

  Server and service objects are in a heap and pointers are positions in it; arguments and replies are the bytes that
  \<open>labgob\<close> makes of them. \<open>'st\<close> is the state of the objects that serve the calls, and a handler is a function on it.
  A call is a goroutine in \<open>Call\<close> together with the \<open>processReq\<close> that serves it and the goroutine that runs the handler; \<open>netExec\<close> runs one
  of them to its next statement that others can see. Random numbers are part of the event, delays are when the
  event happens. \<open>executed\<close> is not in the code: it lists the handlers that have run.
\<close>

section \<open>Data\<close>

type_synonym bytes = string
type_synonym 'st handler = "bytes \<Rightarrow> 'st \<Rightarrow> 'st \<times> bytes"

datatype name = Str string | Num int | Id int

record reqMsg =
  endname :: name
  svcMeth :: string
  args :: bytes

record replyMsg =
  ok :: bool
  reply :: bytes

definition failed :: replyMsg where
  "failed = \<lparr>ok = False, reply = []\<rparr>"

record 'st Service =
  svcName :: string
  methods :: "string \<rightharpoonup> 'st handler"

record 'st Server =
  services :: "string \<rightharpoonup> 'st Service"
  srvCount :: int

record Network =
  reliable :: bool
  longDelays :: bool
  longReordering :: bool
  ends :: "name \<rightharpoonup> name"
  enabled :: "name \<Rightarrow> bool"
  servers :: "name \<Rightarrow> nat option"
  connections :: "name \<Rightarrow> name option"
  netCount :: "32 word"
  netBytes :: "64 word"
  netDone :: bool

section \<open>Services and servers\<close>

text \<open>A method of a receiver as \<open>reflect\<close> shows it.\<close>

record 'st rmethod =
  mname :: string
  exported :: bool
  numIn :: nat
  in2Ptr :: bool
  numOut :: nat
  code :: "'st handler"

definition MakeService :: "string \<Rightarrow> 'st rmethod list \<Rightarrow> 'st Service" where
  "MakeService tname ms = \<lparr>svcName = tname,
     methods = fold (\<lambda>m f. if \<not> exported m \<or> numIn m \<noteq> 3 \<or> \<not> in2Ptr m \<or> numOut m \<noteq> 0 then f
                            else f(mname m \<mapsto> code m)) ms Map.empty\<rparr>"

definition MakeServer :: "'st Server" where
  "MakeServer = \<lparr>services = Map.empty, srvCount = 0\<rparr>"

definition AddService :: "'st Server \<Rightarrow> 'st Service \<Rightarrow> 'st Server" where
  "AddService rs svc = rs\<lparr>services := (services rs)(svcName svc \<mapsto> svc)\<rparr>"

text \<open>\<open>strings.LastIndex(s, ".")\<close>\<close>

fun lastDot :: "string \<Rightarrow> int" where
  "lastDot [] = -1"
| "lastDot (c # s) = (let d = lastDot s in if d \<ge> 0 then d + 1 else if c = CHR ''.'' then 0 else -1)"

definition serviceDispatch :: "'st Service \<Rightarrow> string \<Rightarrow> reqMsg \<Rightarrow> 'st \<Rightarrow> ('st \<times> replyMsg) go" where
  "serviceDispatch svc methname req st = (case methods svc methname of
     Some f \<Rightarrow> (case f (args req) st of (st', r) \<Rightarrow> Inr (st', \<lparr>ok = True, reply = r\<rparr>))
   | None \<Rightarrow> Inl (Fatal ''labrpc.Service.dispatch(): unknown method''))"

definition serverDispatch :: "'st Server \<Rightarrow> reqMsg \<Rightarrow> 'st \<Rightarrow> ('st Server \<times> 'st \<times> replyMsg) go" where
  "serverDispatch rs req st =
     (let rs' = rs\<lparr>srvCount := srvCount rs + 1\<rparr>; dot = lastDot (svcMeth req) in
      go_bind (slice_to (svcMeth req) dot) (\<lambda>serviceName.
      go_bind (slice_from (svcMeth req) (dot + 1)) (\<lambda>methodName.
      case services rs' serviceName of
        Some service \<Rightarrow> go_bind (serviceDispatch service methodName req st) (\<lambda>(st', r). Inr (rs', st', r))
      | None \<Rightarrow> Inl (Fatal ''labrpc.Server.dispatch(): unknown service''))))"

section \<open>The network\<close>

definition MakeNetwork :: Network where
  "MakeNetwork = \<lparr>reliable = True, longDelays = False, longReordering = False, ends = Map.empty, enabled = (\<lambda>_. False),
     servers = (\<lambda>_. None), connections = (\<lambda>_. None), netCount = 0, netBytes = 0, netDone = False\<rparr>"

definition Cleanup :: "Network \<Rightarrow> Network go" where
  "Cleanup rn = (if netDone rn then Inl (Panic ''close of closed channel'') else Inr (rn\<lparr>netDone := True\<rparr>))"

definition Reliable :: "Network \<Rightarrow> bool \<Rightarrow> Network" where
  "Reliable rn yes = rn\<lparr>reliable := yes\<rparr>"

definition LongReordering :: "Network \<Rightarrow> bool \<Rightarrow> Network" where
  "LongReordering rn yes = rn\<lparr>longReordering := yes\<rparr>"

definition LongDelays :: "Network \<Rightarrow> bool \<Rightarrow> Network" where
  "LongDelays rn yes = rn\<lparr>longDelays := yes\<rparr>"

definition readEndnameInfo :: "Network \<Rightarrow> name \<Rightarrow> bool \<times> name option \<times> nat option \<times> bool \<times> bool" where
  "readEndnameInfo rn e = (enabled rn e, connections rn e,
     (case connections rn e of None \<Rightarrow> None | Some servername \<Rightarrow> servers rn servername), reliable rn, longReordering rn)"

definition isServerDead :: "Network \<Rightarrow> name \<Rightarrow> name \<Rightarrow> nat \<Rightarrow> bool" where
  "isServerDead rn e servername server \<longleftrightarrow> enabled rn e = False \<or> servers rn servername \<noteq> Some server"

definition MakeEnd :: "Network \<Rightarrow> name \<Rightarrow> Network go" where
  "MakeEnd rn e = (if ends rn e \<noteq> None then Inl (Fatal ''MakeEnd: already exists'')
     else Inr (rn\<lparr>ends := (ends rn)(e \<mapsto> e), enabled := (enabled rn)(e := False), connections := (connections rn)(e := None)\<rparr>))"

definition AddServer :: "Network \<Rightarrow> name \<Rightarrow> nat \<Rightarrow> Network" where
  "AddServer rn s rs = rn\<lparr>servers := (servers rn)(s := Some rs)\<rparr>"

definition DeleteServer :: "Network \<Rightarrow> name \<Rightarrow> Network" where
  "DeleteServer rn s = rn\<lparr>servers := (servers rn)(s := None)\<rparr>"

definition Connect :: "Network \<Rightarrow> name \<Rightarrow> name \<Rightarrow> Network" where
  "Connect rn e s = rn\<lparr>connections := (connections rn)(e := Some s)\<rparr>"

definition Enable :: "Network \<Rightarrow> name \<Rightarrow> bool \<Rightarrow> Network" where
  "Enable rn e yes = rn\<lparr>enabled := (enabled rn)(e := yes)\<rparr>"

definition GetCount :: "Network \<Rightarrow> 'st Server list \<Rightarrow> name \<Rightarrow> int go" where
  "GetCount rn h s = (case servers rn s of None \<Rightarrow> Inl NilDereference | Some p \<Rightarrow> Inr (srvCount (h ! p)))"

definition GetTotalCount :: "Network \<Rightarrow> int" where
  "GetTotalCount rn = sint (netCount rn)"

definition GetTotalBytes :: "Network \<Rightarrow> int" where
  "GetTotalBytes rn = sint (netBytes rn)"

section \<open>Calls\<close>

text \<open>What \<open>processReq\<close> has read of the network for its request.\<close>

record route =
  servername :: name
  server :: nat
  unreliable :: bool
  reordering :: bool

datatype call_pc =
    Sending
  | Accepted
  | Deliver route
  | Waiting route
  | Decide route "replyMsg option"
  | Delayed replyMsg
  | Replying replyMsg
  | Returned bool bytes

text \<open>The goroutine that runs the handler.\<close>

datatype runner = NotStarted | Running nat | HasReply replyMsg | Drained

record rpc =
  req :: reqMsg
  pc :: call_pc
  ech :: runner

record 'st netsys =
  net :: Network
  serving :: bool
  heap :: "'st Server list"
  objs :: 'st
  rpcs :: "rpc list"
  executed :: "(nat \<times> replyMsg) list"

datatype 'st event =
    NewCall reqMsg | Accept nat | CallAborted nat | ReadInfo nat | DropRequest nat int | Dispatch nat | Receive nat | Poll nat
  | Finish nat int int | Timer nat | Reply nat | NetStop
  | OpCleanup | OpReliable bool | OpLongReordering bool | OpLongDelays bool | OpMakeEnd name
  | OpAddServer name "'st Server" | OpDeleteServer name | OpConnect name name | OpEnable name bool

definition setRpc :: "'st netsys \<Rightarrow> nat \<Rightarrow> call_pc \<Rightarrow> 'st netsys" where
  "setRpc s i p = s\<lparr>rpcs := (rpcs s)[i := (rpcs s ! i)\<lparr>pc := p\<rparr>]\<rparr>"

text \<open>\<open>processReq\<close> up to the branch of its first condition\<close>

definition readInfo :: "'st netsys \<Rightarrow> nat \<Rightarrow> 'st netsys" where
  "readInfo s i = (case readEndnameInfo (net s) (endname (req (rpcs s ! i))) of
     (True, Some sn, Some p, rel, lreo) \<Rightarrow>
        setRpc s i (Deliver \<lparr>servername = sn, server = p, unreliable = \<not> rel, reordering = lreo\<rparr>)
   | _ \<Rightarrow> setRpc s i (Replying failed))"

text \<open>the request is dropped, or the goroutine that runs the handler is started\<close>

definition dropRequest :: "'st netsys \<Rightarrow> nat \<Rightarrow> route \<Rightarrow> int \<Rightarrow> 'st netsys" where
  "dropRequest s i r rand = (if unreliable r \<and> rand < 100 then setRpc s i (Replying failed)
     else s\<lparr>rpcs := (rpcs s)[i := (rpcs s ! i)\<lparr>pc := Waiting r, ech := Running (server r)\<rparr>]\<rparr>)"

definition dispatch :: "'st netsys \<Rightarrow> nat \<Rightarrow> nat \<Rightarrow> 'st netsys outcome" where
  "dispatch s i p = out_bind (idx (heap s) (int p)) (\<lambda>rs.
     out_bind (serverDispatch rs (req (rpcs s ! i)) (objs s)) (\<lambda>(rs', st, r).
     Next (s\<lparr>heap := (heap s)[p := rs'], objs := st, rpcs := (rpcs s)[i := (rpcs s ! i)\<lparr>ech := HasReply r\<rparr>],
             executed := executed s @ [(i, r)]\<rparr>)))"

definition countReply :: "'st netsys \<Rightarrow> replyMsg \<Rightarrow> 'st netsys" where
  "countReply s rep = s\<lparr>net := (net s)\<lparr>netBytes := netBytes (net s) + of_nat (length (reply rep))\<rparr>\<rparr>"

text \<open>the last check of the server and the choice of the reply\<close>

definition decide :: "'st netsys \<Rightarrow> nat \<Rightarrow> route \<Rightarrow> replyMsg option \<Rightarrow> int \<Rightarrow> int \<Rightarrow> 'st netsys" where
  "decide s i r got rand1 rand2 =
     (let serverDead = isServerDead (net s) (endname (req (rpcs s ! i))) (servername r) (server r) in
      case got of
        None \<Rightarrow> setRpc s i (Replying failed)
      | Some rep \<Rightarrow>
          if serverDead then setRpc s i (Replying failed)
          else if unreliable r \<and> rand1 < 100 then setRpc s i (Replying failed)
          else if reordering r \<and> rand2 < 600 then setRpc s i (Delayed rep)
          else countReply (setRpc s i (Replying rep)) rep)"

fun netExec :: "'st netsys \<Rightarrow> 'st event \<Rightarrow> 'st netsys outcome" where
  "netExec s (NewCall r) = (if ends (net s) (endname r) \<noteq> None
     then Next (s\<lparr>rpcs := rpcs s @ [\<lparr>req = r, pc = Sending, ech = NotStarted\<rparr>]\<rparr>) else Disabled)"
| "netExec s (Accept i) = (if i < length (rpcs s) \<and> pc (rpcs s ! i) = Sending \<and> serving s
     then Next ((setRpc s i Accepted)\<lparr>net := (net s)\<lparr>netCount := netCount (net s) + 1,
            netBytes := netBytes (net s) + of_nat (length (args (req (rpcs s ! i))))\<rparr>\<rparr>)
     else Disabled)"
| "netExec s (CallAborted i) = (if i < length (rpcs s) \<and> pc (rpcs s ! i) = Sending \<and> netDone (net s)
     then Next (setRpc s i (Returned False [])) else Disabled)"
| "netExec s (ReadInfo i) = (if i < length (rpcs s) \<and> pc (rpcs s ! i) = Accepted then Next (readInfo s i) else Disabled)"
| "netExec s (DropRequest i rand) = (if i < length (rpcs s)
     then (case pc (rpcs s ! i) of Deliver r \<Rightarrow> Next (dropRequest s i r rand) | _ \<Rightarrow> Disabled) else Disabled)"
| "netExec s (Dispatch i) = (if i < length (rpcs s)
     then (case ech (rpcs s ! i) of Running p \<Rightarrow> dispatch s i p | _ \<Rightarrow> Disabled) else Disabled)"
| "netExec s (Receive i) = (if i < length (rpcs s)
     then (case (pc (rpcs s ! i), ech (rpcs s ! i)) of
             (Waiting r, HasReply rep) \<Rightarrow> Next (s\<lparr>rpcs := (rpcs s)[i := (rpcs s ! i)\<lparr>pc := Decide r (Some rep), ech := Drained\<rparr>]\<rparr>)
           | _ \<Rightarrow> Disabled) else Disabled)"
| "netExec s (Poll i) = (if i < length (rpcs s)
     then (case pc (rpcs s ! i) of
             Waiting r \<Rightarrow> (if isServerDead (net s) (endname (req (rpcs s ! i))) (servername r) (server r)
                           then Next (setRpc s i (Decide r None)) else Next s)
           | _ \<Rightarrow> Disabled) else Disabled)"
| "netExec s (Finish i rand1 rand2) = (if i < length (rpcs s)
     then (case pc (rpcs s ! i) of Decide r got \<Rightarrow> Next (decide s i r got rand1 rand2) | _ \<Rightarrow> Disabled) else Disabled)"
| "netExec s (Timer i) = (if i < length (rpcs s)
     then (case pc (rpcs s ! i) of Delayed m \<Rightarrow> Next (countReply (setRpc s i (Replying m)) m) | _ \<Rightarrow> Disabled) else Disabled)"
| "netExec s (Reply i) = (if i < length (rpcs s)
     then (case pc (rpcs s ! i) of Replying m \<Rightarrow> Next (setRpc s i (Returned (ok m) (reply m))) | _ \<Rightarrow> Disabled) else Disabled)"
| "netExec s NetStop = (if serving s \<and> netDone (net s) then Next (s\<lparr>serving := False\<rparr>) else Disabled)"
| "netExec s OpCleanup = out_bind (Cleanup (net s)) (\<lambda>n. Next (s\<lparr>net := n\<rparr>))"
| "netExec s (OpReliable yes) = Next (s\<lparr>net := Reliable (net s) yes\<rparr>)"
| "netExec s (OpLongReordering yes) = Next (s\<lparr>net := LongReordering (net s) yes\<rparr>)"
| "netExec s (OpLongDelays yes) = Next (s\<lparr>net := LongDelays (net s) yes\<rparr>)"
| "netExec s (OpMakeEnd e) = out_bind (MakeEnd (net s) e) (\<lambda>n. Next (s\<lparr>net := n\<rparr>))"
| "netExec s (OpAddServer n rs) = Next (s\<lparr>net := AddServer (net s) n (length (heap s)), heap := heap s @ [rs]\<rparr>)"
| "netExec s (OpDeleteServer n) = Next (s\<lparr>net := DeleteServer (net s) n\<rparr>)"
| "netExec s (OpConnect e n) = Next (s\<lparr>net := Connect (net s) e n\<rparr>)"
| "netExec s (OpEnable e yes) = Next (s\<lparr>net := Enable (net s) e yes\<rparr>)"

definition netStart :: "'st \<Rightarrow> 'st netsys" where
  "netStart st = \<lparr>net = MakeNetwork, serving = True, heap = [], objs = st, rpcs = [], executed = []\<rparr>"

abbreviation netReach :: "'st netsys \<Rightarrow> bool" where
  "netReach \<equiv> reachable (\<lambda>s. \<exists>st. s = netStart st) (\<lambda>s e t. netExec s e = Next t)"

fun netRun :: "'st netsys \<Rightarrow> 'st event list \<Rightarrow> 'st netsys option" where
  "netRun s [] = Some s"
| "netRun s (e # es) = (case netExec s e of Next t \<Rightarrow> netRun t es | _ \<Rightarrow> None)"


section \<open>The invariant\<close>

text \<open>The replies of the handler runs of a call.\<close>

definition runsOf :: "'st netsys \<Rightarrow> nat \<Rightarrow> replyMsg list" where
  "runsOf s i = map snd (filter (\<lambda>e. fst e = i) (executed s))"

fun runner_ok :: "nat \<Rightarrow> runner \<Rightarrow> replyMsg list \<Rightarrow> bool" where
  "runner_ok n NotStarted l = (l = [])"
| "runner_ok n (Running p) l = (l = [] \<and> p < n)"
| "runner_ok n (HasReply m) l = (l = [m])"
| "runner_ok n Drained l = (length l = 1)"

fun pc_ok :: "nat \<Rightarrow> call_pc \<Rightarrow> runner \<Rightarrow> replyMsg list \<Rightarrow> bool" where
  "pc_ok n Sending e l = (e = NotStarted)"
| "pc_ok n Accepted e l = (e = NotStarted)"
| "pc_ok n (Deliver r) e l = (e = NotStarted \<and> server r < n)"
| "pc_ok n (Waiting r) e l = (e = Running (server r) \<or> (\<exists>m. e = HasReply m))"
| "pc_ok n (Decide r got) e l = (case got of None \<Rightarrow> e = Running (server r) \<or> (\<exists>m. e = HasReply m) | Some m \<Rightarrow> e = Drained \<and> l = [m])"
| "pc_ok n (Delayed m) e l = (e = Drained \<and> l = [m])"
| "pc_ok n (Replying m) e l = (m = failed \<or> e = Drained \<and> l = [m])"
| "pc_ok n (Returned b bs) e l = (\<not> b \<and> bs = [] \<or> l = [\<lparr>ok = b, reply = bs\<rparr>])"

definition rpc_ok :: "nat \<Rightarrow> rpc \<Rightarrow> replyMsg list \<Rightarrow> bool" where
  "rpc_ok n c l \<longleftrightarrow> runner_ok n (ech c) l \<and> pc_ok n (pc c) (ech c) l \<and> list_all ok l"

definition net_inv :: "'st netsys \<Rightarrow> bool" where
  "net_inv s \<longleftrightarrow> (\<forall>n p. servers (net s) n = Some p \<longrightarrow> p < length (heap s))
   \<and> (serving s \<or> netDone (net s))
   \<and> (\<forall>e\<in>set (executed s). fst e < length (rpcs s))
   \<and> (\<forall>i<length (rpcs s). rpc_ok (length (heap s)) (rpcs s ! i) (runsOf s i))"

lemma rpc_ok_mono: "rpc_ok n c l \<Longrightarrow> n \<le> n' \<Longrightarrow> rpc_ok n' c l"
  unfolding rpc_ok_def by (cases "pc c"; cases "ech c") (auto split: option.splits)

lemma setRpc_simps [simp]:
  "net (setRpc s i p) = net s" "heap (setRpc s i p) = heap s" "serving (setRpc s i p) = serving s"
  "executed (setRpc s i p) = executed s" "runsOf (setRpc s i p) = runsOf s" "objs (setRpc s i p) = objs s"
  "rpcs (setRpc s i p) = (rpcs s)[i := (rpcs s ! i)\<lparr>pc := p\<rparr>]"
  by (auto simp: setRpc_def runsOf_def)

lemma countReply_simps [simp]:
  "heap (countReply s m) = heap s" "serving (countReply s m) = serving s" "executed (countReply s m) = executed s"
  "runsOf (countReply s m) = runsOf s" "rpcs (countReply s m) = rpcs s"
  "servers (net (countReply s m)) = servers (net s)" "netDone (net (countReply s m)) = netDone (net s)"
  by (auto simp: countReply_def runsOf_def)

lemma net_inv_start: "net_inv (netStart st)"
  by (simp add: net_inv_def netStart_def MakeNetwork_def)

text \<open>A step of one call that runs no handler.\<close>

lemma net_inv_call:
  assumes inv: "net_inv s" and c: "rpc_ok (length (heap s)) c (runsOf s i)"
    and t: "rpcs t = (rpcs s)[i := c]" "heap t = heap s" "executed t = executed s" "serving t = serving s"
      "servers (net t) = servers (net s)" "netDone (net t) = netDone (net s)"
  shows "net_inv t"
proof -
  have "runsOf t = runsOf s" by (simp add: runsOf_def t fun_eq_iff)
  moreover have "rpc_ok (length (heap s)) ((rpcs s)[i := c] ! j) (runsOf s j)" if "j < length (rpcs s)" for j
    using inv c that by (cases "j = i") (auto simp: net_inv_def)
  ultimately show ?thesis using inv by (auto simp: net_inv_def t)
qed


lemma net_invD:
  assumes "net_inv s"
  shows "servers (net s) n = Some p \<Longrightarrow> p < length (heap s)" "serving s \<or> netDone (net s)"
    "e \<in> set (executed s) \<Longrightarrow> fst e < length (rpcs s)"
    "i < length (rpcs s) \<Longrightarrow> rpc_ok (length (heap s)) (rpcs s ! i) (runsOf s i)"
  using assms unfolding net_inv_def by blast+

lemma net_inv_pc:
  assumes inv: "net_inv s" and i: "i < length (rpcs s)" and p: "pc_ok (length (heap s)) p (ech (rpcs s ! i)) (runsOf s i)"
  shows "net_inv (setRpc s i p)"
  by (rule net_inv_call [OF inv, of "(rpcs s ! i)\<lparr>pc := p\<rparr>" i])
     (use net_invD(4) [OF inv i] p in \<open>simp_all add: rpc_ok_def\<close>)

lemma net_inv_bytes: "net_inv s \<Longrightarrow> net_inv (countReply s m)"
  by (simp add: net_inv_def)

lemma net_inv_readInfo:
  assumes inv: "net_inv s" and i: "i < length (rpcs s)" "pc (rpcs s ! i) = Accepted"
  shows "net_inv (readInfo s i)"
proof -
  have "ech (rpcs s ! i) = NotStarted" using net_invD(4) [OF inv i(1)] i(2) by (simp add: rpc_ok_def)
  then show ?thesis using net_invD(1) [OF inv] net_inv_pc [OF inv i(1)]
    by (auto simp: readInfo_def readEndnameInfo_def split: option.splits bool.splits)
qed

lemma net_inv_dropRequest:
  assumes inv: "net_inv s" and i: "i < length (rpcs s)" "pc (rpcs s ! i) = Deliver r"
  shows "net_inv (dropRequest s i r rand)"
proof -
  have *: "ech (rpcs s ! i) = NotStarted" "server r < length (heap s)" "runsOf s i = []"
    using net_invD(4) [OF inv i(1)] i(2) by (auto simp: rpc_ok_def)
  have "net_inv (s\<lparr>rpcs := (rpcs s)[i := (rpcs s ! i)\<lparr>pc := Waiting r, ech := Running (server r)\<rparr>]\<rparr>)"
    by (rule net_inv_call [OF inv, of "(rpcs s ! i)\<lparr>pc := Waiting r, ech := Running (server r)\<rparr>" i]) (use * in \<open>simp_all add: rpc_ok_def\<close>)
  then show ?thesis using net_inv_pc [OF inv i(1), of "Replying failed"] by (simp add: dropRequest_def)
qed

lemma serviceDispatch_ok: "serviceDispatch svc mn q st = Inr (st', m) \<Longrightarrow> ok m"
  by (auto simp: serviceDispatch_def split: option.split_asm prod.split_asm)

lemma serverDispatch_ok: "serverDispatch rs q st = Inr (rs', st', m) \<Longrightarrow> ok m"
  by (auto simp: serverDispatch_def Let_def go_bind_eq_Inr split: option.split_asm dest: serviceDispatch_ok)

lemma net_inv_dispatch:
  assumes inv: "net_inv s" and i: "i < length (rpcs s)" "ech (rpcs s ! i) = Running p" and d: "dispatch s i p = Next t"
  shows "net_inv t"
proof -
  from d obtain rs rs' st r where r: "serverDispatch rs (req (rpcs s ! i)) (objs s) = Inr (rs', st, r)"
    and t: "t = s\<lparr>heap := (heap s)[p := rs'], objs := st, rpcs := (rpcs s)[i := (rpcs s ! i)\<lparr>ech := HasReply r\<rparr>], executed := executed s @ [(i, r)]\<rparr>"
    by (auto simp: dispatch_def out_bind_eq_Next)
  have runs: "runsOf t j = runsOf s j @ (if j = i then [r] else [])" for j by (simp add: runsOf_def t)
  have old: "rpc_ok (length (heap s)) (rpcs s ! i) (runsOf s i)" by (rule net_invD(4) [OF inv i(1)])
  have "rpc_ok (length (heap t)) (rpcs t ! i) (runsOf t i)"
    using old i serverDispatch_ok [OF r] unfolding runs by (cases "pc (rpcs s ! i)") (auto simp: t rpc_ok_def split: option.splits)
  moreover have "rpc_ok (length (heap t)) (rpcs t ! j) (runsOf t j)" if "j < length (rpcs s)" "j \<noteq> i" for j
    using net_invD(4) [OF inv that(1)] that(2) by (simp add: runs) (simp add: t)
  ultimately have all: "rpc_ok (length (heap t)) (rpcs t ! j) (runsOf t j)" if "j < length (rpcs s)" for j
    using that by (cases "j = i") blast+
  have "\<forall>e\<in>set (executed t). fst e < length (rpcs t)" using net_invD(3) [OF inv] i(1) by (auto simp: t)
  moreover have "length (rpcs t) = length (rpcs s)" "length (heap t) = length (heap s)" "net t = net s" "serving t = serving s"
    by (simp_all add: t)
  ultimately show ?thesis using all net_invD(1,2) [OF inv] unfolding net_inv_def by metis
qed

lemma net_inv_receive:
  assumes inv: "net_inv s" and i: "i < length (rpcs s)" "pc (rpcs s ! i) = Waiting r" "ech (rpcs s ! i) = HasReply m"
  shows "net_inv (s\<lparr>rpcs := (rpcs s)[i := (rpcs s ! i)\<lparr>pc := Decide r (Some m), ech := Drained\<rparr>]\<rparr>)"
  by (rule net_inv_call [OF inv, of "(rpcs s ! i)\<lparr>pc := Decide r (Some m), ech := Drained\<rparr>" i])
     (use net_invD(4) [OF inv i(1)] i in \<open>auto simp: rpc_ok_def\<close>)

lemma net_inv_decide:
  assumes inv: "net_inv s" and i: "i < length (rpcs s)" "pc (rpcs s ! i) = Decide r got"
  shows "net_inv (decide s i r got r1 r2)"
proof -
  have "net_inv (setRpc s i (Replying failed))" by (rule net_inv_pc [OF inv i(1)]) simp
  moreover have "net_inv (setRpc s i (Replying m))" "net_inv (setRpc s i (Delayed m))" if "got = Some m" for m
    using net_invD(4) [OF inv i(1)] i(2) that by (auto intro!: net_inv_pc [OF inv i(1)] simp: rpc_ok_def)
  ultimately show ?thesis by (auto simp: decide_def Let_def net_inv_bytes split: option.splits)
qed

lemma net_inv_net:
  assumes "net_inv s" "\<And>n p. servers rn n = Some p \<Longrightarrow> p < length (heap s)" "netDone (net s) \<Longrightarrow> netDone rn"
  shows "net_inv (s\<lparr>net := rn\<rparr>)"
  using assms by (auto simp: net_inv_def runsOf_def)

lemma net_inv_new:
  assumes inv: "net_inv s"
  shows "net_inv (s\<lparr>rpcs := rpcs s @ [\<lparr>req = q, pc = Sending, ech = NotStarted\<rparr>]\<rparr>)"
proof -
  have "runsOf s (length (rpcs s)) = []" using net_invD(3) [OF inv] by (force simp: runsOf_def filter_empty_conv)
  then show ?thesis using inv by (auto simp: net_inv_def runsOf_def nth_append less_Suc_eq rpc_ok_def)
qed

lemma net_inv_addServer:
  assumes inv: "net_inv s"
  shows "net_inv (s\<lparr>net := AddServer (net s) n (length (heap s)), heap := heap s @ [rs]\<rparr>)"
  using inv by (auto simp: net_inv_def runsOf_def AddServer_def less_Suc_eq intro: rpc_ok_mono split: if_splits)

lemmas net_ops = Reliable_def LongReordering_def LongDelays_def DeleteServer_def Connect_def Enable_def

lemma net_inv_step:
  assumes inv: "net_inv s" and step: "netExec s e = Next t"
  shows "net_inv t"
proof (cases e)
  case (Accept i)
  then have i: "i < length (rpcs s)" "pc (rpcs s ! i) = Sending" using step by (auto split: if_splits)
  then have "net_inv (setRpc s i Accepted)" using net_invD(4) [OF inv i(1)] by (intro net_inv_pc [OF inv]) (auto simp: rpc_ok_def)
  then have "net_inv ((setRpc s i Accepted)\<lparr>net := (net s)\<lparr>netCount := netCount (net s) + 1,
      netBytes := netBytes (net s) + of_nat (length (args (req (rpcs s ! i))))\<rparr>\<rparr>)"
    by (rule net_inv_net) (simp_all add: net_invD(1) [OF inv])
  with step Accept show ?thesis by (auto split: if_splits)
next
  case (Dispatch i)
  with step inv show ?thesis by (auto split: if_splits runner.splits intro: net_inv_dispatch)
next
  case (Reply i)
  with step net_invD(4) [OF inv, of i] show ?thesis
    by (auto split: if_splits call_pc.splits intro!: net_inv_pc [OF inv] simp: rpc_ok_def failed_def)
next
  case (Timer i)
  with step net_invD(4) [OF inv, of i] show ?thesis
    by (auto split: if_splits call_pc.splits intro!: net_inv_bytes net_inv_pc [OF inv] simp: rpc_ok_def)
next
  case (Poll i)
  with step inv net_invD(4) [OF inv, of i] show ?thesis
    by (auto split: if_splits call_pc.splits intro!: net_inv_pc [OF inv] simp: rpc_ok_def)
next
  case NetStop
  then have "t = s\<lparr>serving := False\<rparr>" "netDone (net s)" using step by (auto split: if_splits)
  with inv show ?thesis by (simp add: net_inv_def runsOf_def)
next
  case (CallAborted i)
  with step show ?thesis by (auto split: if_splits intro!: net_inv_pc [OF inv])
next
  case (Receive i)
  with step show ?thesis by (auto split: if_splits call_pc.splits runner.splits intro: net_inv_receive [OF inv])
qed (use step inv net_invD(1) [OF inv] in \<open>auto split: if_splits call_pc.splits simp: out_bind_eq_Next Cleanup_def MakeEnd_def net_ops
    intro!: net_inv_net net_inv_new net_inv_addServer net_inv_readInfo net_inv_dropRequest net_inv_decide\<close>)

lemma net_inv_reach: "netReach s \<Longrightarrow> net_inv s"
  by (induction rule: reachable_invariant) (auto intro: net_inv_start net_inv_step)

end
