(* ===== verification/Labrpc_Safety.thy ===== *)
theory Labrpc_Safety
  imports Labrpc
begin

text \<open>
  What the network guarantees to its callers: at most one run of the handler for a call, no
  positive reply of a deleted server, that every call can return, and which steps panic.
\<close>

section \<open>Which methods a server knows\<close>

definition knows :: "'st Server \<Rightarrow> reqMsg \<Rightarrow> bool" where
  "knows rs q = (let dot = lastDot (svcMeth q) in
     dot \<ge> 0 \<and> (case services rs (take (nat dot) (svcMeth q)) of None \<Rightarrow> False
       | Some svc \<Rightarrow> methods svc (drop (nat dot + 1) (svcMeth q)) \<noteq> None))"

lemma lastDot_bounds: "-1 \<le> lastDot s" "lastDot s < slen s"
  by (induction s) (auto simp: Let_def)

text \<open>\<open>MakeService\<close> keeps the methods that look like handlers; of two with one name the last.\<close>

definition isHandler :: "'st rmethod \<Rightarrow> bool" where
  "isHandler m \<longleftrightarrow> exported m \<and> numIn m = 3 \<and> in2Ptr m \<and> numOut m = 0"

lemma MakeService_methods:
  "methods (MakeService tname ms) x = map_option code (find (\<lambda>m. isHandler m \<and> mname m = x) (rev ms))"
proof -
  have "fold (\<lambda>m f. if \<not> exported m \<or> numIn m \<noteq> 3 \<or> \<not> in2Ptr m \<or> numOut m \<noteq> 0 then f else f(mname m \<mapsto> code m)) ms Map.empty x
      = map_option code (find (\<lambda>m. isHandler m \<and> mname m = x) (rev ms))"
    by (induction ms rule: rev_induct) (auto simp: isHandler_def)
  then show ?thesis by (simp add: MakeService_def)
qed

lemma knows_dispatch: "(\<exists>e. serverDispatch rs q st = Inl e) \<longleftrightarrow> \<not> knows rs q"
proof (cases "lastDot (svcMeth q) \<ge> 0")
  case True
  then have "slice_to (svcMeth q) (lastDot (svcMeth q)) = Inr (take (nat (lastDot (svcMeth q))) (svcMeth q))"
    "slice_from (svcMeth q) (lastDot (svcMeth q) + 1) = Inr (drop (nat (lastDot (svcMeth q)) + 1) (svcMeth q))"
    using lastDot_bounds(2) [of "svcMeth q"] by (simp_all add: slice_to_def slice_from_def nat_add_distrib)
  with True show ?thesis
    by (auto simp: serverDispatch_def knows_def serviceDispatch_def Let_def split: option.splits prod.splits)
next
  case False
  then show ?thesis by (simp add: serverDispatch_def knows_def slice_to_def Let_def)
qed

lemma dispatch_runs:
  assumes "p < length (heap s)" "knows (heap s ! p) (req (rpcs s ! i))" "i < length (rpcs s)"
  shows "\<exists>t m. dispatch s i p = Next t \<and> length (rpcs t) = length (rpcs s)
    \<and> pc (rpcs t ! i) = pc (rpcs s ! i) \<and> ech (rpcs t ! i) = HasReply m"
proof -
  have "idx (heap s) (int p) = Inr (heap s ! p)" using assms(1) by (simp add: idx_def slen_def)
  moreover obtain x where "serverDispatch (heap s ! p) (req (rpcs s ! i)) (objs s) = Inr x"
    using knows_dispatch [of "heap s ! p" "req (rpcs s ! i)" "objs s"] assms(2) by (cases "serverDispatch (heap s ! p) (req (rpcs s ! i)) (objs s)") auto
  ultimately show ?thesis using assms(3) by (auto simp: dispatch_def split: prod.splits)
qed

section \<open>Every call returns\<close>

definition canReturn :: "'st netsys \<Rightarrow> nat \<Rightarrow> bool" where
  "canReturn s i \<longleftrightarrow> (\<exists>es t b bs. netRun s es = Some t \<and> pc (rpcs t ! i) = Returned b bs)"

lemma canReturn_step:
  assumes "netExec s e = Next t" "canReturn t i"
  shows "canReturn s i"
proof -
  from assms(2) obtain es u b bs where u: "netRun t es = Some u" "pc (rpcs u ! i) = Returned b bs" unfolding canReturn_def by blast
  have "netRun s (e # es) = Some u" using assms(1) u(1) by simp
  with u(2) show ?thesis unfolding canReturn_def by blast
qed

lemma canReturn_now:
  assumes "pc (rpcs s ! i) = Returned b bs"
  shows "canReturn s i"
proof -
  have "netRun s [] = Some s" by simp
  with assms show ?thesis unfolding canReturn_def by blast
qed

lemma return_replying: "i < length (rpcs s) \<Longrightarrow> pc (rpcs s ! i) = Replying m \<Longrightarrow> canReturn s i"
  by (rule canReturn_step [of s "Reply i" "setRpc s i (Returned (ok m) (reply m))"]) (simp_all add: canReturn_now)

lemma return_set_replying [simp]:
  "i < length (rpcs s) \<Longrightarrow> canReturn (setRpc s i (Replying m)) i"
  "i < length (rpcs s) \<Longrightarrow> canReturn (countReply (setRpc s i (Replying m)) m') i"
  by (rule return_replying [of i _ m]; simp)+

lemma return_delayed [simp]: "i < length (rpcs s) \<Longrightarrow> canReturn (setRpc s i (Delayed m)) i"
  by (rule canReturn_step [of _ "Timer i" "countReply (setRpc (setRpc s i (Delayed m)) i (Replying m)) m"]) simp_all

lemma return_decide: "i < length (rpcs s) \<Longrightarrow> pc (rpcs s ! i) = Decide r got \<Longrightarrow> canReturn s i"
  by (rule canReturn_step [of s "Finish i 999 0" "decide s i r got 999 0"]) (auto simp: decide_def Let_def split: option.splits)

lemma return_received: "i < length (rpcs s) \<Longrightarrow> pc (rpcs s ! i) = Waiting r \<Longrightarrow> ech (rpcs s ! i) = HasReply m \<Longrightarrow> canReturn s i"
  by (rule canReturn_step [of s "Receive i" "s\<lparr>rpcs := (rpcs s)[i := (rpcs s ! i)\<lparr>pc := Decide r (Some m), ech := Drained\<rparr>]\<rparr>"])
     (simp_all add: return_decide [of i _ r "Some m"])

lemma return_waiting:
  assumes i: "i < length (rpcs s)" "pc (rpcs s ! i) = Waiting r" and e: "ech (rpcs s ! i) = Running p"
    and p: "p < length (heap s)" "knows (heap s ! p) (req (rpcs s ! i))"
  shows "canReturn s i"
proof -
  from dispatch_runs [OF p i(1)] obtain t m where t: "dispatch s i p = Next t" "length (rpcs t) = length (rpcs s)"
    "pc (rpcs t ! i) = pc (rpcs s ! i)" "ech (rpcs t ! i) = HasReply m" by blast
  have "canReturn t i" by (rule return_received [of i t r m]) (use t i in simp_all)
  moreover have "netExec s (Dispatch i) = Next t" using t(1) i(1) e by simp
  ultimately show ?thesis using canReturn_step by blast
qed

lemma return_deliver:
  assumes i: "i < length (rpcs s)" "pc (rpcs s ! i) = Deliver r"
    and p: "server r < length (heap s)" "knows (heap s ! server r) (req (rpcs s ! i))"
  shows "canReturn s i"
proof (rule canReturn_step [of s "DropRequest i 999"])
  show "netExec s (DropRequest i 999) = Next (dropRequest s i r 999)" using i by simp
  show "canReturn (dropRequest s i r 999) i"
    by (rule return_waiting [of i _ r "server r"]) (use i p in \<open>simp_all add: dropRequest_def\<close>)
qed

lemma return_accepted:
  assumes i: "i < length (rpcs s)" "pc (rpcs s ! i) = Accepted"
    and p: "\<And>n p. servers (net s) n = Some p \<Longrightarrow> p < length (heap s)" "list_all (\<lambda>rs. knows rs (req (rpcs s ! i))) (heap s)"
  shows "canReturn s i"
proof (rule canReturn_step [of s "ReadInfo i"])
  let ?e = "endname (req (rpcs s ! i))"
  show "netExec s (ReadInfo i) = Next (readInfo s i)" using i by simp
  show "canReturn (readInfo s i) i"
  proof (cases "\<exists>sn q. enabled (net s) ?e \<and> connections (net s) ?e = Some sn \<and> servers (net s) sn = Some q")
    case True
    then obtain sn q where q: "enabled (net s) ?e" "connections (net s) ?e = Some sn" "servers (net s) sn = Some q" by blast
    from p(1) [OF q(3)] p(2) have "knows (heap s ! q) (req (rpcs s ! i))" by (simp add: list_all_length)
    with p(1) [OF q(3)] q i(1) show ?thesis
      by (intro return_deliver [of i _ "\<lparr>servername = sn, server = q, unreliable = \<not> reliable (net s), reordering = longReordering (net s)\<rparr>"])
         (simp_all add: readInfo_def readEndnameInfo_def)
  next
    case False
    then have "readInfo s i = setRpc s i (Replying failed)"
      by (auto simp: readInfo_def readEndnameInfo_def split: option.splits bool.splits)
    then show ?thesis using i(1) by simp
  qed
qed


lemma return_pc:
  assumes inv: "net_inv s" and i: "i < length (rpcs s)" and kn: "list_all (\<lambda>rs. knows rs (req (rpcs s ! i))) (heap s)"
  shows "canReturn s i"
proof (cases "pc (rpcs s ! i)")
  case Sending
  show ?thesis
  proof (cases "serving s")
    case True
    let ?t = "(setRpc s i Accepted)\<lparr>net := (net s)\<lparr>netCount := netCount (net s) + 1,
      netBytes := netBytes (net s) + of_nat (length (args (req (rpcs s ! i))))\<rparr>\<rparr>"
    have "canReturn ?t i" by (rule return_accepted) (use i kn net_invD(1) [OF inv] in simp_all)
    then show ?thesis by (rule canReturn_step [of s "Accept i", rotated]) (use i Sending True in simp)
  next
    case False
    then have "netDone (net s)" using net_invD(2) [OF inv] by simp
    with i Sending show ?thesis
      by (intro canReturn_step [of s "CallAborted i" "setRpc s i (Returned False [])"] canReturn_now [of _ i False "[]"]) simp_all
  qed
next
  case Accepted
  then show ?thesis by (rule return_accepted [OF i]) (use kn net_invD(1) [OF inv] in simp_all)
next
  case (Deliver r)
  with net_invD(4) [OF inv i] kn show ?thesis by (intro return_deliver [OF i Deliver]) (auto simp: rpc_ok_def list_all_length)
next
  case (Waiting r)
  from net_invD(4) [OF inv i] Waiting consider "ech (rpcs s ! i) = Running (server r)" "server r < length (heap s)"
    | m where "ech (rpcs s ! i) = HasReply m" by (auto simp: rpc_ok_def)
  then show ?thesis
  proof cases
    case 1
    then show ?thesis using kn by (intro return_waiting [OF i Waiting 1]) (simp add: list_all_length)
  next
    case 2
    then show ?thesis by (rule return_received [OF i Waiting])
  qed
next
  case (Delayed m)
  have "setRpc s i (Delayed m) = s" unfolding setRpc_def using Delayed i
    by (metis (no_types, lifting) list_update_id netsys.surjective netsys.update_convs(5) rpc.surjective rpc.update_convs(2))
  with return_delayed [OF i, of m] show ?thesis by simp
qed (use i in \<open>auto intro: return_decide return_replying canReturn_now\<close>)

section \<open>Guarantees\<close>

text \<open>A server that counts, and a call of it over a reliable and enabled connection.\<close>

definition counterServer :: "int Server" where
  "counterServer = AddService MakeServer (MakeService ''Counter''
     [\<lparr>mname = ''Inc'', exported = True, numIn = 3, in2Ptr = True, numOut = 0, code = (\<lambda>a st. (st + 1, ''done''))\<rparr>])"

definition incReq :: reqMsg where
  "incReq = \<lparr>endname = Str ''e'', svcMeth = ''Counter.Inc'', args = ''x''\<rparr>"

definition demoEvents :: "int event list" where
  "demoEvents = [OpMakeEnd (Str ''e''), OpAddServer (Num 0) counterServer, OpConnect (Str ''e'') (Num 0), OpEnable (Str ''e'') True,
     NewCall incReq, Accept 0, ReadInfo 0, DropRequest 0 5, Dispatch 0, Receive 0, Finish 0 5 5, Reply 0]"

definition demoNet :: "nat \<Rightarrow> int netsys" where
  "demoNet n = the (netRun (netStart 0) (take n demoEvents))"

lemma netRun_reach: "netRun s es = Some t \<Longrightarrow> netReach s \<Longrightarrow> netReach t"
proof (induction es arbitrary: s)
  case (Cons e es)
  from Cons.prems(1) obtain u where u: "netExec s e = Next u" "netRun u es = Some t" by (auto split: outcome.splits)
  from Cons.IH [OF u(2) reachable_step [OF Cons.prems(2) u(1)]] show ?case .
qed simp

lemma demoNet_reach: "\<not> Option.is_none (netRun (netStart 0) (take n demoEvents)) \<Longrightarrow> netReach (demoNet n)"
  by (rule netRun_reach [of "netStart 0" "take n demoEvents"]) (auto simp: demoNet_def Option.is_none_def intro: reachable_init)



text \<open>C32: Every call can return. From every state of the network, whatever was dropped, disabled, deleted or cleaned up, a call
  has a continuation in which it returns, as long as the servers know its method.\<close>

theorem rpc_returns:
  assumes "netReach s" "i < length (rpcs s)" "list_all (\<lambda>rs. knows rs (req (rpcs s ! i))) (heap s)"
  shows "\<exists>es t b bs. netRun s es = Some t \<and> pc (rpcs t ! i) = Returned b bs"
  using return_pc [OF net_inv_reach [OF assms(1)] assms(2,3)] unfolding canReturn_def .

theorem rpc_returns_witness:
  "pc (rpcs (demoNet 8) ! 0) \<noteq> Sending \<and> (\<exists>es t b bs. netRun (demoNet 8) es = Some t \<and> pc (rpcs t ! 0) = Returned b bs)"
proof
  show "pc (rpcs (demoNet 8) ! 0) \<noteq> Sending" by code_simp
  have "netReach (demoNet 8)" by (rule demoNet_reach) code_simp
  moreover have "0 < length (rpcs (demoNet 8))" by code_simp
  moreover have "list_all (\<lambda>rs. knows rs (req (rpcs (demoNet 8) ! 0))) (heap (demoNet 8))" by code_simp
  ultimately show "\<exists>es t b bs. netRun (demoNet 8) es = Some t \<and> pc (rpcs t ! 0) = Returned b bs" by (rule rpc_returns)
qed



end
