(* ===== verification/Labgob.thy ===== *)
theory Labgob
  imports Prelude
begin

text \<open>
  The checks that \<open>src/labgob/labgob.go\<close> makes before it hands values to \<open>encoding/gob\<close>.

  The types of a program are a list, and a type refers to others by position, so they may be recursive. \<open>checkType\<close>
  is a recursive function that remembers the types it has seen; here its calls that are still to come are on an explicit
  stack, in the order in which the recursion makes them. \<open>printed\<close> lists the complaints. What gob does with a value is
  a parameter of \<open>Encode\<close> and \<open>Decode\<close>.
\<close>

section \<open>Data\<close>

datatype go_type =
    Struct string "(string \<times> nat) list"
  | Slice nat
  | Array nat
  | Ptr nat
  | Map nat nat
  | Other string

datatype complaint = LowerCase string string | NonDefault string

record labgob =
  checked :: "nat list"
  errorCount :: int
  printed :: "complaint list"


section \<open>checkType\<close>

text \<open>What is left to do: check a type, or a field of a struct.\<close>

datatype todo = Check nat | Field string string nat

definition typeAt :: "go_type list \<Rightarrow> nat \<Rightarrow> go_type" where
  "typeAt types t = (if t < length types then types ! t else Other [])"

fun children :: "go_type \<Rightarrow> todo list" where
  "children (Struct n fs) = map (\<lambda>(f, u). Field n f u) fs"
| "children (Slice u) = [Check u]"
| "children (Array u) = [Check u]"
| "children (Ptr u) = [Check u]"
| "children (Map k u) = [Check u, Check k]"
| "children (Other n) = []"

text \<open>\<open>unicode.IsUpper\<close> of the first letter is the parameter \<open>isUpper\<close>; an empty name has no letter.\<close>

definition capital :: "(char \<Rightarrow> bool) \<Rightarrow> string \<Rightarrow> bool" where
  "capital isUpper f = (case f of [] \<Rightarrow> False | c # _ \<Rightarrow> isUpper c)"

definition complainField :: "(char \<Rightarrow> bool) \<Rightarrow> string \<Rightarrow> string \<Rightarrow> labgob \<Rightarrow> labgob" where
  "complainField isUpper n f g = (if capital isUpper f then g
     else g\<lparr>printed := printed g @ [LowerCase f n], errorCount := errorCount g + 1\<rparr>)"

definition notSeen :: "go_type list \<Rightarrow> labgob \<Rightarrow> nat list" where
  "notSeen types g = filter (\<lambda>t. t \<notin> set (checked g)) [0..<length types]"

fun todoSize :: "todo \<Rightarrow> nat" where
  "todoSize (Check t) = 1"
| "todoSize (Field n f t) = 2"

lemma complainField_checked [simp]: "checked (complainField isUpper n f g) = checked g"
  by (simp add: complainField_def)

lemma notSeen_less:
  assumes "t < length types" "t \<notin> set (checked g)"
  shows "length (notSeen types (g\<lparr>checked := t # checked g\<rparr>)) < length (notSeen types g)"
proof -
  have "notSeen types (g\<lparr>checked := t # checked g\<rparr>) = filter (\<lambda>u. u \<noteq> t) (notSeen types g)"
    by (simp add: notSeen_def) (meson filter_cong)
  moreover have "t \<in> set (notSeen types g)" using assms by (simp add: notSeen_def)
  ultimately show ?thesis using length_filter_less [of t "notSeen types g" "\<lambda>u. u \<noteq> t"] by simp
qed

function checkAll :: "(char \<Rightarrow> bool) \<Rightarrow> go_type list \<Rightarrow> todo list \<Rightarrow> labgob \<Rightarrow> labgob" where
  "checkAll isUpper types [] g = g"
| "checkAll isUpper types (Field n f t # ts) g = checkAll isUpper types (Check t # ts) (complainField isUpper n f g)"
| "checkAll isUpper types (Check t # ts) g =
     (if t \<in> set (checked g) then checkAll isUpper types ts g
      else checkAll isUpper types (children (typeAt types t) @ ts) (g\<lparr>checked := t # checked g\<rparr>))"
  by pat_completeness auto
termination
proof (relation "measures [\<lambda>(isUpper, types, ts, g). length (notSeen types g), \<lambda>(isUpper, types, ts, g). sum_list (map todoSize ts)]", goal_cases)
  case (2 isUpper types n f t ts g)
  then show ?case by (simp add: notSeen_def)
next
  case (4 isUpper types t ts g)
  show ?case
  proof (cases "t < length types")
    case True
    then show ?thesis using notSeen_less [OF True 4] by simp
  next
    case False
    then have "notSeen types (g\<lparr>checked := t # checked g\<rparr>) = notSeen types g"
      unfolding notSeen_def by (intro filter_cong) auto
    with False show ?thesis by (simp add: typeAt_def)
  qed
qed simp_all

definition checkType :: "(char \<Rightarrow> bool) \<Rightarrow> go_type list \<Rightarrow> nat \<Rightarrow> labgob \<Rightarrow> labgob" where
  "checkType isUpper types t g = checkAll isUpper types [Check t] g"

section \<open>checkDefault\<close>





section \<open>Encoder and decoder\<close>

text \<open>An interface value is nil or a value with its type. A nil interface has no type: asking for its kind panics.\<close>

definition checkValue :: "(char \<Rightarrow> bool) \<Rightarrow> go_type list \<Rightarrow> (nat \<times> 'v) option \<Rightarrow> labgob \<Rightarrow> labgob go" where
  "checkValue isUpper types e g = (case e of None \<Rightarrow> Inl NilDereference | Some (t, v) \<Rightarrow> Inr (checkType isUpper types t g))"

definition Encode :: "(char \<Rightarrow> bool) \<Rightarrow> go_type list \<Rightarrow> ((nat \<times> 'v) option \<Rightarrow> 'b) \<Rightarrow> (nat \<times> 'v) option \<Rightarrow> labgob \<Rightarrow> ('b \<times> labgob) go" where
  "Encode isUpper types gobEncode e g = go_bind (checkValue isUpper types e g) (\<lambda>g. Inr (gobEncode e, g))"


definition Register :: "(char \<Rightarrow> bool) \<Rightarrow> go_type list \<Rightarrow> ((nat \<times> 'v) option \<Rightarrow> 'r \<Rightarrow> 'r) \<Rightarrow> (nat \<times> 'v) option \<Rightarrow> 'r \<Rightarrow> labgob \<Rightarrow> ('r \<times> labgob) go" where
  "Register isUpper types gobRegister e r g = go_bind (checkValue isUpper types e g) (\<lambda>g. Inr (gobRegister e r, g))"


section \<open>What is checked\<close>
















definition nonDefault :: "(nat \<times> bool \<times> bool) list \<Rightarrow> int" where
  "nonDefault bs = slen (filter (\<lambda>b. fst b \<le> 3 \<and> \<not> snd (snd b)) bs)"

definition hidden :: "(nat \<times> bool \<times> bool) list \<Rightarrow> bool" where
  "hidden bs = list_ex (\<lambda>b. fst b \<le> 3 \<and> fst (snd b)) bs"

lemma nonDefault_simps [simp]: "nonDefault [] = 0" "nonDefault (xs @ ys) = nonDefault xs + nonDefault ys"
  by (simp_all add: nonDefault_def)

lemma hidden_simps [simp]: "\<not> hidden []" "hidden (xs @ ys) \<longleftrightarrow> hidden xs \<or> hidden ys"
  by (simp_all add: hidden_def)







section \<open>Guarantees\<close>






end
