(* ===== verification/Raft_Config.thy ===== *)
theory Raft_Config
  imports Raft_Node Labrpc
begin

text \<open>
  The harness of the Raft tests (\<open>src/raft/config.go\<close>): it starts, connects, disconnects and crashes peers
  on the simulated network of \<open>Labrpc\<close> and checks what they apply and who leads.

  A nil slice of end names is the empty list. While a peer runs, the persister it was given is one
  object with the harness: its content is in the peer, and in \<open>saved\<close> once the peer is gone. The random
  end names are a parameter of \<open>start1\<close>. \<open>log.Fatalf\<close> and \<open>t.Fatalf\<close> are errors.
\<close>

section \<open>Data\<close>

record 'c logEntry =
  valid :: bool
  command :: "'c option"

record 'c config =
  cfgNet :: Network
  cfgN :: nat
  rafts :: "'c raft option list"
  connected :: "bool list"
  saved :: "'c gobval Persister option list"
  endnames :: "string list list"
  logs :: "(int \<rightharpoonup> 'c logEntry) list"
  didRecv :: "bool list"
  expected :: "int list"
  numCommands :: "int list"
  maxIndex :: int
  nextSrv :: nat

section \<open>Connections\<close>

definition endAt :: "string list list \<Rightarrow> int \<Rightarrow> int \<Rightarrow> string go" where
  "endAt es i j = go_bind (idx es i) (\<lambda>row. idx row j)"

fun endsAt :: "string list list \<Rightarrow> (int \<times> int) list \<Rightarrow> string list go" where
  "endsAt es [] = Inr []"
| "endsAt es ((i, j) # ps) = go_bind (endAt es i j) (\<lambda>e. go_bind (endsAt es ps) (\<lambda>r. Inr (e # r)))"

definition enableEnds :: "bool \<Rightarrow> string list \<Rightarrow> Network \<Rightarrow> Network" where
  "enableEnds yes names rn = fold (\<lambda>e rn. Enable rn (Str e) yes) names rn"

definition upto_n :: "nat \<Rightarrow> int list" where
  "upto_n n = map int [0..<n]"

definition connect :: "'c config \<Rightarrow> int \<Rightarrow> 'c config go" where
  "connect cfg i =
     go_bind (set_idx (connected cfg) i True) (\<lambda>cn.
     let js = filter (\<lambda>j. cn ! nat j) (upto_n (cfgN cfg)) in
     go_bind (endsAt (endnames cfg) (map (\<lambda>j. (i, j)) js)) (\<lambda>outgoing.
     go_bind (endsAt (endnames cfg) (map (\<lambda>j. (j, i)) js)) (\<lambda>incoming.
     Inr (cfg\<lparr>connected := cn, cfgNet := enableEnds True incoming (enableEnds True outgoing (cfgNet cfg))\<rparr>))))"

definition disconnect :: "'c config \<Rightarrow> int \<Rightarrow> 'c config go" where
  "disconnect cfg i =
     go_bind (set_idx (connected cfg) i False) (\<lambda>cn.
     go_bind (idx (endnames cfg) i) (\<lambda>row.
     let js = upto_n (cfgN cfg) in
     go_bind (endsAt (endnames cfg) (if row = [] then [] else map (\<lambda>j. (i, j)) js)) (\<lambda>outgoing.
     go_bind (endsAt (endnames cfg) (map (\<lambda>j. (j, i)) (filter (\<lambda>j. endnames cfg ! nat j \<noteq> []) js))) (\<lambda>incoming.
     Inr (cfg\<lparr>connected := cn, cfgNet := enableEnds False incoming (enableEnds False outgoing (cfgNet cfg))\<rparr>)))))"

section \<open>Starting and crashing peers\<close>

text \<open>The persister of peer \<open>i\<close>, which a running peer shares with the harness.\<close>

definition stored :: "'c config \<Rightarrow> nat \<Rightarrow> 'c gobval Persister option" where
  "stored cfg i = (case rafts cfg ! i of Some rf \<Rightarrow> Some (persister rf) | None \<Rightarrow> saved cfg ! i)"

definition crash1 :: "'c config \<Rightarrow> int \<Rightarrow> 'c config go" where
  "crash1 cfg i =
     go_bind (disconnect cfg i) (\<lambda>cfg.
     let copy = map_option CopyPersister (stored cfg (nat i));
         fresh = map_option (\<lambda>ps. SaveStateAndSnapshot (GobInt 0) MakePersister
                   (ReadRaftState (GobInt 0) ps) (ReadSnapshot (GobInt 0) ps)) copy in
     Inr (cfg\<lparr>cfgNet := DeleteServer (cfgNet cfg) (Num i), rafts := (rafts cfg)[nat i := None],
              saved := (saved cfg)[nat i := fresh]\<rparr>))"

fun makeEnds :: "Network \<Rightarrow> (string \<times> int) list \<Rightarrow> Network go" where
  "makeEnds rn [] = Inr rn"
| "makeEnds rn ((e, j) # es) = go_bind (MakeEnd rn (Str e)) (\<lambda>rn. makeEnds (Connect rn (Str e) (Num j)) es)"

definition start1 :: "'c config \<Rightarrow> int \<Rightarrow> string list \<Rightarrow> 'c config go" where
  "start1 cfg i names =
     go_bind (crash1 cfg i) (\<lambda>cfg.
     go_bind (makeEnds (cfgNet cfg) (zip names (upto_n (cfgN cfg)))) (\<lambda>rn.
     let ps = (case saved cfg ! nat i of Some ps \<Rightarrow> CopyPersister ps | None \<Rightarrow> MakePersister) in
     go_bind (Make (cfgN cfg) i ps) (\<lambda>rf.
     Inr (cfg\<lparr>cfgNet := AddServer rn (Num i) (nextSrv cfg), nextSrv := nextSrv cfg + 1,
              endnames := (endnames cfg)[nat i := names], expected := (expected cfg)[nat i := 0],
              saved := (saved cfg)[nat i := Some ps], rafts := (rafts cfg)[nat i := Some rf],
              didRecv := (didRecv cfg)[nat i := False]\<rparr>))))"

definition setunreliable :: "'c config \<Rightarrow> bool \<Rightarrow> 'c config" where
  "setunreliable cfg unrel = cfg\<lparr>cfgNet := Reliable (cfgNet cfg) (\<not> unrel)\<rparr>"

definition setlongreordering :: "'c config \<Rightarrow> bool \<Rightarrow> 'c config" where
  "setlongreordering cfg longrel = cfg\<lparr>cfgNet := LongReordering (cfgNet cfg) longrel\<rparr>"

definition newConfig :: "nat \<Rightarrow> bool \<Rightarrow> 'c config" where
  "newConfig n unrel = \<lparr>cfgNet = LongDelays (Reliable MakeNetwork (\<not> unrel)) False, cfgN = n,
     rafts = replicate n None, connected = replicate n False, saved = replicate n None, endnames = replicate n [],
     logs = replicate n Map.empty, didRecv = replicate n False, expected = replicate n 0, numCommands = replicate n 0,
     maxIndex = 0, nextSrv = 0\<rparr>"

fun startAll :: "'c config \<Rightarrow> (int \<times> string list) list \<Rightarrow> 'c config go" where
  "startAll cfg [] = Inr cfg"
| "startAll cfg ((i, names) # rest) = go_bind (start1 cfg i names) (\<lambda>cfg. startAll cfg rest)"

fun connectAll :: "'c config \<Rightarrow> int list \<Rightarrow> 'c config go" where
  "connectAll cfg [] = Inr cfg"
| "connectAll cfg (i # is) = go_bind (connect cfg i) (\<lambda>cfg. connectAll cfg is)"

definition make_config :: "nat \<Rightarrow> bool \<Rightarrow> string list list \<Rightarrow> 'c config go" where
  "make_config n unrel names =
     go_bind (startAll (newConfig n unrel) (zip (upto_n n) names)) (\<lambda>cfg. connectAll cfg (upto_n n))"

section \<open>Checks\<close>

text \<open>The loop over the logs of all peers.\<close>

fun checkConsistency :: "(int \<rightharpoonup> 'c logEntry) list \<Rightarrow> int \<Rightarrow> 'c logEntry \<Rightarrow> unit go" where
  "checkConsistency [] index e = Inr ()"
| "checkConsistency (l # ls) index e = (case l index of
     Some e' \<Rightarrow> if e' \<noteq> e then Inl (Fatal ''has already committed for the same index'') else checkConsistency ls index e
   | None \<Rightarrow> checkConsistency ls index e)"

definition cfgApply :: "'c config \<Rightarrow> nat \<Rightarrow> 'c ApplyMsg \<Rightarrow> 'c config go" where
  "cfgApply cfg i msg =
     (let next = (if \<not> didRecv cfg ! i \<and> CommandIndex msg = 1 \<and> expected cfg ! i = 0 then 1 else expected cfg ! i);
          entry = \<lparr>valid = CommandValid msg, command = msgCommand msg\<rparr> in
      if CommandIndex msg \<noteq> next then Inl (Fatal ''applied index but expected'')
      else go_bind (checkConsistency (logs cfg) (CommandIndex msg) entry) (\<lambda>_.
        Inr (cfg\<lparr>didRecv := (didRecv cfg)[i := True], expected := (expected cfg)[i := next + 1],
                 logs := (logs cfg)[i := (logs cfg ! i)(CommandIndex msg \<mapsto> entry)],
                 maxIndex := max (maxIndex cfg) (CommandIndex msg),
                 numCommands := (if CommandValid msg then (numCommands cfg)[i := numCommands cfg ! i + 1] else numCommands cfg)\<rparr>)))"

fun applyAll :: "'c config \<Rightarrow> nat \<Rightarrow> 'c ApplyMsg list \<Rightarrow> 'c config go" where
  "applyAll cfg i [] = Inr cfg"
| "applyAll cfg i (msg # msgs) = go_bind (cfgApply cfg i msg) (\<lambda>cfg. applyAll cfg i msgs)"

text \<open>One round of \<open>checkOneLeader\<close> on the states of the connected peers: who leads in the last term with a leader.\<close>

definition leadersOf :: "(nat \<times> int \<times> bool) list \<Rightarrow> int \<Rightarrow> nat list" where
  "leadersOf states t = map fst (filter (\<lambda>(i, t', ld). ld \<and> t' = t) states)"

definition leaderTerms :: "(nat \<times> int \<times> bool) list \<Rightarrow> int list" where
  "leaderTerms states = map (\<lambda>(i, t, ld). t) (filter (\<lambda>(i, t, ld). ld) states)"

definition oneLeaderRound :: "(nat \<times> int \<times> bool) list \<Rightarrow> nat option go" where
  "oneLeaderRound states =
     (if \<exists>t\<in>set (leaderTerms states). length (leadersOf states t) > 1 then Inl (Fatal ''leaders'')
      else let lastTermWithLeader = foldl max (-1) (leaderTerms states) in
        if leaderTerms states = [] then Inr None
        else go_bind (idx (leadersOf states lastTermWithLeader) 0) (\<lambda>i. Inr (Some i)))"

fun checkOneLeader :: "(nat \<times> int \<times> bool) list list \<Rightarrow> nat go" where
  "checkOneLeader [] = Inl (Fatal ''expected one leader, got none'')"
| "checkOneLeader (states # rounds) = go_bind (oneLeaderRound states) (\<lambda>r.
     case r of Some i \<Rightarrow> Inr i | None \<Rightarrow> checkOneLeader rounds)"

fun checkTerms :: "(nat \<times> int \<times> bool) list \<Rightarrow> int \<Rightarrow> int go" where
  "checkTerms [] term = Inr term"
| "checkTerms ((i, xterm, ld) # states) term =
     (if term = -1 then checkTerms states xterm
      else if term \<noteq> xterm then Inl (Fatal ''servers disagree on term'') else checkTerms states term)"

fun checkNoLeader :: "(nat \<times> int \<times> bool) list \<Rightarrow> unit go" where
  "checkNoLeader [] = Inr ()"
| "checkNoLeader ((i, term, ld) # states) = (if ld then Inl (Fatal ''expected no leader'') else checkNoLeader states)"

text \<open>
  \<open>nCommitted\<close>, \<open>wait\<close> and \<open>one\<close> look at the harness again and again while the peers and the other goroutines run. \<open>env k cfg\<close> is
  what they have made of \<open>cfg\<close> when it is looked at for the \<open>k\<close>th time. How often a loop that is bounded by the
  clock runs is a parameter.

  How many peers have applied an entry at an index, and the last such entry; the log of every peer is read in
  its own critical section.
\<close>

fun nCommittedLoop :: "(nat \<Rightarrow> 'c config \<Rightarrow> 'c config) \<Rightarrow> nat \<Rightarrow> 'c config \<Rightarrow> int \<Rightarrow> nat list \<Rightarrow> int \<Rightarrow> 'c logEntry
    \<Rightarrow> 'c config \<times> nat \<times> int \<times> 'c logEntry" where
  "nCommittedLoop env k cfg index [] n e = (cfg, k, n, e)"
| "nCommittedLoop env k cfg index (i # is) n e =
     (let cfg = env k cfg in
      case (logs cfg ! i) index of
        Some e' \<Rightarrow> if expected cfg ! i > index then nCommittedLoop env (k + 1) cfg index is (n + 1) e'
                   else nCommittedLoop env (k + 1) cfg index is n e
      | None \<Rightarrow> nCommittedLoop env (k + 1) cfg index is n e)"

definition nCommitted :: "(nat \<Rightarrow> 'c config \<Rightarrow> 'c config) \<Rightarrow> nat \<Rightarrow> 'c config \<Rightarrow> int \<Rightarrow> 'c config \<times> nat \<times> int \<times> 'c logEntry" where
  "nCommitted env k cfg index =
     nCommittedLoop env k cfg index [0..<length (rafts cfg)] 0 \<lparr>valid = False, command = None\<rparr>"

fun movedOn :: "(nat \<Rightarrow> 'c config \<Rightarrow> 'c config) \<Rightarrow> nat \<Rightarrow> 'c config \<Rightarrow> int \<Rightarrow> nat list \<Rightarrow> ('c config \<times> nat \<times> bool) go" where
  "movedOn env k cfg startTerm [] = Inr (cfg, k, False)"
| "movedOn env k cfg startTerm (i # is) =
     (let cfg = env k cfg in
      case rafts cfg ! i of
        None \<Rightarrow> Inl NilDereference
      | Some rf \<Rightarrow> if fst (GetState rf) > startTerm then Inr (cfg, k + 1, True) else movedOn env (k + 1) cfg startTerm is)"

fun waitLoop :: "(nat \<Rightarrow> 'c config \<Rightarrow> 'c config) \<Rightarrow> nat \<Rightarrow> 'c config \<Rightarrow> int \<Rightarrow> int \<Rightarrow> int \<Rightarrow> nat \<Rightarrow> ('c config \<times> nat \<times> bool) go" where
  "waitLoop env k cfg index n startTerm 0 = Inr (cfg, k, True)"
| "waitLoop env k cfg index n startTerm (Suc iters) =
     (case nCommitted env k cfg index of (cfg, k, nd, e) \<Rightarrow>
      if nd \<ge> n then Inr (cfg, k, True)
      else if startTerm > -1 then
        go_bind (movedOn env k cfg startTerm [0..<length (rafts cfg)]) (\<lambda>(cfg, k, moved).
        if moved then Inr (cfg, k, False) else waitLoop env k cfg index n startTerm iters)
      else waitLoop env k cfg index n startTerm iters)"

definition wait :: "(nat \<Rightarrow> 'c config \<Rightarrow> 'c config) \<Rightarrow> 'c config \<Rightarrow> int \<Rightarrow> int \<Rightarrow> int \<Rightarrow> ('c config \<times> bool \<times> 'c logEntry) go" where
  "wait env cfg index n startTerm =
     go_bind (waitLoop env 0 cfg index n startTerm 30) (\<lambda>(cfg, k, goOn).
     if \<not> goOn then Inr (cfg, False, \<lparr>valid = False, command = None\<rparr>)
     else case nCommitted env k cfg index of (cfg, k, nd, e) \<Rightarrow>
       if nd < n then Inl (Fatal ''only nd decided for index'') else Inr (cfg, True, e))"

fun submitLoop :: "(nat \<Rightarrow> 'c config \<Rightarrow> 'c config) \<Rightarrow> nat \<Rightarrow> 'c config \<Rightarrow> 'c option \<Rightarrow> nat \<Rightarrow> nat \<Rightarrow> ('c config \<times> nat \<times> nat \<times> int) go" where
  "submitLoop env k cfg cmd starts 0 = Inr (cfg, k, starts, -1)"
| "submitLoop env k cfg cmd starts (Suc si) =
     (let cfg = env k cfg; starts = (starts + 1) mod cfgN cfg in
      case (if connected cfg ! starts then rafts cfg ! starts else None) of
        None \<Rightarrow> submitLoop env (k + 1) cfg cmd starts si
      | Some rf \<Rightarrow> go_bind (Start rf cmd) (\<lambda>(rf, index1, term, ok).
          let cfg = cfg\<lparr>rafts := (rafts cfg)[starts := Some rf]\<rparr> in
          if ok then Inr (cfg, k + 1, starts, index1) else submitLoop env (k + 1) cfg cmd starts si))"

fun agreeLoop :: "(nat \<Rightarrow> 'c config \<Rightarrow> 'c config) \<Rightarrow> nat \<Rightarrow> 'c config \<Rightarrow> 'c option \<Rightarrow> int \<Rightarrow> int \<Rightarrow> nat \<Rightarrow> 'c config \<times> nat \<times> bool" where
  "agreeLoop env k cfg cmd expectedServers index 0 = (cfg, k, False)"
| "agreeLoop env k cfg cmd expectedServers index (Suc polls) =
     (case nCommitted env k cfg index of (cfg, k, nd, e) \<Rightarrow>
      if nd > 0 \<and> nd \<ge> expectedServers \<and> e = \<lparr>valid = True, command = cmd\<rparr> then (cfg, k, True)
      else agreeLoop env k cfg cmd expectedServers index polls)"

text \<open>Each number in the list is how often the loop looks for agreement in one round of two seconds.\<close>

fun oneLoop :: "(nat \<Rightarrow> 'c config \<Rightarrow> 'c config) \<Rightarrow> nat \<Rightarrow> 'c config \<Rightarrow> 'c option \<Rightarrow> int \<Rightarrow> bool \<Rightarrow> nat \<Rightarrow> nat list \<Rightarrow> ('c config \<times> int) go" where
  "oneLoop env k cfg cmd expectedServers retry starts [] = Inl (Fatal ''failed to reach agreement'')"
| "oneLoop env k cfg cmd expectedServers retry starts (polls # rounds) =
     go_bind (submitLoop env k cfg cmd starts (cfgN cfg)) (\<lambda>(cfg, k, starts, index).
     if index \<noteq> -1 then
       case agreeLoop env k cfg cmd expectedServers index polls of (cfg, k, reached) \<Rightarrow>
       if reached then Inr (cfg, index)
       else if \<not> retry then Inl (Fatal ''failed to reach agreement'')
       else oneLoop env k cfg cmd expectedServers retry starts rounds
     else oneLoop env k cfg cmd expectedServers retry starts rounds)"

definition one :: "(nat \<Rightarrow> 'c config \<Rightarrow> 'c config) \<Rightarrow> nat list \<Rightarrow> 'c config \<Rightarrow> 'c option \<Rightarrow> int \<Rightarrow> bool \<Rightarrow> ('c config \<times> int) go" where
  "one env rounds cfg cmd expectedServers retry = oneLoop env 0 cfg cmd expectedServers retry 0 rounds"

text \<open>Whether a command was applied at an index, for a snapshot.\<close>

fun checkCommitted :: "(int \<rightharpoonup> 'c logEntry) list \<Rightarrow> int \<Rightarrow> 'c option \<Rightarrow> unit go" where
  "checkCommitted [] index cmd = Inl (Fatal ''no log entry has been found for snapshot index'')"
| "checkCommitted (l # ls) index cmd = (case l index of
     Some e \<Rightarrow> if \<not> valid e then Inl (Fatal ''stores a dummy entry for this index'')
       else if command e \<noteq> cmd then Inl (Fatal ''stores another command for this index'') else Inr ()
   | None \<Rightarrow> checkCommitted ls index cmd)"

text \<open>The end of a test; \<open>late\<close> if it took longer than 120 seconds.\<close>

definition checkTimeout :: "bool \<Rightarrow> bool \<Rightarrow> unit go" where
  "checkTimeout hasFailed late = (if \<not> hasFailed \<and> late then Inl (Fatal ''test took longer than 120 seconds'') else Inr ())"

definition cleanup :: "'c config \<Rightarrow> bool \<Rightarrow> bool \<Rightarrow> 'c config go" where
  "cleanup cfg hasFailed late =
     go_bind (Cleanup (cfgNet cfg)) (\<lambda>rn.
     go_bind (checkTimeout hasFailed late) (\<lambda>_.
     Inr (cfg\<lparr>rafts := map (map_option Kill) (rafts cfg), cfgNet := rn\<rparr>)))"

text \<open>\<open>LogSize\<close>; a nil persister cannot be asked for its size.\<close>

fun LogSizeLoop :: "'c gobval Persister option list \<Rightarrow> int \<Rightarrow> int go" where
  "LogSizeLoop [] n = Inr n"
| "LogSizeLoop (None # pss) n = Inl NilDereference"
| "LogSizeLoop (Some ps # pss) n = LogSizeLoop pss (if RaftStateSize ps > n then RaftStateSize ps else n)"

definition LogSize :: "'c config \<Rightarrow> int go" where
  "LogSize cfg = LogSizeLoop (map (stored cfg) [0..<cfgN cfg]) 0"


section \<open>Who can talk to whom\<close>

lemma upto_n_simps [simp]: "length (upto_n n) = n" "set (upto_n n) = int ` {0..<n}" "k < n \<Longrightarrow> upto_n n ! k = int k"
  by (simp_all add: upto_n_def)

definition inRange :: "string list list \<Rightarrow> int \<Rightarrow> int \<Rightarrow> bool" where
  "inRange es i j \<longleftrightarrow> 0 \<le> i \<and> nat i < length es \<and> 0 \<le> j \<and> nat j < length (es ! nat i)"

lemma endsAt_Inr: "endsAt es ps = Inr r \<longleftrightarrow> list_all (\<lambda>(i, j). inRange es i j) ps \<and> r = map (\<lambda>(i, j). es ! nat i ! nat j) ps"
proof (induction ps arbitrary: r)
  case (Cons p ps)
  obtain i j where p: "p = (i, j)" by (cases p)
  have "endAt es i j = Inr e \<longleftrightarrow> inRange es i j \<and> e = es ! nat i ! nat j" for e
    by (auto simp: endAt_def go_bind_eq_Inr idx_eq_Inr inRange_def slen_def)
  then show ?case by (auto simp: p go_bind_eq_Inr Cons.IH)
qed auto

lemma enableEnds_simps [simp]:
  "enabled (enableEnds yes names rn) x = (if x \<in> Str ` set names then yes else enabled rn x)"
  "ends (enableEnds yes names rn) = ends rn" "connections (enableEnds yes names rn) = connections rn"
  "Network.servers (enableEnds yes names rn) = Network.servers rn"
proof -
  have "enabled (enableEnds yes names rn) x = (if x \<in> Str ` set names then yes else enabled rn x)
      \<and> ends (enableEnds yes names rn) = ends rn \<and> connections (enableEnds yes names rn) = connections rn
      \<and> Network.servers (enableEnds yes names rn) = Network.servers rn"
    by (induction names arbitrary: rn) (auto simp: enableEnds_def Enable_def)
  then show "enabled (enableEnds yes names rn) x = (if x \<in> Str ` set names then yes else enabled rn x)"
    "ends (enableEnds yes names rn) = ends rn" "connections (enableEnds yes names rn) = connections rn"
    "Network.servers (enableEnds yes names rn) = Network.servers rn" by blast+
qed

text \<open>Two positions of a table with distinct entries that hold the same entry are one.\<close>

lemma distinct_table:
  assumes "distinct (concat es)" "a < length es" "b < length (es ! a)" "c < length es" "d < length (es ! c)" "es ! a ! b = es ! c ! d"
  shows "a = c \<and> b = d"
  using assms
proof (induction es arbitrary: a c)
  case (Cons row es)
  have *: "k < length es \<Longrightarrow> l < length (es ! k) \<Longrightarrow> es ! k ! l \<in> set (concat es)" for k l by (metis nth_mem UN_I set_concat)
  have disj: "set row \<inter> set (concat es) = {}" using Cons.prems(1) by simp
  show ?case
  proof (cases a; cases c)
    fix a' c' assume "a = Suc a'" "c = Suc c'"
    with Cons.IH [of a' c'] Cons.prems show ?thesis by simp
  next
    fix a' assume "a = Suc a'" "c = 0"
    with Cons.prems * [of a' b] have "row ! d \<in> set (concat es)" "row ! d \<in> set row" by (auto simp del: set_concat)
    with disj show ?thesis by blast
  next
    fix c' assume "a = 0" "c = Suc c'"
    with Cons.prems * [of c' d] have "row ! b \<in> set (concat es)" by (auto simp del: set_concat)
    moreover have "row ! b \<in> set row" using Cons.prems(3) \<open>a = 0\<close> by simp
    ultimately show ?thesis using disj by blast
  next
    assume "a = 0" "c = 0"
    with Cons.prems show ?thesis by (auto simp: nth_eq_iff_index_eq)
  qed
qed simp

definition links_ok :: "'c config \<Rightarrow> bool" where
  "links_ok cfg \<longleftrightarrow> length (endnames cfg) = cfgN cfg \<and> length (connected cfg) = cfgN cfg
   \<and> (\<forall>i<cfgN cfg. endnames cfg ! i = [] \<or> length (endnames cfg ! i) = cfgN cfg)
   \<and> (\<forall>i<cfgN cfg. connected cfg ! i \<longrightarrow> endnames cfg ! i \<noteq> [])
   \<and> distinct (concat (endnames cfg))
   \<and> (\<forall>e\<in>set (concat (endnames cfg)). ends (cfgNet cfg) (Str e) \<noteq> None)"

definition link :: "'c config \<Rightarrow> name \<Rightarrow> nat \<Rightarrow> nat \<Rightarrow> bool" where
  "link cfg x i j \<longleftrightarrow> i < cfgN cfg \<and> j < cfgN cfg \<and> endnames cfg ! i \<noteq> [] \<and> x = Str (endnames cfg ! i ! j)"

definition partition_ok :: "'c config \<Rightarrow> bool" where
  "partition_ok cfg \<longleftrightarrow> (\<forall>x. enabled (cfgNet cfg) x \<longleftrightarrow> (\<exists>i j. link cfg x i j \<and> connected cfg ! i \<and> connected cfg ! j))
   \<and> (\<forall>x i j. link cfg x i j \<longrightarrow> connections (cfgNet cfg) x = Some (Num (int j)))"

lemma link_unique:
  assumes "links_ok cfg" "link cfg x i j" "link cfg x k l"
  shows "i = k \<and> j = l"
proof -
  have len: "length (endnames cfg ! i) = cfgN cfg" "length (endnames cfg ! k) = cfgN cfg" "length (endnames cfg) = cfgN cfg"
    and d: "distinct (concat (endnames cfg))" using assms by (auto simp: links_ok_def link_def)
  show ?thesis using assms(2,3) by (intro distinct_table [OF d]) (simp_all add: link_def len)
qed


text \<open>Connecting, disconnecting and renewing the ends of a peer.\<close>

lemma ends_out:
  "x \<in> Str ` set (map (\<lambda>(i, j). es ! nat i ! nat j) (map (\<lambda>j. (i, j)) (filter P (upto_n n))))
     \<longleftrightarrow> (\<exists>j<n. P (int j) \<and> x = Str (es ! nat i ! j))"
  by (force simp: upto_n_def image_iff)

lemma ends_in:
  "x \<in> Str ` set (map (\<lambda>(i, j). es ! nat i ! nat j) (map (\<lambda>j. (j, i)) (filter P (upto_n n))))
     \<longleftrightarrow> (\<exists>j<n. P (int j) \<and> x = Str (es ! j ! nat i))"
  by (force simp: upto_n_def image_iff)

lemma connect_links:
  assumes ok: "links_ok cfg" "partition_ok cfg" and c: "connect cfg i = Inr cfg'"
  shows "links_ok cfg' \<and> partition_ok cfg'"
proof -
  let ?n = "cfgN cfg" and ?es = "endnames cfg" and ?cn = "(connected cfg)[nat i := True]"
  let ?js = "filter (\<lambda>j. ?cn ! nat j) (upto_n ?n)"
  let ?out = "map (\<lambda>(i, j). ?es ! nat i ! nat j) (map (\<lambda>j. (i, j)) ?js)" and ?in = "map (\<lambda>(i, j). ?es ! nat i ! nat j) (map (\<lambda>j. (j, i)) ?js)"
  from c have i: "0 \<le> i" "nat i < length (connected cfg)" and rng: "list_all (\<lambda>j. inRange ?es i j) ?js"
    and cfg': "cfg' = cfg\<lparr>connected := ?cn, cfgNet := enableEnds True ?in (enableEnds True ?out (cfgNet cfg))\<rparr>"
    by (auto simp: connect_def go_bind_eq_Inr set_idx_eq_Inr endsAt_Inr list_all_iff slen_def Let_def)
  have n: "nat i < ?n" "length ?es = ?n" "length (connected cfg) = ?n" using i ok(1) by (auto simp: links_ok_def)
  have "i \<in> set ?js" using n i by (auto simp: image_iff intro!: bexI [of _ "nat i"])
  with rng have row: "?es ! nat i \<noteq> []" by (auto simp: list_all_iff inRange_def)
  have js: "int j \<in> set ?js \<longleftrightarrow> j < ?n \<and> ?cn ! j" for j by auto
  have links: "links_ok cfg'" using ok(1) row n by (auto simp: links_ok_def cfg' nth_list_update)
  have lk: "link cfg' = link cfg" by (simp add: link_def cfg' fun_eq_iff)
  have out: "x \<in> Str ` set ?out \<longleftrightarrow> (\<exists>j. link cfg x (nat i) j \<and> ?cn ! j)" for x
    unfolding ends_out using row n by (auto simp: link_def)
  have cn_row: "?es ! j \<noteq> []" if "j < ?n" "?cn ! j" for j
    using that ok(1) row n by (cases "j = nat i") (auto simp: links_ok_def)
  have inc: "x \<in> Str ` set ?in \<longleftrightarrow> (\<exists>j. link cfg x j (nat i) \<and> ?cn ! j)" for x
    unfolding ends_in using cn_row n by (auto simp: link_def)
  have "enabled (cfgNet cfg') x \<longleftrightarrow> (\<exists>k l. link cfg' x k l \<and> connected cfg' ! k \<and> connected cfg' ! l)" for x
  proof -
    have old: "enabled (cfgNet cfg) x \<longleftrightarrow> (\<exists>k l. link cfg x k l \<and> connected cfg ! k \<and> connected cfg ! l)"
      using ok(2) unfolding partition_ok_def by blast
    have cn: "?cn ! k \<longleftrightarrow> k = nat i \<or> connected cfg ! k" if "k < ?n" for k using that n by (simp add: nth_list_update)
    have bnd: "link cfg x k l \<Longrightarrow> k < ?n \<and> l < ?n" for k l by (simp add: link_def)
    have "enabled (cfgNet cfg') x \<longleftrightarrow> x \<in> Str ` set ?in \<or> x \<in> Str ` set ?out \<or> enabled (cfgNet cfg) x" by (simp add: cfg')
    also have "\<dots> \<longleftrightarrow> (\<exists>k l. link cfg x k l \<and> ?cn ! k \<and> ?cn ! l)"
      unfolding old inc out using cn bnd n(1) by blast
    finally show ?thesis by (simp add: lk) (simp add: cfg')
  qed
  moreover have "connections (cfgNet cfg') = connections (cfgNet cfg)" by (simp add: cfg')
  ultimately show ?thesis using links ok(2) unfolding partition_ok_def by (simp add: lk)
qed


lemma disconnect_links:
  assumes ok: "links_ok cfg" "partition_ok cfg" and c: "disconnect cfg i = Inr cfg'"
  shows "links_ok cfg' \<and> partition_ok cfg' \<and> 0 \<le> i \<and> nat i < cfgN cfg
    \<and> cfgN cfg' = cfgN cfg \<and> endnames cfg' = endnames cfg \<and> connected cfg' = (connected cfg)[nat i := False]"
proof -
  let ?n = "cfgN cfg" and ?es = "endnames cfg" and ?cn = "(connected cfg)[nat i := False]"
  let ?js = "filter (\<lambda>j. ?es ! nat j \<noteq> []) (upto_n ?n)" and ?js' = "filter (\<lambda>j. ?es ! nat i \<noteq> []) (upto_n ?n)"
  let ?out = "map (\<lambda>(i, j). ?es ! nat i ! nat j) (map (\<lambda>j. (i, j)) ?js')" and ?in = "map (\<lambda>(i, j). ?es ! nat i ! nat j) (map (\<lambda>j. (j, i)) ?js)"
  from c have i: "0 \<le> i" "nat i < length (connected cfg)"
    and cfg': "cfg' = cfg\<lparr>connected := ?cn, cfgNet := enableEnds False ?in (enableEnds False ?out (cfgNet cfg))\<rparr>"
    by (auto simp: disconnect_def go_bind_eq_Inr set_idx_eq_Inr idx_eq_Inr endsAt_Inr slen_def Let_def)
  have n: "nat i < ?n" "length ?es = ?n" "length (connected cfg) = ?n" using i ok(1) by (auto simp: links_ok_def)
  have links: "links_ok cfg'" using ok(1) n by (auto simp: links_ok_def cfg' nth_list_update)
  have lk: "link cfg' = link cfg" by (simp add: link_def cfg' fun_eq_iff)
  have out: "x \<in> Str ` set ?out \<longleftrightarrow> (\<exists>j. link cfg x (nat i) j)" for x
    unfolding ends_out using n by (auto simp: link_def)
  have inc: "x \<in> Str ` set ?in \<longleftrightarrow> (\<exists>j. link cfg x j (nat i))" for x
    unfolding ends_in using n by (auto simp: link_def)
  have "enabled (cfgNet cfg') x \<longleftrightarrow> (\<exists>k l. link cfg' x k l \<and> connected cfg' ! k \<and> connected cfg' ! l)" for x
  proof -
    have old: "enabled (cfgNet cfg) x \<longleftrightarrow> (\<exists>k l. link cfg x k l \<and> connected cfg ! k \<and> connected cfg ! l)"
      using ok(2) unfolding partition_ok_def by blast
    have cn: "?cn ! k \<longleftrightarrow> k \<noteq> nat i \<and> connected cfg ! k" if "k < ?n" for k using that n by (simp add: nth_list_update)
    have bnd: "link cfg x k l \<Longrightarrow> k < ?n \<and> l < ?n" for k l by (simp add: link_def)
    have "enabled (cfgNet cfg') x \<longleftrightarrow> x \<notin> Str ` set ?in \<and> x \<notin> Str ` set ?out \<and> enabled (cfgNet cfg) x" by (simp add: cfg')
    also have "\<dots> \<longleftrightarrow> (\<exists>k l. link cfg x k l \<and> ?cn ! k \<and> ?cn ! l)"
      unfolding old inc out using cn bnd link_unique [OF ok(1), of x] by blast
    finally show ?thesis by (simp add: lk) (simp add: cfg')
  qed
  moreover have "connections (cfgNet cfg') = connections (cfgNet cfg)" by (simp add: cfg')
  ultimately have "partition_ok cfg'" using ok(2) unfolding partition_ok_def by (simp add: lk)
  then show ?thesis using links i n by (simp add: cfg')
qed

lemma partition_net:
  assumes "links_ok cfg" "partition_ok cfg" "cfgNet cfg' = DeleteServer (cfgNet cfg) k"
    "cfgN cfg' = cfgN cfg" "endnames cfg' = endnames cfg" "connected cfg' = connected cfg"
  shows "links_ok cfg' \<and> partition_ok cfg'"
  using assms by (simp add: links_ok_def partition_ok_def link_def DeleteServer_def)

lemma crash1_links:
  assumes ok: "links_ok cfg" "partition_ok cfg" and c: "crash1 cfg i = Inr cfg'"
  shows "links_ok cfg' \<and> partition_ok cfg' \<and> 0 \<le> i \<and> nat i < cfgN cfg \<and> cfgN cfg' = cfgN cfg
    \<and> \<not> connected cfg' ! nat i \<and> endnames cfg' = endnames cfg"
proof -
  from c obtain cfg1 where d: "disconnect cfg i = Inr cfg1" and cfg': "cfgNet cfg' = DeleteServer (cfgNet cfg1) (Num i)"
    "cfgN cfg' = cfgN cfg1" "endnames cfg' = endnames cfg1" "connected cfg' = connected cfg1"
    by (auto simp: crash1_def go_bind_eq_Inr Let_def)
  note 1 = disconnect_links [OF ok d]
  have "length (connected cfg) = cfgN cfg" using ok(1) by (simp add: links_ok_def)
  moreover have "links_ok cfg' \<and> partition_ok cfg'" by (rule partition_net [OF _ _ cfg']) (use 1 in blast)+
  ultimately show ?thesis using 1 cfg' by simp
qed


lemma makeEnds_ok:
  assumes "makeEnds rn es = Inr rn'"
  shows "distinct (map fst es) \<and> (\<forall>e\<in>fst ` set es. ends rn (Str e) = None)
    \<and> (\<forall>x. ends rn' x \<noteq> None \<longleftrightarrow> ends rn x \<noteq> None \<or> x \<in> Str ` fst ` set es)
    \<and> (\<forall>x. enabled rn' x \<longleftrightarrow> enabled rn x \<and> x \<notin> Str ` fst ` set es)
    \<and> (\<forall>x. x \<notin> Str ` fst ` set es \<longrightarrow> connections rn' x = connections rn x)
    \<and> (\<forall>p\<in>set es. connections rn' (Str (fst p)) = Some (Num (snd p)))"
  using assms
proof (induction es arbitrary: rn)
  case (Cons p es)
  obtain e j where p: "p = (e, j)" by (cases p)
  let ?rn = "rn\<lparr>ends := (ends rn)(Str e \<mapsto> Str e), enabled := (enabled rn)(Str e := False), connections := (connections rn)(Str e := Some (Num j))\<rparr>"
  from Cons.prems have e: "ends rn (Str e) = None" and rest: "makeEnds ?rn es = Inr rn'"
    by (auto simp: p go_bind_eq_Inr MakeEnd_def Connect_def split: if_splits)
  note IH = Cons.IH [OF rest]
  have new: "e \<notin> fst ` set es" using IH by fastforce
  show ?case
  proof (intro conjI allI ballI impI)
    show "distinct (map fst (p # es))" using IH new by (simp add: p)
    show "ends rn (Str d) = None" if "d \<in> fst ` set (p # es)" for d
      using that IH e new by (cases "d = e") (auto simp: p)
    show "ends rn' x \<noteq> None \<longleftrightarrow> ends rn x \<noteq> None \<or> x \<in> Str ` fst ` set (p # es)" for x
      using IH e by (cases "x = Str e") (auto simp: p)
    show "enabled rn' x \<longleftrightarrow> enabled rn x \<and> x \<notin> Str ` fst ` set (p # es)" for x
      using IH by (cases "x = Str e") (auto simp: p)
    show "connections rn' x = connections rn x" if "x \<notin> Str ` fst ` set (p # es)" for x
      using IH that by (auto simp: p)
    show "connections rn' (Str (fst q)) = Some (Num (snd q))" if "q \<in> set (p # es)" for q
    proof (cases "q = p")
      case True
      have "Str e \<notin> Str ` fst ` set es" using new by auto
      with IH True show ?thesis by (simp add: p)
    qed (use IH that in auto)
  qed
qed simp

lemma distinct_concat_upd:
  assumes "distinct (concat es)" "distinct xs" "set xs \<inter> set (concat es) = {}" "i < length es"
  shows "distinct (concat (es[i := xs]))" "set (concat (es[i := xs])) \<subseteq> set (concat es) \<union> set xs"
proof -
  have es: "concat es = concat (take i es) @ es ! i @ concat (drop (Suc i) es)"
    by (metis assms(4) concat.simps(2) concat_append id_take_nth_drop)
  have up: "concat (es[i := xs]) = concat (take i es) @ xs @ concat (drop (Suc i) es)"
    by (simp add: upd_conv_take_nth_drop [OF assms(4)])
  show "distinct (concat (es[i := xs]))" using assms(1-3) unfolding es up by (auto simp del: set_concat)
  show "set (concat (es[i := xs])) \<subseteq> set (concat es) \<union> set xs" unfolding es up by auto
qed

lemma start1_links:
  assumes ok: "links_ok cfg" "partition_ok cfg" and c: "start1 cfg i names = Inr cfg'" and len: "length names = cfgN cfg"
  shows "links_ok cfg' \<and> partition_ok cfg'"
proof -
  from c obtain cfg1 rn ps rf where d: "crash1 cfg i = Inr cfg1" and mk: "makeEnds (cfgNet cfg1) (zip names (upto_n (cfgN cfg1))) = Inr rn"
    and cfg': "cfgNet cfg' = AddServer rn (Num i) (nextSrv cfg1)" "cfgN cfg' = cfgN cfg1" "endnames cfg' = (endnames cfg1)[nat i := names]"
      "connected cfg' = connected cfg1"
    by (auto simp: start1_def go_bind_eq_Inr Let_def)
  note 1 = crash1_links [OF ok d]
  let ?n = "cfgN cfg" and ?es = "endnames cfg1"
  have n: "nat i < ?n" "cfgN cfg1 = ?n" "length ?es = ?n" "length (connected cfg1) = ?n" "\<not> connected cfg1 ! nat i"
    using 1 by (auto simp: links_ok_def)
  have nm: "map fst (zip names (upto_n ?n)) = names" "fst ` set (zip names (upto_n ?n)) = set names"
    using len by (simp_all add: map_fst_zip flip: set_map)
  note mk' = makeEnds_ok [OF mk [unfolded n(2)], unfolded nm]
  have reg: "\<forall>e\<in>set (concat ?es). ends (cfgNet cfg1) (Str e) \<noteq> None" and dis: "distinct (concat ?es)" using 1 by (auto simp: links_ok_def)
  have rows: "\<forall>k<?n. ?es ! k = [] \<or> length (?es ! k) = ?n" "\<forall>k<?n. connected cfg1 ! k \<longrightarrow> ?es ! k \<noteq> []"
    using 1 unfolding links_ok_def by metis+
  have fresh: "set names \<inter> set (concat ?es) = {}" using reg mk' by blast
  have il: "nat i < length ?es" using n by simp
  note up = distinct_concat_upd [OF dis _ fresh il]
  have cx: "set (concat (endnames cfg')) \<subseteq> set (concat ?es) \<union> set names" using up mk' by (simp add: cfg')
  have links: "links_ok cfg'"
    unfolding links_ok_def
  proof (intro conjI allI ballI impI)
    show "distinct (concat (endnames cfg'))" using up mk' by (simp add: cfg')
    show "ends (cfgNet cfg') (Str e) \<noteq> None" if "e \<in> set (concat (endnames cfg'))" for e
    proof -
      have "ends (cfgNet cfg') (Str e) \<noteq> None \<longleftrightarrow> ends (cfgNet cfg1) (Str e) \<noteq> None \<or> Str e \<in> Str ` set names"
        using mk' unfolding cfg' AddServer_def by simp
      with that cx reg show ?thesis by blast
    qed
    show "endnames cfg' ! k = [] \<or> length (endnames cfg' ! k) = cfgN cfg'" if "k < cfgN cfg'" for k
      using that n len rows(1) by (cases "k = nat i") (simp_all add: cfg')
    show "endnames cfg' ! k \<noteq> []" if "k < cfgN cfg'" "connected cfg' ! k" for k
      using that n rows(2) by (cases "k = nat i") (simp_all add: cfg')
  qed (use n in \<open>simp_all add: cfg'\<close>)
  have lk: "link cfg' x a b \<longleftrightarrow> (if a = nat i then b < ?n \<and> x = Str (names ! b) else link cfg1 x a b)" for x a b
    using n len by (auto simp: link_def cfg')
  have old: "enabled (cfgNet cfg1) x \<longleftrightarrow> (\<exists>k l. link cfg1 x k l \<and> connected cfg1 ! k \<and> connected cfg1 ! l)" for x
    using 1 unfolding partition_ok_def by blast
  have row: "link cfg1 x k l \<Longrightarrow> x \<notin> Str ` set names" for x k l
  proof -
    assume l: "link cfg1 x k l"
    then have "length (?es ! k) = ?n" "k < length ?es" "l < ?n" using 1 n by (auto simp: links_ok_def link_def)
    then have "?es ! k ! l \<in> set (concat ?es)" by (auto intro!: bexI [of _ "?es ! k"])
    with l fresh show ?thesis by (auto simp: link_def simp del: set_concat)
  qed
  have "enabled (cfgNet cfg') x \<longleftrightarrow> (\<exists>k l. link cfg' x k l \<and> connected cfg' ! k \<and> connected cfg' ! l)" for x
  proof -
    have "enabled (cfgNet cfg') x \<longleftrightarrow> enabled (cfgNet cfg1) x \<and> x \<notin> Str ` set names" using mk' by (simp add: cfg' AddServer_def)
    moreover have "link cfg' x k l \<and> connected cfg' ! k \<and> connected cfg' ! l
        \<longleftrightarrow> link cfg1 x k l \<and> connected cfg1 ! k \<and> connected cfg1 ! l \<and> x \<notin> Str ` set names" for k l
      using n(5) row [of x k l] by (cases "k = nat i") (simp_all add: lk cfg'(4), blast)
    ultimately show ?thesis by (simp add: old) blast
  qed
  moreover have "connections (cfgNet cfg') x = Some (Num (int b))" if "link cfg' x a b" for x a b
  proof (cases "a = nat i")
    case True
    with that lk have b: "b < ?n" "x = Str (names ! b)" by auto
    then have "(names ! b, int b) \<in> set (zip names (upto_n ?n))" using len by (auto simp: set_zip intro!: exI [of _ b])
    with mk' b show ?thesis by (force simp: cfg' AddServer_def)
  next
    case False
    with that lk have l: "link cfg1 x a b" by simp
    then have "connections (cfgNet cfg1) x = Some (Num (int b))" using 1 unfolding partition_ok_def by blast
    with mk' row [OF l] show ?thesis by (simp add: cfg' AddServer_def)
  qed
  ultimately have "partition_ok cfg'" unfolding partition_ok_def by blast
  with links show ?thesis by blast
qed


section \<open>What the checks accept\<close>

definition msgEntry :: "'c ApplyMsg \<Rightarrow> 'c logEntry" where
  "msgEntry msg = \<lparr>valid = CommandValid msg, command = msgCommand msg\<rparr>"

definition compatible :: "(int \<rightharpoonup> 'c logEntry) list \<Rightarrow> 'c ApplyMsg \<Rightarrow> bool" where
  "compatible ls msg \<longleftrightarrow> list_all (\<lambda>l. l (CommandIndex msg) = None \<or> l (CommandIndex msg) = Some (msgEntry msg)) ls"

lemma checkConsistency_iff:
  "checkConsistency ls (CommandIndex msg) (msgEntry msg) = Inr u \<longleftrightarrow> compatible ls msg"
  by (induction ls) (auto simp: compatible_def split: option.splits)

definition nextExpected :: "'c config \<Rightarrow> nat \<Rightarrow> 'c ApplyMsg \<Rightarrow> int" where
  "nextExpected cfg i msg = (if \<not> didRecv cfg ! i \<and> CommandIndex msg = 1 \<and> expected cfg ! i = 0 then 1 else expected cfg ! i)"

text \<open>A message is accepted exactly if it has the index expected and no peer has another entry there.\<close>

lemma cfgApply_iff:
  "cfgApply cfg i msg = Inr cfg' \<longleftrightarrow> CommandIndex msg = nextExpected cfg i msg \<and> compatible (logs cfg) msg
     \<and> cfg' = cfg\<lparr>didRecv := (didRecv cfg)[i := True], expected := (expected cfg)[i := CommandIndex msg + 1],
                 logs := (logs cfg)[i := (logs cfg ! i)(CommandIndex msg \<mapsto> msgEntry msg)],
                 maxIndex := max (maxIndex cfg) (CommandIndex msg),
                 numCommands := (if CommandValid msg then (numCommands cfg)[i := numCommands cfg ! i + 1] else numCommands cfg)\<rparr>"
  by (auto simp: cfgApply_def Let_def nextExpected_def go_bind_eq_Inr checkConsistency_iff [unfolded msgEntry_def] msgEntry_def
           split: if_splits)

definition agree :: "(int \<rightharpoonup> 'c logEntry) list \<Rightarrow> bool" where
  "agree ls \<longleftrightarrow> (\<forall>l\<in>set ls. \<forall>l'\<in>set ls. \<forall>k e e'. l k = Some e \<longrightarrow> l' k = Some e' \<longrightarrow> e = e')"

lemma agree_apply:
  assumes "agree (logs cfg)" "cfgApply cfg i msg = Inr cfg'" "i < length (logs cfg)"
  shows "agree (logs cfg')"
proof -
  let ?l = "(logs cfg ! i)(CommandIndex msg \<mapsto> msgEntry msg)"
  from assms(2) have c: "compatible (logs cfg) msg" and l': "logs cfg' = (logs cfg)[i := ?l]" by (auto simp: cfgApply_iff)
  have mem: "logs cfg ! i \<in> set (logs cfg)" using assms(3) by simp
  have new: "?l k = Some e \<Longrightarrow> l k = Some e' \<Longrightarrow> e = e'" if "l \<in> set (logs cfg)" for l k e e'
    using assms(1) c that mem by (auto simp: agree_def compatible_def list_all_iff split: if_splits)
  show ?thesis unfolding agree_def
  proof (intro ballI allI impI)
    fix a b k e e' assume a: "a \<in> set (logs cfg')" "b \<in> set (logs cfg')" "a k = Some e" "b k = Some e'"
    then have "a = ?l \<or> a \<in> set (logs cfg)" "b = ?l \<or> b \<in> set (logs cfg)"
      using set_update_subset_insert [of "logs cfg" i ?l] unfolding l' by auto
    then show "e = e'" using a(3,4) new assms(1) unfolding agree_def by (metis option.inject)
  qed
qed

section \<open>The harness as a system\<close>

text \<open>The tests start, crash, connect and disconnect peers, the appliers read what a peer applies, and the peers run.\<close>

datatype 'c cfg_op =
    StartOp int "string list"
  | ConnectOp int
  | DisconnectOp int
  | CrashOp int
  | ApplyOp nat "'c ApplyMsg"
  | PeerOp nat "'c raft"

fun cfgExec :: "'c config \<Rightarrow> 'c cfg_op \<Rightarrow> 'c config go" where
  "cfgExec cfg (StartOp i names) = start1 cfg i names"
| "cfgExec cfg (ConnectOp i) = connect cfg i"
| "cfgExec cfg (DisconnectOp i) = disconnect cfg i"
| "cfgExec cfg (CrashOp i) = crash1 cfg i"
| "cfgExec cfg (ApplyOp i msg) = cfgApply cfg i msg"
| "cfgExec cfg (PeerOp i rf) = Inr (cfg\<lparr>rafts := (rafts cfg)[i := Some rf]\<rparr>)"

text \<open>\<open>start1\<close> makes as many end names as there are peers; there is an applier for every peer.\<close>

fun allowed :: "'c config \<Rightarrow> 'c cfg_op \<Rightarrow> bool" where
  "allowed cfg (StartOp i names) = (length names = cfgN cfg)"
| "allowed cfg (ApplyOp i msg) = (i < cfgN cfg)"
| "allowed cfg (PeerOp i rf) = (i < cfgN cfg \<and> rafts cfg ! i \<noteq> None)"
| "allowed cfg op = True"

definition cfgStep :: "'c config \<Rightarrow> 'c cfg_op \<Rightarrow> 'c config \<Rightarrow> bool" where
  "cfgStep cfg op cfg' \<longleftrightarrow> cfgExec cfg op = Inr cfg' \<and> allowed cfg op"

abbreviation cfgReach :: "'c config \<Rightarrow> bool" where
  "cfgReach \<equiv> reachable (\<lambda>cfg. \<exists>n unrel. cfg = newConfig n unrel) cfgStep"

definition logs_ok :: "'c config \<Rightarrow> bool" where
  "logs_ok cfg \<longleftrightarrow> agree (logs cfg) \<and> length (logs cfg) = cfgN cfg \<and> length (rafts cfg) = cfgN cfg"

lemma newConfig_inv: "links_ok (newConfig n unrel) \<and> partition_ok (newConfig n unrel) \<and> logs_ok (newConfig n unrel)"
  by (auto simp: links_ok_def partition_ok_def link_def newConfig_def LongDelays_def Reliable_def MakeNetwork_def logs_ok_def agree_def)

lemma same_logs:
  "connect cfg i = Inr cfg' \<Longrightarrow> logs cfg' = logs cfg \<and> length (rafts cfg') = length (rafts cfg) \<and> cfgN cfg' = cfgN cfg"
  "disconnect cfg i = Inr cfg' \<Longrightarrow> logs cfg' = logs cfg \<and> length (rafts cfg') = length (rafts cfg) \<and> cfgN cfg' = cfgN cfg"
  "crash1 cfg i = Inr cfg' \<Longrightarrow> logs cfg' = logs cfg \<and> length (rafts cfg') = length (rafts cfg) \<and> cfgN cfg' = cfgN cfg"
  "start1 cfg i names = Inr cfg' \<Longrightarrow> logs cfg' = logs cfg \<and> length (rafts cfg') = length (rafts cfg) \<and> cfgN cfg' = cfgN cfg"
  by (auto simp: connect_def disconnect_def crash1_def start1_def go_bind_eq_Inr Let_def)

lemma step_logs_ok:
  assumes "logs_ok cfg" "cfgStep cfg op cfg'"
  shows "logs_ok cfg'"
proof (cases op)
  case (ApplyOp i msg)
  with assms(2) have a: "cfgApply cfg i msg = Inr cfg'" "i < cfgN cfg" by (simp_all add: cfgStep_def)
  have "agree (logs cfg')" by (rule agree_apply [OF _ a(1)]) (use assms(1) a(2) in \<open>simp_all add: logs_ok_def\<close>)
  with assms(1) a(1) show ?thesis by (simp add: logs_ok_def cfgApply_iff)
qed (use assms in \<open>auto simp: cfgStep_def logs_ok_def dest!: same_logs\<close>)

text \<open>What a peer has applied at an index stays: it can only be applied there again.\<close>

lemma step_keeps_entry:
  assumes "logs_ok cfg" "cfgStep cfg op cfg'" "(logs cfg ! i) ix = Some e" "i < cfgN cfg"
  shows "(logs cfg' ! i) ix = Some e"
proof (cases op)
  case (ApplyOp j msg)
  with assms(2) have a: "compatible (logs cfg) msg" "j < cfgN cfg"
    "logs cfg' = (logs cfg)[j := (logs cfg ! j)(CommandIndex msg \<mapsto> msgEntry msg)]" by (auto simp: cfgStep_def cfgApply_iff)
  have len: "length (logs cfg) = cfgN cfg" using assms(1) by (simp add: logs_ok_def)
  with a(1) assms(4) have "(logs cfg ! i) (CommandIndex msg) = None \<or> (logs cfg ! i) (CommandIndex msg) = Some (msgEntry msg)"
    by (simp add: compatible_def list_all_length)
  with a(3) len assms(3,4) show ?thesis by (cases "j = i") auto
qed (use assms in \<open>auto simp: cfgStep_def dest!: same_logs\<close>)

lemma step_links:
  assumes "links_ok cfg \<and> partition_ok cfg" "cfgStep cfg op cfg'"
  shows "links_ok cfg' \<and> partition_ok cfg'"
proof (cases op)
  case (ApplyOp i msg)
  with assms show ?thesis by (simp add: cfgStep_def cfgApply_iff links_ok_def partition_ok_def link_def)
next
  case (PeerOp i rf)
  with assms show ?thesis by (auto simp: cfgStep_def links_ok_def partition_ok_def link_def)
qed (use assms in \<open>auto simp: cfgStep_def dest: connect_links disconnect_links crash1_links start1_links\<close>)

lemma cfgReach_inv: "cfgReach cfg \<Longrightarrow> links_ok cfg \<and> partition_ok cfg \<and> logs_ok cfg"
proof (induction rule: reachable_invariant)
  case (step cfg op cfg')
  then show ?case using step_links step_logs_ok by blast
qed (auto simp: newConfig_inv)

end
