(* ===== verification/Lock_Config.thy ===== *)
theory Lock_Config
  imports Raft_Config Lock_Clerk
begin

text \<open>
  The harness of the lock tests (\<open>src/raft-lock/config.go\<close>): it starts, shuts down, connects and disconnects lock
  servers and clerks on the simulated network.

  A nil slice of end names is the empty list. \<open>cfg.clerks\<close> maps pointers to clerks; a pointer is a position in
  \<open>lc_objs\<close>. The map \<open>cfg.clerkEnds\<close> is one object with the \<open>clerkEnds\<close> of every running server, so a change to it
  is a change there too. The random names, the random client identifier and the random numbers of the shuffle
  are parameters. Client identifiers are names of the network of another type than the numbers of the servers.
\<close>

section \<open>Data\<close>

record lock_config =
  lc_net :: Network
  lc_n :: nat
  lockServers :: "(LockServer \<times> Op raft) option list"
  lc_saved :: "Op gobval Persister option list"
  lc_endnames :: "string list list"
  lc_objs :: "Clerk list"
  clerks :: "nat \<rightharpoonup> string list"
  lc_clerkEnds :: "ClientID list"
  nextClientId :: int
  lc_nextSrv :: nat

definition lcStored :: "lock_config \<Rightarrow> nat \<Rightarrow> Op gobval Persister option" where
  "lcStored cfg i = (case lockServers cfg ! i of Some (ls, rf) \<Rightarrow> Some (persister rf) | None \<Rightarrow> lc_saved cfg ! i)"

section \<open>Handles\<close>

definition swap :: "'a list \<Rightarrow> nat \<Rightarrow> nat \<Rightarrow> 'a list" where
  "swap sa i j = sa[i := sa ! j, j := sa ! i]"

text \<open>\<open>rnd i\<close> is the random number from which \<open>rand.Intn(i + 1)\<close> is made.\<close>

definition random_handles :: "(nat \<Rightarrow> nat) \<Rightarrow> 'a list \<Rightarrow> 'a list" where
  "random_handles rnd kvh = fold (\<lambda>i sa. swap sa i (rnd i mod (i + 1))) [0..<length kvh] kvh"

section \<open>Connections between servers\<close>

definition connectUnlocked :: "lock_config \<Rightarrow> int \<Rightarrow> int list \<Rightarrow> lock_config go" where
  "connectUnlocked cfg i to =
     go_bind (endsAt (lc_endnames cfg) (map (\<lambda>t. (i, t)) to)) (\<lambda>outgoing.
     go_bind (endsAt (lc_endnames cfg) (map (\<lambda>t. (t, i)) to)) (\<lambda>incoming.
     Inr (cfg\<lparr>lc_net := enableEnds True incoming (enableEnds True outgoing (lc_net cfg))\<rparr>)))"

text \<open>The test for nil is of \<open>cfg.endnames[j]\<close>, although \<open>cfg.endnames[from[j]]\<close> is used.\<close>

fun incomingEnds :: "string list list \<Rightarrow> int \<Rightarrow> int \<Rightarrow> int list \<Rightarrow> string list go" where
  "incomingEnds es i j [] = Inr []"
| "incomingEnds es i j (f # fs) =
     go_bind (idx es j) (\<lambda>row.
     if row \<noteq> [] then go_bind (endAt es f i) (\<lambda>e. go_bind (incomingEnds es i (j + 1) fs) (\<lambda>r. Inr (e # r)))
     else incomingEnds es i (j + 1) fs)"

definition disconnectUnlocked :: "lock_config \<Rightarrow> int \<Rightarrow> int list \<Rightarrow> lock_config go" where
  "disconnectUnlocked cfg i frm =
     go_bind (if frm = [] then Inr [] else idx (lc_endnames cfg) i) (\<lambda>row.
     go_bind (endsAt (lc_endnames cfg) (if row = [] then [] else map (\<lambda>t. (i, t)) frm)) (\<lambda>outgoing.
     go_bind (incomingEnds (lc_endnames cfg) i 0 frm) (\<lambda>incoming.
     Inr (cfg\<lparr>lc_net := enableEnds False incoming (enableEnds False outgoing (lc_net cfg))\<rparr>))))"

definition All_servers :: "lock_config \<Rightarrow> int list" where
  "All_servers cfg = upto_n (lc_n cfg)"

fun connectLoop :: "lock_config \<Rightarrow> int list \<Rightarrow> lock_config go" where
  "connectLoop cfg [] = Inr cfg"
| "connectLoop cfg (i # is) = go_bind (connectUnlocked cfg i (All_servers cfg)) (\<lambda>cfg. connectLoop cfg is)"

definition ConnectAll :: "lock_config \<Rightarrow> lock_config go" where
  "ConnectAll cfg = connectLoop cfg (All_servers cfg)"

section \<open>Clerks\<close>

definition addClerkToNetwork :: "lock_config \<Rightarrow> Clerk \<Rightarrow> lock_config" where
  "addClerkToNetwork cfg clerk =
     (let c = Id (ck_ClientID clerk) in
      cfg\<lparr>lc_net := AddServer (Enable (Connect (lc_net cfg) c c) c True) c (lc_nextSrv cfg), lc_nextSrv := lc_nextSrv cfg + 1\<rparr>)"

fun clerkEndsAt :: "string list \<Rightarrow> int list \<Rightarrow> string list go" where
  "clerkEndsAt names [] = Inr []"
| "clerkEndsAt names (t # ts) = go_bind (idx names t) (\<lambda>e. go_bind (clerkEndsAt names ts) (\<lambda>r. Inr (e # r)))"

definition endnamesOf :: "lock_config \<Rightarrow> nat \<Rightarrow> string list" where
  "endnamesOf cfg ck = (case clerks cfg ck of Some names \<Rightarrow> names | None \<Rightarrow> [])"

definition ConnectClientUnlocked :: "lock_config \<Rightarrow> nat \<Rightarrow> int list \<Rightarrow> lock_config go" where
  "ConnectClientUnlocked cfg ck to =
     (let cfg = addClerkToNetwork cfg (lc_objs cfg ! ck) in
      go_bind (clerkEndsAt (endnamesOf cfg ck) to) (\<lambda>names.
      Inr (cfg\<lparr>lc_net := enableEnds True names (lc_net cfg)\<rparr>)))"

definition DisconnectClientUnlocked :: "lock_config \<Rightarrow> nat \<Rightarrow> int list \<Rightarrow> lock_config go" where
  "DisconnectClientUnlocked cfg ck frm =
     go_bind (clerkEndsAt (endnamesOf cfg ck) frm) (\<lambda>names.
     Inr (cfg\<lparr>lc_net := enableEnds False names (lc_net cfg)\<rparr>))"

definition setClerkEnds :: "ClientID list \<Rightarrow> lock_config \<Rightarrow> lock_config" where
  "setClerkEnds cs cfg = cfg\<lparr>lc_clerkEnds := cs,
     lockServers := map (map_option (\<lambda>(ls, rf). (ls\<lparr>clerkEnds := cs\<rparr>, rf))) (lockServers cfg)\<rparr>"

text \<open>The result is the new harness, the pointer of the clerk and the order in which the clerk tries its ends.\<close>

definition makeClient :: "lock_config \<Rightarrow> ClientID \<Rightarrow> string list \<Rightarrow> (nat \<Rightarrow> nat) \<Rightarrow> int list \<Rightarrow> (lock_config \<times> nat \<times> string list) go" where
  "makeClient cfg clientID names rnd to =
     go_bind (MakeEnd (lc_net cfg) (Id clientID)) (\<lambda>rn.
     go_bind (makeEnds rn (zip names (upto_n (lc_n cfg)))) (\<lambda>rn.
     let handles = random_handles rnd names;
         ck = length (lc_objs cfg);
         cfg1 = setClerkEnds (clientID # removeAll clientID (lc_clerkEnds cfg))
                  (cfg\<lparr>lc_net := rn, lc_objs := lc_objs cfg @ [MakeClerk (length handles) clientID],
                       clerks := (clerks cfg)(ck \<mapsto> names), nextClientId := nextClientId cfg + 1\<rparr>)
     in go_bind (ConnectClientUnlocked cfg1 ck to) (\<lambda>cfg. Inr (cfg, ck, handles))))"

definition deleteClient :: "lock_config \<Rightarrow> nat \<Rightarrow> lock_config" where
  "deleteClient cfg ck =
     setClerkEnds (removeAll (ck_ClientID (lc_objs cfg ! ck)) (lc_clerkEnds cfg)) (cfg\<lparr>clerks := (clerks cfg)(ck := None)\<rparr>)"

section \<open>Servers\<close>

definition ShutdownServer :: "lock_config \<Rightarrow> int \<Rightarrow> lock_config go" where
  "ShutdownServer cfg i =
     go_bind (disconnectUnlocked cfg i (All_servers cfg)) (\<lambda>cfg.
     let rn = DeleteServer (lc_net cfg) (Num i) in
     go_bind (idx (lc_saved cfg) i) (\<lambda>_.
     Inr (cfg\<lparr>lc_net := rn, lc_saved := (lc_saved cfg)[nat i := map_option CopyPersister (lcStored cfg (nat i))],
              lockServers := (lockServers cfg)[nat i := None]\<rparr>)))"

definition StartServer :: "lock_config \<Rightarrow> int \<Rightarrow> string list \<Rightarrow> lock_config go" where
  "StartServer cfg i names =
     go_bind (set_idx (lc_endnames cfg) i names) (\<lambda>es.
     go_bind (makeEnds (lc_net cfg) (zip names (upto_n (lc_n cfg)))) (\<lambda>rn.
     let ps = (case lcStored cfg (nat i) of Some ps \<Rightarrow> CopyPersister ps | None \<Rightarrow> MakePersister) in
     go_bind (StartLockServer (lc_n cfg) (lc_clerkEnds cfg) i ps) (\<lambda>lock.
     Inr (cfg\<lparr>lc_endnames := es, lc_saved := (lc_saved cfg)[nat i := Some ps], lockServers := (lockServers cfg)[nat i := Some lock],
              lc_net := AddServer rn (Num i) (lc_nextSrv cfg), lc_nextSrv := lc_nextSrv cfg + 1\<rparr>))))"

text \<open>\<open>Leader\<close>; a server that is shut down is a nil pointer.\<close>

fun leaderLoop :: "(LockServer \<times> Op raft) option list \<Rightarrow> nat \<Rightarrow> (bool \<times> nat) go" where
  "leaderLoop [] i = Inr (False, 0)"
| "leaderLoop (None # lss) i = Inl NilDereference"
| "leaderLoop (Some (ls, rf) # lss) i = (if snd (GetState rf) then Inr (True, i) else leaderLoop lss (i + 1))"

definition LeaderOf :: "lock_config \<Rightarrow> (bool \<times> nat) go" where
  "LeaderOf cfg = leaderLoop (lockServers cfg) 0"

definition lockLogSize :: "lock_config \<Rightarrow> int go" where
  "lockLogSize cfg = LogSizeLoop (map (lcStored cfg) [0..<lc_n cfg]) 0"

definition lockCleanup :: "lock_config \<Rightarrow> bool \<Rightarrow> bool \<Rightarrow> lock_config go" where
  "lockCleanup cfg hasFailed late =
     go_bind (Cleanup (lc_net cfg)) (\<lambda>rn.
     go_bind (checkTimeout hasFailed late) (\<lambda>_.
     Inr (cfg\<lparr>lc_net := rn, lockServers := map (map_option (\<lambda>(ls, rf). prod.swap (KillLockServer rf ls))) (lockServers cfg)\<rparr>)))"

fun startServers :: "lock_config \<Rightarrow> (int \<times> string list) list \<Rightarrow> lock_config go" where
  "startServers cfg [] = Inr cfg"
| "startServers cfg ((i, names) # rest) = go_bind (StartServer cfg i names) (\<lambda>cfg. startServers cfg rest)"

definition newLockConfig :: "nat \<Rightarrow> lock_config" where
  "newLockConfig n = \<lparr>lc_net = MakeNetwork, lc_n = n, lockServers = replicate n None, lc_saved = replicate n None,
     lc_endnames = replicate n [], lc_objs = [], clerks = Map.empty, lc_clerkEnds = [], nextClientId = int n + 1000, lc_nextSrv = 0\<rparr>"

definition make_lock_config :: "nat \<Rightarrow> bool \<Rightarrow> string list list \<Rightarrow> lock_config go" where
  "make_lock_config n unrel names =
     go_bind (startServers (newLockConfig n) (zip (upto_n n) names)) (\<lambda>cfg.
     go_bind (ConnectAll cfg) (\<lambda>cfg.
     Inr (cfg\<lparr>lc_net := Reliable (lc_net cfg) (\<not> unrel)\<rparr>)))"

end
