(* ===== verification/Lock_Config_Safety.thy ===== *)
theory Lock_Config_Safety
  imports Lock_Config
begin

text \<open>
  The lock harness implements an abstract network: a relation that says which server can send to which. The relation
  \<open>sim G L cfg\<close> holds if the ends of the servers in \<open>cfg\<close> are enabled exactly for the pairs in \<open>L\<close>; \<open>G\<close> are the names of all ends that servers
  ever had.
\<close>

section \<open>Shuffled handles\<close>

lemma swap_mset: "i < length sa \<Longrightarrow> j < length sa \<Longrightarrow> mset (swap sa i j) = mset sa"
  unfolding swap_def by (rule mset_swap)

lemma random_handles_mset: "mset (random_handles rnd kvh) = mset kvh"
proof -
  have "mset (fold (\<lambda>i sa. swap sa i (rnd i mod (i + 1))) is sa) = mset sa" if "\<forall>i\<in>set is. i < length sa" for "is" and sa :: "'a list"
    using that
  proof (induction "is" arbitrary: sa)
    case (Cons i "is")
    have "rnd i mod (i + 1) < i + 1" "i < length sa" using Cons.prems by simp_all
    then have "rnd i mod (i + 1) < length sa" by linarith
    then have "mset (swap sa i (rnd i mod (i + 1))) = mset sa" using Cons.prems by (intro swap_mset) auto
    moreover have "length (swap sa i (rnd i mod (i + 1))) = length sa" by (simp add: swap_def)
    ultimately show ?case using Cons.IH [of "swap sa i (rnd i mod (i + 1))"] Cons.prems by simp
  qed simp
  then show ?thesis by (simp add: random_handles_def)
qed

section \<open>The relation\<close>

definition sim :: "string set \<Rightarrow> (nat \<times> nat) set \<Rightarrow> lock_config \<Rightarrow> bool" where
  "sim G L cfg \<longleftrightarrow> length (lc_endnames cfg) = lc_n cfg
     \<and> (\<forall>i<lc_n cfg. lc_endnames cfg ! i = [] \<or> length (lc_endnames cfg ! i) = lc_n cfg)
     \<and> distinct (concat (lc_endnames cfg)) \<and> set (concat (lc_endnames cfg)) \<subseteq> G
     \<and> (\<forall>e\<in>G. ends (lc_net cfg) (Str e) \<noteq> None)
     \<and> (\<forall>e\<in>G. enabled (lc_net cfg) (Str e) \<longrightarrow> e \<in> set (concat (lc_endnames cfg)))
     \<and> (\<forall>ck names. clerks cfg ck = Some names \<longrightarrow> set names \<inter> G = {} \<and> (\<forall>e\<in>set names. ends (lc_net cfg) (Str e) \<noteq> None))
     \<and> (\<forall>i<lc_n cfg. \<forall>j<lc_n cfg. lc_endnames cfg ! i \<noteq> [] \<longrightarrow>
          (enabled (lc_net cfg) (Str (lc_endnames cfg ! i ! j)) \<longleftrightarrow> (i, j) \<in> L)
          \<and> connections (lc_net cfg) (Str (lc_endnames cfg ! i ! j)) = Some (Num (int j)))"

definition full :: "lock_config \<Rightarrow> bool" where
  "full cfg \<longleftrightarrow> list_all (\<lambda>row. row \<noteq> []) (lc_endnames cfg)"

lemma simD:
  assumes "sim G L cfg"
  shows "length (lc_endnames cfg) = lc_n cfg" "distinct (concat (lc_endnames cfg))" "set (concat (lc_endnames cfg)) \<subseteq> G"
    "e \<in> G \<Longrightarrow> ends (lc_net cfg) (Str e) \<noteq> None" "e \<in> G \<Longrightarrow> enabled (lc_net cfg) (Str e) \<Longrightarrow> e \<in> set (concat (lc_endnames cfg))"
    "clerks cfg ck = Some names \<Longrightarrow> set names \<inter> G = {} \<and> (\<forall>e\<in>set names. ends (lc_net cfg) (Str e) \<noteq> None)"
    "i < lc_n cfg \<Longrightarrow> lc_endnames cfg ! i = [] \<or> length (lc_endnames cfg ! i) = lc_n cfg"
    "i < lc_n cfg \<Longrightarrow> j < lc_n cfg \<Longrightarrow> lc_endnames cfg ! i \<noteq> [] \<Longrightarrow>
      (enabled (lc_net cfg) (Str (lc_endnames cfg ! i ! j)) \<longleftrightarrow> (i, j) \<in> L)
      \<and> connections (lc_net cfg) (Str (lc_endnames cfg ! i ! j)) = Some (Num (int j))"
  using assms unfolding sim_def by blast+

text \<open>Changes of the network that no end of a server sees.\<close>

lemma sim_net:
  assumes "sim G L cfg" "\<And>e. e \<in> G \<Longrightarrow> enabled rn (Str e) = enabled (lc_net cfg) (Str e) \<and> connections rn (Str e) = connections (lc_net cfg) (Str e)"
    and "\<And>e. e \<in> G \<Longrightarrow> ends rn (Str e) \<noteq> None"
    and "lc_net cfg' = rn" "lc_n cfg' = lc_n cfg" "lc_endnames cfg' = lc_endnames cfg"
    and "\<And>ck names. clerks cfg' ck = Some names \<Longrightarrow> set names \<inter> G = {} \<and> (\<forall>e\<in>set names. ends rn (Str e) \<noteq> None)"
  shows "sim G L cfg'"
proof -
  note D = simD [OF assms(1)]
  have mem: "lc_endnames cfg ! i ! j \<in> G" if "i < lc_n cfg" "j < lc_n cfg" "lc_endnames cfg ! i \<noteq> []" for i j
  proof -
    have "lc_endnames cfg ! i ! j \<in> set (concat (lc_endnames cfg))"
      using that D(1) D(7) [OF that(1)] by (auto intro!: bexI [of _ "lc_endnames cfg ! i"])
    with D(3) show ?thesis by blast
  qed
  show ?thesis unfolding sim_def
  proof (intro conjI allI ballI impI)
    show "enabled (lc_net cfg') (Str (lc_endnames cfg' ! i ! j)) \<longleftrightarrow> (i, j) \<in> L"
      "connections (lc_net cfg') (Str (lc_endnames cfg' ! i ! j)) = Some (Num (int j))"
      if "i < lc_n cfg'" "j < lc_n cfg'" "lc_endnames cfg' ! i \<noteq> []" for i j
      using that D(8) [of i j] assms(2) [OF mem [of i j]] by (simp_all add: assms(4-6))
    show "e \<in> set (concat (lc_endnames cfg'))" if "e \<in> G" "enabled (lc_net cfg') (Str e)" for e
      using that assms(2) [OF that(1)] D(5) by (simp only: assms(4,6)) 
    show "ends (lc_net cfg') (Str e) \<noteq> None" if "e \<in> G" for e using assms(3) [OF that] by (simp add: assms(4))
    show "set names \<inter> G = {}" "\<And>e. e \<in> set names \<Longrightarrow> ends (lc_net cfg') (Str e) \<noteq> None"
      if "clerks cfg' ck = Some names" for ck names using assms(7) [OF that] by (simp_all add: assms(4))
  qed (use D(1,2,3,7) in \<open>simp_all add: assms(5,6)\<close>)
qed

section \<open>Connections between servers\<close>

definition pairs :: "(int \<times> int) list \<Rightarrow> (nat \<times> nat) set" where
  "pairs ps = (\<lambda>(i, j). (nat i, nat j)) ` set ps"

definition namesAt :: "string list list \<Rightarrow> (int \<times> int) list \<Rightarrow> string list" where
  "namesAt es ps = map (\<lambda>(i, j). es ! nat i ! nat j) ps"

lemma namesAt_iff:
  assumes "distinct (concat es)" "list_all (\<lambda>(i, j). inRange es i j) ps" "a < length es" "b < length (es ! a)"
  shows "es ! a ! b \<in> set (namesAt es ps) \<longleftrightarrow> (a, b) \<in> pairs ps"
proof
  assume "es ! a ! b \<in> set (namesAt es ps)"
  then obtain i j where ij: "(i, j) \<in> set ps" "es ! a ! b = es ! nat i ! nat j" by (auto simp: namesAt_def)
  from assms(2) ij(1) have "inRange es i j" by (auto simp: list_all_iff)
  with distinct_table [OF assms(1,3,4) _ _ ij(2)] have "a = nat i \<and> b = nat j" by (simp add: inRange_def)
  with ij(1) show "(a, b) \<in> pairs ps" by (force simp: pairs_def)
qed (force simp: namesAt_def pairs_def)

lemma namesAt_sub:
  assumes "list_all (\<lambda>(i, j). inRange es i j) ps"
  shows "set (namesAt es ps) \<subseteq> set (concat es)"
proof
  fix e assume "e \<in> set (namesAt es ps)"
  then obtain i j where ij: "(i, j) \<in> set ps" "e = es ! nat i ! nat j" by (auto simp: namesAt_def)
  with assms have "inRange es i j" by (auto simp: list_all_iff)
  then show "e \<in> set (concat es)" by (auto simp: ij inRange_def intro!: bexI [of _ "es ! nat i"])
qed

lemma sim_enable:
  assumes s: "sim G L cfg" and r: "list_all (\<lambda>(i, j). inRange (lc_endnames cfg) i j) ps"
  shows "sim G (if yes then L \<union> pairs ps else L - pairs ps) (cfg\<lparr>lc_net := enableEnds yes (namesAt (lc_endnames cfg) ps) (lc_net cfg)\<rparr>)"
proof -
  let ?es = "lc_endnames cfg" and ?cfg = "cfg\<lparr>lc_net := enableEnds yes (namesAt (lc_endnames cfg) ps) (lc_net cfg)\<rparr>"
  note D = simD [OF s]
  show ?thesis unfolding sim_def
  proof (intro conjI allI ballI impI)
    fix i j assume ij: "i < lc_n ?cfg" "j < lc_n ?cfg" "lc_endnames ?cfg ! i \<noteq> []"
    then have l: "i < length ?es" "j < length (?es ! i)" using D(1) D(7) [of i] by simp_all
    from namesAt_iff [OF D(2) r l] D(8) [of i j] ij
    show "enabled (lc_net ?cfg) (Str (lc_endnames ?cfg ! i ! j)) \<longleftrightarrow> (i, j) \<in> (if yes then L \<union> pairs ps else L - pairs ps)"
      by (simp add: image_iff)
    show "connections (lc_net ?cfg) (Str (lc_endnames ?cfg ! i ! j)) = Some (Num (int j))" using D(8) [of i j] ij by simp
  next
    fix e assume e: "e \<in> G" "enabled (lc_net ?cfg) (Str e)"
    then have "e \<in> set (namesAt ?es ps) \<or> enabled (lc_net cfg) (Str e)" by (auto split: if_splits)
    with namesAt_sub [OF r] D(5) [OF e(1)] show "e \<in> set (concat (lc_endnames ?cfg))" by auto
  next
    fix ck names assume "clerks ?cfg ck = Some names"
    then have "clerks cfg ck = Some names" by simp
    from D(6) [OF this] show "set names \<inter> G = {}" "\<And>e. e \<in> set names \<Longrightarrow> ends (lc_net ?cfg) (Str e) \<noteq> None" by simp_all
  qed (use D(1,2,3,4,7) in simp_all)
qed

lemma endsAt_names: "endsAt es ps = Inr r \<longleftrightarrow> list_all (\<lambda>(i, j). inRange es i j) ps \<and> r = namesAt es ps"
  by (simp add: endsAt_Inr namesAt_def)

lemma incomingEnds_full:
  assumes "list_all (\<lambda>row. row \<noteq> []) es" "incomingEnds es i j fs = Inr r"
  shows "list_all (\<lambda>(i, j). inRange es i j) (map (\<lambda>f. (f, i)) fs) \<and> r = namesAt es (map (\<lambda>f. (f, i)) fs)"
  using assms(2)
proof (induction fs arbitrary: j r)
  case (Cons f fs)
  from Cons.prems obtain row where row: "idx es j = Inr row" by (auto simp: go_bind_eq_Inr)
  then have "row \<noteq> []" using assms(1) by (auto simp: idx_eq_Inr list_all_iff slen_def)
  with Cons.prems row obtain e r' where e: "endAt es f i = Inr e" "incomingEnds es i (j + 1) fs = Inr r'" "r = e # r'"
    by (auto simp: go_bind_eq_Inr)
  moreover have "inRange es f i \<and> e = es ! nat f ! nat i" using e(1)
    by (auto simp: endAt_def go_bind_eq_Inr idx_eq_Inr inRange_def slen_def)
  ultimately show ?case using Cons.IH [OF e(2)] by (simp add: namesAt_def)
qed (simp add: namesAt_def)

definition both :: "int \<Rightarrow> int list \<Rightarrow> (nat \<times> nat) set" where
  "both i ts = pairs (map (\<lambda>t. (i, t)) ts) \<union> pairs (map (\<lambda>t. (t, i)) ts)"

lemma connectUnlocked_sim:
  assumes s: "sim G L cfg" and c: "connectUnlocked cfg i to = Inr cfg'"
  shows "sim G (L \<union> both i to) cfg' \<and> lc_endnames cfg' = lc_endnames cfg \<and> lc_n cfg' = lc_n cfg"
proof -
  let ?es = "lc_endnames cfg" and ?o = "map (\<lambda>t. (i, t)) to" and ?i = "map (\<lambda>t. (t, i)) to"
  from c have r: "list_all (\<lambda>(i, j). inRange ?es i j) ?o" "list_all (\<lambda>(i, j). inRange ?es i j) ?i"
    and cfg': "cfg' = cfg\<lparr>lc_net := enableEnds True (namesAt ?es ?i) (enableEnds True (namesAt ?es ?o) (lc_net cfg))\<rparr>"
    by (auto simp: connectUnlocked_def go_bind_eq_Inr endsAt_names)
  from sim_enable [OF sim_enable [OF s r(1), of True], of ?i True] r(2) show ?thesis by (simp add: cfg' both_def Un_assoc)
qed

lemma disconnectUnlocked_sim:
  assumes s: "sim G L cfg" and f: "full cfg" and c: "disconnectUnlocked cfg i frm = Inr cfg'"
  shows "sim G (L - both i frm) cfg' \<and> lc_endnames cfg' = lc_endnames cfg \<and> lc_n cfg' = lc_n cfg
    \<and> clerks cfg' = clerks cfg \<and> (\<exists>rn. cfg' = cfg\<lparr>lc_net := rn\<rparr>)"
proof -
  let ?es = "lc_endnames cfg" and ?o = "map (\<lambda>t. (i, t)) frm" and ?i = "map (\<lambda>t. (t, i)) frm"
  have rows: "row \<noteq> []" if "idx ?es i = Inr row" for row
    using f that by (auto simp: full_def idx_eq_Inr list_all_iff slen_def)
  from c obtain outs incs where o: "endsAt ?es ?o = Inr outs" "incomingEnds ?es i 0 frm = Inr incs"
    and cfg': "cfg' = cfg\<lparr>lc_net := enableEnds False incs (enableEnds False outs (lc_net cfg))\<rparr>"
    by (cases "frm = []") (auto simp: disconnectUnlocked_def go_bind_eq_Inr dest: rows)
  from o incomingEnds_full [OF _ o(2)] f have r: "list_all (\<lambda>(i, j). inRange ?es i j) ?o" "outs = namesAt ?es ?o"
    "list_all (\<lambda>(i, j). inRange ?es i j) ?i" "incs = namesAt ?es ?i" by (simp_all add: endsAt_names full_def)
  have "L - pairs ?o - pairs ?i = L - both i frm" by (auto simp: both_def)
  with sim_enable [OF sim_enable [OF s r(1), of False], of ?i False] r show ?thesis by (auto simp: cfg')
qed

section \<open>Clerks\<close>

text \<open>Ends that belong to no server can be enabled and disabled freely, and so can the names of clients.\<close>

lemma sim_other_ends:
  assumes "sim G L cfg" "set names \<inter> G = {}"
  shows "sim G L (cfg\<lparr>lc_net := enableEnds yes names (lc_net cfg)\<rparr>)"
  by (rule sim_net [OF assms(1), of "enableEnds yes names (lc_net cfg)"])
     (use assms(2) simD(4,6) [OF assms(1)] in auto)

lemma clerkEndsAt_sub: "clerkEndsAt names ts = Inr r \<Longrightarrow> set r \<subseteq> set names"
  by (induction ts arbitrary: r) (auto simp: go_bind_eq_Inr idx_eq_Inr slen_def)

lemma endnamesOf_sim: "sim G L cfg \<Longrightarrow> set (endnamesOf cfg ck) \<inter> G = {}"
  by (cases "clerks cfg ck") (simp_all add: endnamesOf_def simD(6))

lemma addClerk_sim: "sim G L cfg \<Longrightarrow> sim G L (addClerkToNetwork cfg clerk)"
  by (rule sim_net [of G L cfg "lc_net (addClerkToNetwork cfg clerk)"])
     (auto simp: addClerkToNetwork_def Let_def AddServer_def Enable_def Connect_def dest: simD(4,6))

definition same_servers :: "lock_config \<Rightarrow> lock_config \<Rightarrow> bool" where
  "same_servers cfg cfg' \<longleftrightarrow> lc_endnames cfg' = lc_endnames cfg \<and> lc_n cfg' = lc_n cfg"

lemma clients_sim:
  assumes s: "sim G L cfg"
  shows "ConnectClientUnlocked cfg ck to = Inr cfg' \<Longrightarrow> sim G L cfg' \<and> same_servers cfg cfg'"
    and "DisconnectClientUnlocked cfg ck to = Inr cfg' \<Longrightarrow> sim G L cfg' \<and> same_servers cfg cfg'"
proof -
  let ?c = "addClerkToNetwork cfg (lc_objs cfg ! ck)"
  have c: "sim G L ?c" by (rule addClerk_sim [OF s])
  show "sim G L cfg' \<and> same_servers cfg cfg'" if "ConnectClientUnlocked cfg ck to = Inr cfg'"
  proof -
    from that obtain names where n: "clerkEndsAt (endnamesOf ?c ck) to = Inr names" "cfg' = ?c\<lparr>lc_net := enableEnds True names (lc_net ?c)\<rparr>"
      by (auto simp: ConnectClientUnlocked_def Let_def go_bind_eq_Inr)
    then have "set names \<inter> G = {}" using clerkEndsAt_sub [OF n(1)] endnamesOf_sim [OF c] by blast
    from sim_other_ends [OF c this] n(2) show ?thesis by (simp add: same_servers_def addClerkToNetwork_def Let_def)
  qed
  show "sim G L cfg' \<and> same_servers cfg cfg'" if "DisconnectClientUnlocked cfg ck to = Inr cfg'"
  proof -
    from that obtain names where n: "clerkEndsAt (endnamesOf cfg ck) to = Inr names" "cfg' = cfg\<lparr>lc_net := enableEnds False names (lc_net cfg)\<rparr>"
      by (auto simp: DisconnectClientUnlocked_def go_bind_eq_Inr)
    then have "set names \<inter> G = {}" using clerkEndsAt_sub [OF n(1)] endnamesOf_sim [OF s] by blast
    from sim_other_ends [OF s this] n(2) show ?thesis by (simp add: same_servers_def)
  qed
qed

text \<open>New ends are none that a server ever had.\<close>

lemma makeEnds_new:
  assumes "makeEnds rn (zip names (upto_n n)) = Inr rn'" "length names = n" "\<forall>e\<in>G. ends rn (Str e) \<noteq> None"
  shows "set names \<inter> G = {}" "distinct names"
    and "\<And>e. e \<in> G \<Longrightarrow> enabled rn' (Str e) = enabled rn (Str e) \<and> connections rn' (Str e) = connections rn (Str e)"
    and "\<And>e. ends rn (Str e) \<noteq> None \<Longrightarrow> ends rn' (Str e) \<noteq> None" "\<And>e. e \<in> set names \<Longrightarrow> ends rn' (Str e) \<noteq> None \<and> \<not> enabled rn' (Str e)"
    and "\<And>j. j < n \<Longrightarrow> connections rn' (Str (names ! j)) = Some (Num (int j))"
proof -
  have nm: "map fst (zip names (upto_n n)) = names" "fst ` set (zip names (upto_n n)) = set names"
    using assms(2) by (simp_all add: map_fst_zip flip: set_map)
  note mk = makeEnds_ok [OF assms(1), unfolded nm]
  show new: "set names \<inter> G = {}" using mk assms(3) by blast
  show "distinct names" using mk by blast
  show "enabled rn' (Str e) = enabled rn (Str e) \<and> connections rn' (Str e) = connections rn (Str e)" if "e \<in> G" for e
  proof -
    have "Str e \<notin> Str ` set names" using new that by auto
    with mk show ?thesis by blast
  qed
  show "ends rn' (Str e) \<noteq> None" if "ends rn (Str e) \<noteq> None" for e using mk that by blast
  show "ends rn' (Str e) \<noteq> None \<and> \<not> enabled rn' (Str e)" if "e \<in> set names" for e using mk that by blast
  show "connections rn' (Str (names ! j)) = Some (Num (int j))" if "j < n" for j
  proof -
    have "(names ! j, int j) \<in> set (zip names (upto_n n))" using that assms(2) by (auto simp: set_zip intro!: exI [of _ j])
    with mk show ?thesis by force
  qed
qed

lemma makeClient_sim:
  assumes s: "sim G L cfg" and len: "length names = lc_n cfg" and c: "makeClient cfg cid names rnd to = Inr (cfg', ck, hs)"
  shows "sim G L cfg' \<and> same_servers cfg cfg'"
proof -
  from c obtain rn1 rn2 where r: "MakeEnd (lc_net cfg) (Id cid) = Inr rn1" "makeEnds rn1 (zip names (upto_n (lc_n cfg))) = Inr rn2"
    by (auto simp: makeClient_def go_bind_eq_Inr)
  let ?c = "setClerkEnds (cid # removeAll cid (lc_clerkEnds cfg)) (cfg\<lparr>lc_net := rn2, lc_objs := lc_objs cfg @ [MakeClerk (length (random_handles rnd names)) cid],
    clerks := (clerks cfg)(length (lc_objs cfg) \<mapsto> names), nextClientId := nextClientId cfg + 1\<rparr>)"
  from c r have cc: "ConnectClientUnlocked ?c (length (lc_objs cfg)) to = Inr cfg'" by (auto simp: makeClient_def go_bind_eq_Inr Let_def)
  have 1: "enabled rn1 (Str e) = enabled (lc_net cfg) (Str e)" "connections rn1 (Str e) = connections (lc_net cfg) (Str e)"
    "ends rn1 (Str e) = ends (lc_net cfg) (Str e)" for e using r(1) by (auto simp: MakeEnd_def split: if_splits)
  have reg: "\<forall>e\<in>G. ends rn1 (Str e) \<noteq> None" using simD(4) [OF s] by (simp add: 1)
  note mk = makeEnds_new [OF r(2) len reg, unfolded 1]
  have "sim G L ?c"
    by (rule sim_net [OF s, of rn2]) (use mk simD(4,6) [OF s] in \<open>auto simp: setClerkEnds_def split: if_splits\<close>)
  from clients_sim(1) [OF this cc] show ?thesis by (simp add: same_servers_def setClerkEnds_def)
qed

lemma deleteClient_sim: "sim G L cfg \<Longrightarrow> sim G L (deleteClient cfg ck) \<and> same_servers cfg (deleteClient cfg ck)"
  by (auto simp: same_servers_def deleteClient_def setClerkEnds_def split: if_splits intro!: sim_net [of G L cfg "lc_net cfg"] dest: simD(4,6))

section \<open>Servers\<close>

lemma ShutdownServer_sim:
  assumes s: "sim G L cfg" and f: "full cfg" and c: "ShutdownServer cfg i = Inr cfg'"
  shows "sim G (L - both i (All_servers cfg)) cfg' \<and> same_servers cfg cfg'"
proof -
  from c obtain cfg1 where d: "disconnectUnlocked cfg i (All_servers cfg) = Inr cfg1"
    and cfg': "lc_net cfg' = DeleteServer (lc_net cfg1) (Num i)" "lc_endnames cfg' = lc_endnames cfg1" "lc_n cfg' = lc_n cfg1" "clerks cfg' = clerks cfg1"
    by (auto simp: ShutdownServer_def go_bind_eq_Inr Let_def)
  note 1 = disconnectUnlocked_sim [OF s f d]
  have "sim G (L - both i (All_servers cfg)) cfg'"
    by (rule sim_net [of _ _ cfg1 "lc_net cfg'"]) (use 1 cfg' in \<open>auto simp: DeleteServer_def dest: simD(4,6)\<close>)
  with 1 cfg' show ?thesis by (simp add: same_servers_def)
qed

lemma StartServer_sim:
  assumes s: "sim G L cfg" and len: "length names = lc_n cfg" and c: "StartServer cfg i names = Inr cfg'"
    and off: "\<And>e. e \<in> set (lc_endnames cfg ! nat i) \<Longrightarrow> \<not> enabled (lc_net cfg) (Str e)"
    and no: "\<And>j. (nat i, j) \<notin> L"
  shows "sim (G \<union> set names) L cfg' \<and> lc_n cfg' = lc_n cfg \<and> 0 \<le> i \<and> nat i < lc_n cfg \<and> lc_endnames cfg' = (lc_endnames cfg)[nat i := names]"
proof -
  let ?es = "lc_endnames cfg" and ?n = "lc_n cfg"
  note D = simD [OF s]
  from c obtain rn where r: "makeEnds (lc_net cfg) (zip names (upto_n ?n)) = Inr rn" and i: "0 \<le> i" "nat i < length ?es"
    and cfg': "lc_net cfg' = AddServer rn (Num i) (lc_nextSrv cfg)" "lc_n cfg' = ?n" "lc_endnames cfg' = ?es[nat i := names]" "clerks cfg' = clerks cfg"
    by (auto simp: StartServer_def go_bind_eq_Inr set_idx_eq_Inr slen_def Let_def)
  have reg: "\<forall>e\<in>G. ends (lc_net cfg) (Str e) \<noteq> None" using D(4) by blast
  note mk = makeEnds_new [OF r len reg]
  have net: "enabled (lc_net cfg') = enabled rn" "connections (lc_net cfg') = connections rn" "ends (lc_net cfg') = ends rn"
    by (simp_all add: cfg' AddServer_def)
  have fresh: "set names \<inter> set (concat ?es) = {}" using mk(1) D(3) by blast
  note up = distinct_concat_upd [OF D(2) mk(2) fresh i(2)]
  have keep: "e \<in> set (concat (?es[nat i := names]))" if "e \<in> set (concat ?es)" "e \<notin> set (?es ! nat i)" for e
  proof -
    from that(1) obtain a where a: "a < length ?es" "e \<in> set (?es ! a)" by (metis UN_E in_set_conv_nth set_concat)
    with that(2) have "a \<noteq> nat i" by auto
    with a have "?es[nat i := names] ! a = ?es ! a" "a < length (?es[nat i := names])" by simp_all
    with a(2) show ?thesis by (metis UN_I nth_mem set_concat)
  qed
  have mem: "?es ! a ! b \<in> G" if "a < ?n" "b < ?n" "?es ! a \<noteq> []" for a b
    using that D(1,3) D(7) [OF that(1)] by (metis (no_types, lifting) UN_I nth_mem set_concat subsetD)
  have link: "(enabled rn (Str (?es[nat i := names] ! a ! b)) \<longleftrightarrow> (a, b) \<in> L) \<and> connections rn (Str (?es[nat i := names] ! a ! b)) = Some (Num (int b))"
    if ab: "a < ?n" "b < ?n" "?es[nat i := names] ! a \<noteq> []" for a b
  proof (cases "a = nat i")
    case True
    then have "?es[nat i := names] ! a ! b = names ! b" "names ! b \<in> set names" using i(2) ab(2) len by simp_all
    with mk(5,6) no ab(2) True show ?thesis by simp
  next
    case False
    then have eq: "?es[nat i := names] ! a = ?es ! a" by simp
    with ab have ne: "?es ! a \<noteq> []" by simp
    from mk(3) [OF mem [OF ab(1,2) ne]] D(8) [OF ab(1,2) ne] show ?thesis unfolding eq by simp
  qed
  have "sim (G \<union> set names) L cfg'" unfolding sim_def
  proof (intro conjI allI ballI impI)
    fix a b assume "a < lc_n cfg'" "b < lc_n cfg'" "lc_endnames cfg' ! a \<noteq> []"
    then have "(enabled rn (Str (?es[nat i := names] ! a ! b)) \<longleftrightarrow> (a, b) \<in> L) \<and> connections rn (Str (?es[nat i := names] ! a ! b)) = Some (Num (int b))"
      unfolding cfg' by (rule link)
    then show "enabled (lc_net cfg') (Str (lc_endnames cfg' ! a ! b)) \<longleftrightarrow> (a, b) \<in> L"
      "connections (lc_net cfg') (Str (lc_endnames cfg' ! a ! b)) = Some (Num (int b))" unfolding net cfg'(3) by blast+
  next
    fix e assume e: "e \<in> G \<union> set names" "enabled (lc_net cfg') (Str e)"
    then have "e \<in> G" "enabled (lc_net cfg) (Str e)" using mk(3,5) by (auto simp: net)
    with D(5) off keep show "e \<in> set (concat (lc_endnames cfg'))" unfolding cfg' by blast
  next
    fix e assume "e \<in> G \<union> set names"
    with mk(4,5) D(4) show "ends (lc_net cfg') (Str e) \<noteq> None" by (auto simp: net)
  next
    show "set (concat (lc_endnames cfg')) \<subseteq> G \<union> set names" using up(2) D(3) unfolding cfg' by blast
    show "distinct (concat (lc_endnames cfg'))" using up(1) by (simp only: cfg')
    show "lc_endnames cfg' ! a = [] \<or> length (lc_endnames cfg' ! a) = lc_n cfg'" if "a < lc_n cfg'" for a
      using that D(7) [of a] len i by (cases "a = nat i") (simp_all add: cfg')
  next
    fix ck ns assume "clerks cfg' ck = Some ns"
    then have ck: "clerks cfg ck = Some ns" by (simp add: cfg')
    have "set names \<inter> set ns = {}" using makeEnds_new(1) [OF r len, of "set ns"] D(6) [OF ck] by blast
    with D(6) [OF ck] show "set ns \<inter> (G \<union> set names) = {}" by blast
    show "ends (lc_net cfg') (Str e) \<noteq> None" if "e \<in> set ns" for e using D(6) [OF ck] mk(4) that by (simp add: net)
  qed (use D(1) in \<open>simp add: cfg'\<close>)
  then show ?thesis using cfg' i D(1) by simp
qed

section \<open>Runs\<close>

datatype lock_op =
    LConnect int "int list"
  | LDisconnect int "int list"
  | LShutdown int
  | LStart int "string list"
  | LMakeClient ClientID "string list" "nat \<Rightarrow> nat" "int list"
  | LConnectClient nat "int list"
  | LDisconnectClient nat "int list"
  | LDeleteClient nat

fun lockExec :: "lock_config \<Rightarrow> lock_op \<Rightarrow> lock_config go" where
  "lockExec cfg (LConnect i to) = connectUnlocked cfg i to"
| "lockExec cfg (LDisconnect i frm) = disconnectUnlocked cfg i frm"
| "lockExec cfg (LShutdown i) = ShutdownServer cfg i"
| "lockExec cfg (LStart i names) = StartServer cfg i names"
| "lockExec cfg (LMakeClient cid names rnd to) = go_bind (makeClient cfg cid names rnd to) (\<lambda>(cfg, ck, handles). Inr cfg)"
| "lockExec cfg (LConnectClient ck to) = ConnectClientUnlocked cfg ck to"
| "lockExec cfg (LDisconnectClient ck frm) = DisconnectClientUnlocked cfg ck frm"
| "lockExec cfg (LDeleteClient ck) = Inr (deleteClient cfg ck)"

text \<open>
  Names are made for every server, and a server is started again only while its old ends are disabled, as they are
  after \<open>ShutdownServer\<close>.
\<close>

fun lockAllowed :: "lock_config \<Rightarrow> lock_op \<Rightarrow> bool" where
  "lockAllowed cfg (LStart i names) = (length names = lc_n cfg \<and> 0 < lc_n cfg
     \<and> list_all (\<lambda>e. \<not> enabled (lc_net cfg) (Str e)) (lc_endnames cfg ! nat i))"
| "lockAllowed cfg (LMakeClient cid names rnd to) = (length names = lc_n cfg)"
| "lockAllowed cfg op = True"

fun lockRun :: "lock_config \<Rightarrow> lock_op list \<Rightarrow> lock_config go" where
  "lockRun cfg [] = Inr cfg"
| "lockRun cfg (op # ops) = (if lockAllowed cfg op then go_bind (lockExec cfg op) (\<lambda>cfg. lockRun cfg ops) else Inl (Fatal ''not allowed''))"

text \<open>The abstract network.\<close>

fun specStep :: "nat \<Rightarrow> lock_op \<Rightarrow> (nat \<times> nat) set \<Rightarrow> (nat \<times> nat) set" where
  "specStep n (LConnect i to) L = L \<union> {nat i} \<times> nat ` set to \<union> nat ` set to \<times> {nat i}"
| "specStep n (LDisconnect i frm) L = L - {nat i} \<times> nat ` set frm - nat ` set frm \<times> {nat i}"
| "specStep n (LShutdown i) L = {(a, b) \<in> L. a \<noteq> nat i \<and> b \<noteq> nat i}"
| "specStep n op L = L"

definition inside :: "nat \<Rightarrow> (nat \<times> nat) set \<Rightarrow> bool" where
  "inside n L \<longleftrightarrow> L \<subseteq> {..<n} \<times> {..<n}"

lemma both_eq: "both i ts = {nat i} \<times> nat ` set ts \<union> nat ` set ts \<times> {nat i}"
  by (auto simp: both_def pairs_def)

lemma All_both: "inside n L \<Longrightarrow> n = lc_n cfg \<Longrightarrow> L - both i (All_servers cfg) = {(a, b) \<in> L. a \<noteq> nat i \<and> b \<noteq> nat i}"
  by (force simp: both_eq All_servers_def inside_def)

lemma endsAt_inside:
  assumes "sim G L cfg" "connectUnlocked cfg i to = Inr cfg'"
  shows "inside (lc_n cfg) (both i to)"
proof -
  have r: "list_all (\<lambda>(i, j). inRange (lc_endnames cfg) i j) (map (\<lambda>t. (i, t)) to)" "list_all (\<lambda>(i, j). inRange (lc_endnames cfg) i j) (map (\<lambda>t. (t, i)) to)"
    using assms(2) by (auto simp: connectUnlocked_def go_bind_eq_Inr endsAt_names)
  have "nat a < lc_n cfg \<and> nat b < lc_n cfg" if "inRange (lc_endnames cfg) a b" for a b
    using that simD(1) [OF assms(1)] simD(7) [OF assms(1), of "nat a"] by (auto simp: inRange_def)
  with r have "nat i < lc_n cfg \<and> nat t < lc_n cfg" if "t \<in> set to" for t using that by (auto simp: list_all_iff)
  then show ?thesis by (auto simp: inside_def both_eq)
qed

lemma lock_step_sim:
  assumes s: "sim G L cfg" "full cfg" "inside (lc_n cfg) L" and e: "lockExec cfg op = Inr cfg'" "lockAllowed cfg op"
  shows "\<exists>G'. G \<subseteq> G' \<and> sim G' (specStep (lc_n cfg) op L) cfg' \<and> full cfg' \<and> lc_n cfg' = lc_n cfg \<and> inside (lc_n cfg) (specStep (lc_n cfg) op L)"
proof (cases op)
  case (LConnect i to)
  with connectUnlocked_sim [OF s(1), of i to cfg'] endsAt_inside [OF s(1), of i to cfg'] s(2,3) e(1) show ?thesis
    by (auto simp: both_eq full_def inside_def Un_assoc intro!: exI [of _ G])
next
  case (LDisconnect i frm)
  have "L - both i frm = specStep (lc_n cfg) op L" by (auto simp: both_eq LDisconnect)
  moreover have "inside (lc_n cfg) (L - both i frm)" using s(3) by (auto simp: inside_def)
  ultimately show ?thesis using disconnectUnlocked_sim [OF s(1,2), of i frm cfg'] s(2) e(1) LDisconnect
    by (auto simp: full_def intro!: exI [of _ G])
next
  case (LShutdown i)
  with ShutdownServer_sim [OF s(1,2), of i cfg'] All_both [OF s(3) refl, of i] s(2,3) e(1) show ?thesis
    by (auto simp: full_def same_servers_def inside_def intro!: exI [of _ G])
next
  case (LStart i names)
  have row: "(nat i, j) \<notin> L" for j
  proof
    assume L: "(nat i, j) \<in> L"
    then have ij: "nat i < lc_n cfg" "j < lc_n cfg" using s(3) by (auto simp: inside_def)
    then have ne: "lc_endnames cfg ! nat i \<noteq> []" using s(2) simD(1) [OF s(1)] by (simp add: full_def list_all_length)
    then have "lc_endnames cfg ! nat i ! j \<in> set (lc_endnames cfg ! nat i)" using simD(7) [OF s(1) ij(1)] ij(2) by simp
    with e(2) LStart have "\<not> enabled (lc_net cfg) (Str (lc_endnames cfg ! nat i ! j))" by (simp add: list_all_iff)
    with simD(8) [OF s(1) ij ne] L show False by simp
  qed
  have off: "\<not> enabled (lc_net cfg) (Str e)" if "e \<in> set (lc_endnames cfg ! nat i)" for e
    using that e(2) LStart by (simp add: list_all_iff)
  have "names \<noteq> []" "length names = lc_n cfg" using e(2) LStart by auto
  moreover from this have "list_all (\<lambda>row. row \<noteq> []) ((lc_endnames cfg)[nat i := names])"
    using s(2) set_update_subset_insert [of "lc_endnames cfg" "nat i" names] by (auto simp: full_def list_all_iff)
  ultimately show ?thesis using StartServer_sim [OF s(1) _ _ off row, of names cfg'] s(3) e(1) LStart
    by (auto simp: full_def intro!: exI [of _ "G \<union> set names"])
next
  case (LMakeClient cid names rnd to)
  with e obtain ck hs where "makeClient cfg cid names rnd to = Inr (cfg', ck, hs)" "length names = lc_n cfg" by (auto simp: go_bind_eq_Inr)
  with makeClient_sim [OF s(1)] s(2,3) LMakeClient show ?thesis by (auto simp: full_def same_servers_def intro!: exI [of _ G])
next
  case (LConnectClient ck to)
  with clients_sim(1) [OF s(1)] s(2,3) e(1) show ?thesis by (auto simp: full_def same_servers_def intro!: exI [of _ G])
next
  case (LDisconnectClient ck frm)
  with clients_sim(2) [OF s(1)] s(2,3) e(1) show ?thesis by (auto simp: full_def same_servers_def intro!: exI [of _ G])
next
  case (LDeleteClient ck)
  with deleteClient_sim [OF s(1), of ck] s(2,3) e(1) show ?thesis by (auto simp: full_def same_servers_def intro!: exI [of _ G])
qed

lemma lock_run_sim:
  assumes "lockRun cfg ops = Inr cfg'" "sim G L cfg" "full cfg" "inside (lc_n cfg) L"
  shows "\<exists>G'. G \<subseteq> G' \<and> sim G' (fold (specStep (lc_n cfg)) ops L) cfg' \<and> full cfg' \<and> lc_n cfg' = lc_n cfg
    \<and> inside (lc_n cfg) (fold (specStep (lc_n cfg)) ops L)"
  using assms
proof (induction ops arbitrary: cfg G L)
  case (Cons op ops)
  then obtain c where c: "lockExec cfg op = Inr c" "lockAllowed cfg op" "lockRun c ops = Inr cfg'"
    by (auto simp: go_bind_eq_Inr split: if_splits)
  from lock_step_sim [OF Cons.prems(2-4) c(1,2)] obtain G1 where G1: "G \<subseteq> G1" "sim G1 (specStep (lc_n cfg) op L) c" "full c"
    "lc_n c = lc_n cfg" "inside (lc_n cfg) (specStep (lc_n cfg) op L)" by blast
  from Cons.IH [OF c(3) G1(2,3)] G1(4,5)
  obtain G2 where "G1 \<subseteq> G2" "sim G2 (fold (specStep (lc_n cfg)) ops (specStep (lc_n cfg) op L)) cfg'" "full cfg'" "lc_n cfg' = lc_n cfg"
    "inside (lc_n cfg) (fold (specStep (lc_n cfg)) ops (specStep (lc_n cfg) op L))" by auto
  with G1(1) show ?case by (auto intro!: exI [of _ G2])
qed auto

section \<open>The start\<close>

lemma startServers_sim:
  assumes "startServers cfg ps = Inr cfg'" "sim G {} cfg" "\<forall>p\<in>set ps. length (snd p) = lc_n cfg"
    and "\<forall>k<lc_n cfg. lc_endnames cfg ! k \<noteq> [] \<or> int k \<in> fst ` set ps"
  shows "\<exists>G'. sim G' {} cfg' \<and> full cfg' \<and> lc_n cfg' = lc_n cfg"
  using assms
proof (induction ps arbitrary: cfg G)
  case Nil
  then show ?case using simD(1) [OF Nil.prems(2)] by (auto simp: full_def list_all_length)
next
  case (Cons p ps)
  obtain i names where p: "p = (i, names)" by (cases p)
  from Cons.prems(1) p obtain c where c: "StartServer cfg i names = Inr c" "startServers c ps = Inr cfg'" by (auto simp: go_bind_eq_Inr)
  have len: "length names = lc_n cfg" using Cons.prems(3) p by simp
  have i: "nat i < lc_n cfg" using c(1) simD(1) [OF Cons.prems(2)] by (auto simp: StartServer_def go_bind_eq_Inr set_idx_eq_Inr slen_def)
  have off: "\<not> enabled (lc_net cfg) (Str e)" if "e \<in> set (lc_endnames cfg ! nat i)" for e
  proof -
    have ne: "lc_endnames cfg ! nat i \<noteq> []" using that by auto
    from that obtain j where "j < lc_n cfg" "e = lc_endnames cfg ! nat i ! j" using simD(7) [OF Cons.prems(2) i] ne by (auto simp: in_set_conv_nth)
    with simD(8) [OF Cons.prems(2) i _ ne] show ?thesis by simp
  qed
  from StartServer_sim [OF Cons.prems(2) len c(1) off] have s: "sim (G \<union> set names) {} c" "lc_n c = lc_n cfg"
    "lc_endnames c = (lc_endnames cfg)[nat i := names]" "0 \<le> i" by auto
  have "lc_endnames c ! k \<noteq> [] \<or> int k \<in> fst ` set ps" if "k < lc_n c" for k
    using Cons.prems(4) that s(2,3,4) i len simD(1) [OF Cons.prems(2)] by (cases "k = nat i") (auto simp: p)
  then have "\<forall>k<lc_n c. lc_endnames c ! k \<noteq> [] \<or> int k \<in> fst ` set ps" by blast
  moreover have "\<forall>p\<in>set ps. length (snd p) = lc_n c" using Cons.prems(3) s(2) by simp
  ultimately show ?case using Cons.IH [OF c(2) s(1)] s(2) by metis
qed

lemma connectLoop_sim:
  assumes "connectLoop cfg is = Inr cfg'" "sim G L cfg"
  shows "sim G (L \<union> (\<Union>i\<in>set is. both i (All_servers cfg))) cfg' \<and> lc_endnames cfg' = lc_endnames cfg \<and> lc_n cfg' = lc_n cfg"
  using assms
proof (induction "is" arbitrary: cfg L)
  case (Cons i "is")
  then obtain c where c: "connectUnlocked cfg i (All_servers cfg) = Inr c" "connectLoop c is = Inr cfg'" by (auto simp: go_bind_eq_Inr)
  note 1 = connectUnlocked_sim [OF Cons.prems(2) c(1)]
  then have "All_servers c = All_servers cfg" by (simp add: All_servers_def)
  with Cons.IH [OF c(2) 1 [THEN conjunct1]] 1 show ?case by (simp add: Un_assoc)
qed simp

lemma newLockConfig_sim: "sim {} {} (newLockConfig n)"
  by (simp add: sim_def newLockConfig_def)

lemma make_lock_config_sim:
  assumes "make_lock_config n unrel names = Inr cfg" "length names = n" "list_all (\<lambda>row. length row = n) names"
  shows "\<exists>G. sim G ({..<n} \<times> {..<n}) cfg \<and> full cfg \<and> lc_n cfg = n"
proof -
  from assms(1) obtain c1 c2 where c: "startServers (newLockConfig n) (zip (upto_n n) names) = Inr c1" "ConnectAll c1 = Inr c2"
    "cfg = c2\<lparr>lc_net := Reliable (lc_net c2) (\<not> unrel)\<rparr>" by (auto simp: make_lock_config_def go_bind_eq_Inr)
  have n: "lc_n (newLockConfig n) = n" by (simp add: newLockConfig_def)
  have "\<forall>p\<in>set (zip (upto_n n) names). length (snd p) = n" using assms(3) by (auto simp: list_all_iff dest: set_zip_rightD)
  moreover have "fst ` set (zip (upto_n n) names) = set (upto_n n)" using assms(2) by (simp add: map_fst_zip flip: set_map)
  ultimately obtain G where G: "sim G {} c1" "full c1" "lc_n c1 = n" using startServers_sim [OF c(1) newLockConfig_sim] n by auto
  from connectLoop_sim [OF c(2) [unfolded ConnectAll_def] G(1)] have 2: "sim G (\<Union>i\<in>set (All_servers c1). both i (All_servers c1)) c2"
    "lc_endnames c2 = lc_endnames c1" "lc_n c2 = n" using G(3) by auto
  have "(\<Union>i\<in>set (All_servers c1). both i (All_servers c1)) = {..<n} \<times> {..<n}" by (force simp: All_servers_def both_eq G(3))
  with 2 have s: "sim G ({..<n} \<times> {..<n}) c2" by simp
  have "sim G ({..<n} \<times> {..<n}) cfg"
    by (rule sim_net [OF s, of "lc_net cfg"]) (use simD(4,6) [OF s] in \<open>simp_all add: c(3) Reliable_def\<close>)
  with 2 G(2) c(3) show ?thesis by (auto simp: full_def)
qed

section \<open>Guarantees\<close>

text \<open>C37: The lock harness implements an abstract network. From \<open>make_config\<close> on, however servers are connected, disconnected, shut down and
  started again and clients come and go, the end of server i towards server j is enabled exactly if the abstract network has the pair,
  and leads to server j; and an end that a server had before it was restarted stays disabled for ever.\<close>

theorem lock_network_refines:
  assumes "make_lock_config n unrel names = Inr cfg0" "length names = n" "list_all (\<lambda>row. length row = n) names"
    and "lockRun cfg0 ops1 = Inr cfg1" "lockRun cfg1 ops2 = Inr cfg2"
  shows "(\<forall>i<n. \<forall>j<n. (enabled (lc_net cfg2) (Str (lc_endnames cfg2 ! i ! j)) \<longleftrightarrow> (i, j) \<in> fold (specStep n) (ops1 @ ops2) ({..<n} \<times> {..<n}))
      \<and> connections (lc_net cfg2) (Str (lc_endnames cfg2 ! i ! j)) = Some (Num (int j)))
    \<and> (\<forall>e\<in>set (concat (lc_endnames cfg1)). enabled (lc_net cfg2) (Str e) \<longrightarrow> e \<in> set (concat (lc_endnames cfg2)))"
proof -
  let ?L = "{..<n} \<times> {..<n}"
  from make_lock_config_sim [OF assms(1-3)] obtain G where G: "sim G ?L cfg0" "full cfg0" "lc_n cfg0 = n" by blast
  from lock_run_sim [OF assms(4) G(1,2)] G(3) obtain G1 where G1: "sim G1 (fold (specStep n) ops1 ?L) cfg1" "full cfg1" "lc_n cfg1 = n"
    "inside n (fold (specStep n) ops1 ?L)" by (auto simp: inside_def)
  from lock_run_sim [OF assms(5) G1(1,2)] G1(3,4) obtain G2 where G2: "G1 \<subseteq> G2" "sim G2 (fold (specStep n) (ops1 @ ops2) ?L) cfg2"
    "full cfg2" "lc_n cfg2 = n" by auto
  have ne: "lc_endnames cfg2 ! i \<noteq> []" if "i < n" for i using that G2(3,4) simD(1) [OF G2(2)] by (simp add: full_def list_all_length)
  show ?thesis using simD(8) [OF G2(2)] ne G2(4) simD(5) [OF G2(2)] simD(3) [OF G1(1)] G2(1) by blast
qed

text \<open>Two servers, of which one is shut down, started again and connected to the other only.\<close>

definition lockDemo0 :: lock_config where
  "lockDemo0 = projr (make_lock_config 2 False [[''a'', ''b''], [''c'', ''d'']])"

definition lockDemo1 :: lock_config where
  "lockDemo1 = projr (lockRun lockDemo0 [LShutdown 1])"

definition lockDemo2 :: lock_config where
  "lockDemo2 = projr (lockRun lockDemo1 [LStart 1 [''e'', ''f''], LConnect 1 [0]])"

theorem lock_network_refines_witness:
  "enabled (lc_net lockDemo2) (Str ''b'') \<and> enabled (lc_net lockDemo2) (Str ''e'') \<and> \<not> enabled (lc_net lockDemo2) (Str ''f'')
   \<and> \<not> enabled (lc_net lockDemo2) (Str ''c'') \<and> connections (lc_net lockDemo2) (Str ''e'') = Some (Num 0)"
proof -
  have "\<not> isl (make_lock_config 2 False [[''a'', ''b''], [''c'', ''d'']])" "\<not> isl (lockRun lockDemo0 [LShutdown 1])"
    "\<not> isl (lockRun lockDemo1 [LStart 1 [''e'', ''f''], LConnect 1 [0]])" by code_simp+
  then have r: "make_lock_config 2 False [[''a'', ''b''], [''c'', ''d'']] = Inr lockDemo0" "lockRun lockDemo0 [LShutdown 1] = Inr lockDemo1"
    "lockRun lockDemo1 [LStart 1 [''e'', ''f''], LConnect 1 [0]] = Inr lockDemo2"
    unfolding lockDemo0_def lockDemo1_def lockDemo2_def by simp_all
  have es: "lc_endnames lockDemo1 = [[''a'', ''b''], [''c'', ''d'']]" "lc_endnames lockDemo2 = [[''a'', ''b''], [''e'', ''f'']]" by code_simp+
  have L: "fold (specStep 2) ([LShutdown 1] @ [LStart 1 [''e'', ''f''], LConnect 1 [0]]) ({..<2} \<times> {..<2}) = {(0, 0), (1, 0), (0, 1)}"
    by (auto simp: less_2_cases_iff)
  have l: "length [[''a'', ''b''], [''c'', ''d'']] = 2" "list_all (\<lambda>row. length row = 2) [[''a'', ''b''], [''c'', ''d'']]" by simp_all
  note c = lock_network_refines [OF r(1) l r(2,3), unfolded L es]
  have "enabled (lc_net lockDemo2) (Str ([[''a'', ''b''], [''e'', ''f'']] ! 0 ! 1))" "enabled (lc_net lockDemo2) (Str ([[''a'', ''b''], [''e'', ''f'']] ! 1 ! 0))"
    "\<not> enabled (lc_net lockDemo2) (Str ([[''a'', ''b''], [''e'', ''f'']] ! 1 ! 1))"
    "connections (lc_net lockDemo2) (Str ([[''a'', ''b''], [''e'', ''f'']] ! 1 ! 0)) = Some (Num (int 0))"
    using c [THEN conjunct1, rule_format, of 0 1] c [THEN conjunct1, rule_format, of 1 0] c [THEN conjunct1, rule_format, of 1 1] by simp_all
  moreover have "\<not> enabled (lc_net lockDemo2) (Str ''c'')" using c [THEN conjunct2] by simp
  ultimately show ?thesis by simp
qed

end
