(* ===== verification/Spec2Isabelle.thy ===== *)
theory Spec2Isabelle
  imports Raft_Safety Lock_Clerk MR_Job Bank_Safety Weather Labrpc_Safety Labgob Raft_Config_Safety Lock_Config_Safety
begin

text \<open>
  A verification of the Go programs of this repository: a Raft implementation, a lock service replicated with it, a MapReduce
  library with its applications, a bank and a weather aggregator for goroutines, the simulated network and the encoding checks
  that the Raft and lock tests run on, and the harnesses of these tests.

  \<^bold>\<open>The parts and how they interact.\<close> A Raft peer (\<open>src/raft/raft.go\<close>) keeps its log, term and vote in a persister (\<open>src/raft/persister.go\<close>)
  and calls the other peers over labrpc (\<open>src/labrpc/labrpc.go\<close>), which encodes arguments with labgob (\<open>src/labgob/labgob.go\<close>). It sends
  committed commands on \<open>applyCh\<close>. A lock server (\<open>src/raft-lock/server.go\<close>, \<open>common.go\<close>) hands operations to its Raft peer, applies what comes out to the
  lock store (\<open>lockStore.go\<close>), remembers the last request of every client and tells the new owner of a lock. A clerk (\<open>clerk.go\<close>) sends requests to the
  servers in turn until one that leads has applied them. The test harnesses (\<open>src/raft/config.go\<close>, \<open>src/raft-lock/config.go\<close>) start, crash, connect and
  disconnect peers on the simulated network and check what they apply. The MapReduce coordinator (\<open>src/mr/coordinator.go\<close>) gives tasks to
  workers (\<open>src/mr/worker.go\<close>) and gives a task again when its worker is slow; \<open>src/mr-main/mrsequential.go\<close> is the reference program and \<open>src/mr-main/mrapps\<close>
  are the applications. The bank (\<open>src/bank/bank.go\<close>) and the aggregators (\<open>src/ws\<close>) stand alone.

  \<^bold>\<open>Conventions.\<close> A struct is a record, an enumeration a datatype, Go's \<open>int\<close> is \<open>int\<close> where it counts indices and terms, and a word where the width
  matters: balances are 64 bit words with signed comparison, the FNV hash is a 32 bit word, the counters of the network are words. A panic or
  \<open>log.Fatal\<close> is \<open>Inl\<close> of the type \<open>'a go\<close> of \<open>Prelude\<close>; indexing and slicing are the checked operations \<open>idx\<close>, \<open>set_idx\<close>, \<open>slice_to\<close> and \<open>slice_from\<close>. A
  concurrent program is a state with a function that gives for a label the result of one atomic step (not possible, panic, next state); a run
  is a sequence of labels, so a theorem about reachable states is about every interleaving. Loss, delay and reordering are calls that stay
  where they are. Timers fire at any time. Random numbers and the current time are parameters.

  \<^bold>\<open>Raft\<close>
  \<^item> \<open>Persister\<close>: every operation of the persister; the contract of stable storage is the locale \<open>stable_storage\<close>.
  \<^item> \<open>Raft_Node\<close>: the state of a peer (\<open>raft\<close>) and one definition per function: \<open>GetState\<close>, \<open>persist\<close>, \<open>readPersist\<close>, \<open>Start\<close>, \<open>Kill\<close>, \<open>becomeCandidate\<close>,
    \<open>RequestVote\<close>, \<open>sendRequestVote\<close>, \<open>AppendEntries\<close>, \<open>sendAppendEntries\<close>, \<open>sendHeartBeats\<close>, \<open>Make\<close>. A function that makes a remote call is split at the call.
    \<open>Raft_Node_Props\<close> resolves their index checks and shows that each returns and keeps a peer well formed.
  \<^item> \<open>Raft_Cluster\<close>: peers, their tickers, every call under way, crash and restart; the state also has the goroutines that wait for the ticker
    to read a signal channel. \<open>Raft_Cluster_Wf\<close>: the invariant of every run, so no step panics.
  \<^item> \<open>Raft_Election\<close>: majorities (locale \<open>quorum_system\<close>), votes and election safety; \<open>Raft_Log\<close>: a history of the logs of leaders and log matching.
  \<^item> \<open>Raft_Safety\<close>: the properties of Raft. Election safety and log matching hold in runs that count no stale vote and crash no peer
    with unsaved state, and two schedules show that the code needs both conditions; a third shows that a late message removes
    committed entries. The specifications of the two handlers and of the commit rule cover every branch.

  \<^bold>\<open>Lock service\<close>
  \<^item> \<open>Lock_Store\<close>: the multimap and the lock queue, with the locale \<open>lock_queue\<close> for its fairness. \<open>Lock_Server\<close>: the handler \<open>Mutex\<close>, the apply loop and
    the state machine. \<open>Lock_Safety\<close>: replicas that applied the same messages agree (locale \<open>replica\<close>), the loop never gets stuck by itself, success is only
    reported for applied operations, owners are told; and the deadlock between Raft and the loop over \<open>applyCh\<close>. \<open>Lock_Clerk\<close>: the retry loop, a \<open>partial_function\<close>
    since it may run for ever, when it returns, and that resent requests take effect once.

  \<^bold>\<open>MapReduce\<close>
  \<^item> \<open>MR_Coordinator\<close>, \<open>MR_Worker\<close>, \<open>MR_Tasks\<close>: task tables and handlers, map and reduce tasks over a file system, sorting (locale \<open>key_sorter\<close>) and
    the file a task leaves. \<open>MR_Apps\<close>: the applications and what a plugin has to satisfy (locale \<open>mr_plugin\<close>). \<open>MR_Job\<close>: coordinator, timers, files and workers as one
    system, in which workers stall, die and run tasks twice: it never fails, can always finish, and then has the output of the sequential program.

  \<^bold>\<open>Bank and weather\<close>
  \<^item> \<open>Bank\<close>: every operation statement by statement, with the mutexes, and a journal of the calls in the order in which they took effect. \<open>Bank_Safety\<close>:
    serializability, absence of deadlock, conservation of money within 64 bits, panics, and the deadlock of a transfer to the same account.
  \<^item> \<open>Weather\<close>: the handler of a station and both aggregators; they can send the same sequences of reports.

  \<^bold>\<open>Network, encoding and harnesses\<close>
  \<^item> \<open>Labrpc\<close>: the network, servers, services and every call under way, with dropped requests and replies, replaced servers and the counters.
    \<open>Labrpc_Safety\<close>: a handler runs at most once for a call, every call can return, and only what the code says panics. These are the guarantees of
    \<open>Call\<close> on which \<open>Raft_Cluster\<close> builds.
  \<^item> \<open>Labgob\<close>: the warnings before encoding and decoding, for recursive types too; \<open>encoding/gob\<close> and the test for upper-case letters are parameters.
  \<^item> \<open>Raft_Config\<close>: the Raft harness over \<open>Labrpc\<close> and \<open>Raft_Node\<close>: \<open>make_config\<close>, \<open>start1\<close>, \<open>crash1\<close>, \<open>connect\<close>, \<open>disconnect\<close>, \<open>apply\<close>, the checks of leaders and terms, \<open>wait\<close>
    and \<open>one\<close>. \<open>Raft_Config_Safety\<close>: partitions are complete, \<open>one\<close> and \<open>wait\<close> only return after real agreement, and \<open>checkOneLeader\<close> accepts the cluster of \<open>Raft_Cluster\<close>.
  \<^item> \<open>Lock_Config\<close>: the lock harness: servers, clients and their ends. \<open>Lock_Config_Safety\<close>: it implements an abstract relation of who can send to whom.

  \<^bold>\<open>Bounds and fuel.\<close> No definition has fuel. Loops over indices are functions with a termination proof; the loops of \<open>one\<close> and \<open>wait\<close>, which the clock
  ends, take the number of rounds as a parameter, and \<open>checkOneLeader\<close> the list of its rounds, so the theorems hold for every number. The witnesses
  use clusters of one to three peers.

  \<^bold>\<open>Not modelled.\<close> Printing and debug output (\<open>src/raft/util.go\<close>, \<open>DPrintf\<close>) and the statistics of the harnesses (\<open>begin\<close>, \<open>end\<close>), which no other code reads. Argument parsing,
  plugin loading and sockets of the MapReduce programs (\<open>mrcoordinator.go\<close>, \<open>mrworker.go\<close>, \<open>server\<close> and \<open>call\<close>). The applications that measure parallelism by looking at the
  processes of the machine and at the clock (\<open>jobcount.go\<close>, the process counting of \<open>mtiming.go\<close> and \<open>rtiming.go\<close>). The web sockets of the weather stations (\<open>setup.go\<close>) beyond the closure that calls
  the handler. Real time: how long a timer or a delay takes. The Go memory model: shared data is accessed in critical sections, and the
  places that access it without a lock are findings.
\<close>

end
